(* ===== verification/Cc_Prelude.thy ===== *)
theory Cc_Prelude
  imports Main "HOL-Library.Word" "HOL-Library.Monad_Syntax"
begin

text \<open>
  Shared vocabulary of the development: the fixed-width integers of the C code, the
  return codes of \<^verbatim>\<open>include/cc_define.h\<close>, the memory primitives behind
  \<^verbatim>\<open>cc_memcpy\<close> and \<^verbatim>\<open>cc_memmove\<close>, and the generic facts on lists and words that the
  component theories use.

  An operation whose C code can leave the bounds of an object, fail an \<^verbatim>\<open>ASSERT\<close>, overflow a
  signed integer or shift by too much returns an option: \<^term>\<open>None\<close> says that this run has no
  defined result (in the panicking build a failed \<^verbatim>\<open>ASSERT\<close> aborts). An error that the code
  reports is never \<^term>\<open>None\<close>: it is a value of \<open>rstatus\<close>, as in the source.
\<close>

unbundle bit_operations_syntax

type_synonym u8 = "8 word"
type_synonym u16 = "16 word"
type_synonym u32 = "32 word"
type_synonym u64 = "64 word"
type_synonym bytes = "u8 list"

named_theorems mem_simps "evaluation of the bounded memory primitives"
named_theorems word_to_nat "transfer of word comparisons and sums to the naturals"


section \<open>Return codes\<close>

datatype rstatus =
    CC_OK | CC_ERROR | CC_EAGAIN | CC_ERETRY | CC_ENOMEM | CC_EEMPTY | CC_ERDHUP | CC_EINVAL
  | CC_UNFIN

fun rstatus_code :: "rstatus \<Rightarrow> int" where
  "rstatus_code CC_OK = 0"
| "rstatus_code CC_ERROR = -1"
| "rstatus_code CC_EAGAIN = -2"
| "rstatus_code CC_ERETRY = -3"
| "rstatus_code CC_ENOMEM = -4"
| "rstatus_code CC_EEMPTY = -5"
| "rstatus_code CC_ERDHUP = -6"
| "rstatus_code CC_EINVAL = -7"
| "rstatus_code CC_UNFIN = 1"

lemma rstatus_code_inj: "rstatus_code a = rstatus_code b \<longleftrightarrow> a = b"
  by (cases a; cases b) simp_all


section \<open>Pointers, assertions and bounded memory\<close>

text \<open>A pointer that may be \<^verbatim>\<open>NULL\<close>, and the object it points to when it is not.\<close>

datatype 'a ptr = Null | Ptr (deref: 'a)

text \<open>Unsigned division and remainder: a zero divisor has no defined result.\<close>

definition c_umod :: "'l::len word \<Rightarrow> 'l word \<Rightarrow> 'l word option" where
  "c_umod a b = (if b = 0 then None else Some (a mod b))"

definition c_udiv :: "'l::len word \<Rightarrow> 'l word \<Rightarrow> 'l word option" where
  "c_udiv a b = (if b = 0 then None else Some (a div b))"

definition ASSERT :: "bool \<Rightarrow> unit option" where
  "ASSERT b = (if b then Some () else None)"

lemma ASSERT_simps [simp]:
  "ASSERT True = Some ()" "ASSERT False = None"
  "(ASSERT b = Some u) = b" "(ASSERT b = None) = (\<not> b)"
  by (simp_all add: ASSERT_def)

lemma ASSERT_bind [simp]: "(ASSERT b \<bind> f) = (if b then f () else None)"
  by (simp add: ASSERT_def)

text \<open>
  \<open>mem_write m i xs\<close> stores the bytes \<open>xs\<close> at offset \<open>i\<close> of the object \<open>m\<close>, and
  \<open>mem_read m i n\<close> fetches \<open>n\<close> bytes from offset \<open>i\<close>. Both are undefined as soon as a byte
  lies outside the object, or the offset itself is beyond one past its end.
\<close>

definition mem_write :: "'a list \<Rightarrow> nat \<Rightarrow> 'a list \<Rightarrow> 'a list option" where
  "mem_write m i xs =
     (if i + length xs \<le> length m then Some (take i m @ xs @ drop (i + length xs) m) else None)"

definition mem_read :: "'a list \<Rightarrow> nat \<Rightarrow> nat \<Rightarrow> 'a list option" where
  "mem_read m i n = (if i + n \<le> length m then Some (take n (drop i m)) else None)"

text \<open>\<^verbatim>\<open>memcpy\<close> between two objects and \<^verbatim>\<open>memmove\<close> inside one.\<close>

definition cc_memcpy :: "'a list \<Rightarrow> nat \<Rightarrow> 'a list \<Rightarrow> nat \<Rightarrow> nat \<Rightarrow> 'a list option" where
  "cc_memcpy dst i src j n = mem_read src j n \<bind> mem_write dst i"

definition cc_memmove :: "'a list \<Rightarrow> nat \<Rightarrow> nat \<Rightarrow> nat \<Rightarrow> 'a list option" where
  "cc_memmove m i j n = mem_read m j n \<bind> mem_write m i"

lemma mem_write_Some [mem_simps]:
  "i + length xs \<le> length m \<Longrightarrow> mem_write m i xs = Some (take i m @ xs @ drop (i + length xs) m)"
  by (simp add: mem_write_def)

lemma mem_read_Some [mem_simps]:
  "i + n \<le> length m \<Longrightarrow> mem_read m i n = Some (take n (drop i m))"
  by (simp add: mem_read_def)

lemma mem_read_None: "length m < i + n \<Longrightarrow> mem_read m i n = None"
  by (simp add: mem_read_def)

lemma mem_write_None: "length m < i + length xs \<Longrightarrow> mem_write m i xs = None"
  by (simp add: mem_write_def)

lemma mem_write_length: "mem_write m i xs = Some m' \<Longrightarrow> length m' = length m"
  by (auto simp: mem_write_def split: if_splits)

lemma cc_memcpy_Some [mem_simps]:
  "i + n \<le> length dst \<Longrightarrow> j + n \<le> length src \<Longrightarrow>
   cc_memcpy dst i src j n = Some (take i dst @ take n (drop j src) @ drop (i + n) dst)"
  by (simp add: cc_memcpy_def mem_read_def mem_write_def)

lemma cc_memcpy_None_dst: "length dst < i + n \<Longrightarrow> cc_memcpy dst i src j n = None"
  by (auto simp: cc_memcpy_def mem_read_def mem_write_def)

lemma cc_memcpy_length: "cc_memcpy dst i src j n = Some m \<Longrightarrow> length m = length dst"
  by (auto simp: cc_memcpy_def dest: mem_write_length split: bind_splits)

lemma cc_memmove_Some [mem_simps]:
  "i + n \<le> length m \<Longrightarrow> j + n \<le> length m \<Longrightarrow>
   cc_memmove m i j n = Some (take i m @ take n (drop j m) @ drop (i + n) m)"
  by (simp add: cc_memmove_def mem_read_def mem_write_def)


section \<open>Lists\<close>

text \<open>The window of \<open>n\<close> elements at \<open>i\<close>, and how a write moves through it.\<close>

definition window :: "'a list \<Rightarrow> nat \<Rightarrow> nat \<Rightarrow> 'a list" where
  "window xs i n = take n (drop i xs)"

lemma window_0 [simp]: "window xs i 0 = []"
  by (simp add: window_def)

lemma window_length: "i + n \<le> length xs \<Longrightarrow> length (window xs i n) = n"
  by (simp add: window_def)

lemma window_nth: "k < n \<Longrightarrow> i + n \<le> length xs \<Longrightarrow> window xs i n ! k = xs ! (i + k)"
  by (simp add: window_def)

lemma window_written:
  "i \<le> length xs \<Longrightarrow> window (take i xs @ ys @ zs) i (length ys) = ys"
  by (simp add: window_def)

lemma window_before_write:
  "j + n \<le> i \<Longrightarrow> i \<le> length xs \<Longrightarrow> window (take i xs @ zs) j n = window xs j n"
  by (simp add: window_def drop_take)

lemma window_after_write:
  assumes "i + length ys \<le> j" "i \<le> length xs"
  shows "window (take i xs @ ys @ drop (i + length ys) xs) j n = window xs j n"
  using assms by (simp add: window_def)

lemma window_append: "window xs i n @ window xs (i + n) k = window xs i (n + k)"
  unfolding window_def by (metis add.commute drop_drop take_add)

lemma take_window: "take k (window xs i n) = window xs i (min k n)"
  by (simp add: window_def)

lemma drop_window: "drop k (window xs i n) = window xs (i + k) (n - k)"
  by (simp add: window_def drop_take add.commute)


section \<open>Words\<close>

lemma unat_add_small:
  "unat a + unat b < 2 ^ LENGTH('l) \<Longrightarrow> unat (a + b) = unat a + unat b" for a b :: "'l::len word"
  by (simp add: unat_word_ariths)

lemma unat_mult_small:
  "unat a * unat b < 2 ^ LENGTH('l) \<Longrightarrow> unat (a * b) = unat a * unat b" for a b :: "'l::len word"
  by (simp add: unat_word_ariths)

lemma unat_u32_lt [simp]: "unat (a :: u32) < 4294967296"
  using unsigned_less [of a, where ?'a = nat] by simp

lemma unat_u64_lt [simp]: "unat (a :: u64) < 18446744073709551616"
  using unsigned_less [of a, where ?'a = nat] by simp

lemma unat_add1_u32 [word_to_nat]: "unat a < 4294967295 \<Longrightarrow> unat (a + 1) = unat a + 1" for a :: u32
  by (simp add: unat_word_ariths)

lemma unat_ucast_32_64 [simp]: "unat (ucast (a :: u32) :: u64) = unat a"
  by (simp add: unsigned_ucast_eq take_bit_nat_eq_self_iff order_less_trans [OF unat_u32_lt])

lemma unat_ucast_64_32 [simp]: "unat (ucast (a :: u64) :: u32) = unat a mod 4294967296"
  by (simp add: unsigned_ucast_eq take_bit_eq_mod)

lemma unat_of_nat_64: "n < 18446744073709551616 \<Longrightarrow> unat (of_nat n :: u64) = n"
  by (simp add: unat_of_nat)

lemma unat_of_nat_32: "n < 4294967296 \<Longrightarrow> unat (of_nat n :: u32) = n"
  by (simp add: unat_of_nat)

section \<open>Signed 64-bit integers\<close>

definition s64_ok :: "int \<Rightarrow> bool" where
  "s64_ok x \<longleftrightarrow> - 9223372036854775808 \<le> x \<and> x < 9223372036854775808"

definition s64 :: "int \<Rightarrow> int option" where
  "s64 x = (if s64_ok x then Some x else None)"

lemma s64_Some [simp]: "(s64 x = Some y) = (s64_ok x \<and> y = x)"
  by (auto simp: s64_def)

lemma s64_in: "s64_ok x \<Longrightarrow> s64 x = Some x"
  by (simp add: s64_def)

lemma sint_ok [simp]: "s64_ok (sint (w :: u64))"
  using sint_range_size [of w] by (simp add: s64_ok_def word_size)

lemma sint_of_s64: "s64_ok x \<Longrightarrow> sint (word_of_int x :: u64) = x"
  by (simp add: s64_ok_def int_word_sint)

lemma sint_small: "unat w < 9223372036854775808 \<Longrightarrow> sint w = int (unat w)" for w :: u64
proof -
  assume "unat w < 9223372036854775808"
  then have "s64_ok (int (unat w))" unfolding s64_ok_def by linarith
  from sint_of_s64 [OF this] show ?thesis by simp
qed


end
