(* ===== verification/Cc_Mm.thy ===== *)
theory Cc_Mm
  imports Cc_Prelude
begin

text \<open>
  The allocation wrappers of \<^verbatim>\<open>src/cc_mm.c\<close>. What the C library answers to \<^verbatim>\<open>malloc\<close> and
  \<^verbatim>\<open>realloc\<close> is a parameter; \<open>malloc_spec\<close> and \<open>realloc_spec\<close> state the documented
  behaviour the code relies on. A block is the list of its bytes. The wrappers that may give up
  a block also say whether the block they were handed is still allocated afterwards.
\<close>

type_synonym malloc_fn = "u64 \<Rightarrow> bytes ptr"
type_synonym realloc_fn = "bytes \<Rightarrow> u64 \<Rightarrow> bytes ptr"

definition malloc_spec :: "malloc_fn \<Rightarrow> bool" where
  "malloc_spec malloc \<longleftrightarrow> (\<forall>n b. malloc n = Ptr b \<longrightarrow> length b = unat n)"

definition realloc_spec :: "realloc_fn \<Rightarrow> bool" where
  "realloc_spec realloc \<longleftrightarrow>
     (\<forall>p n b. realloc p n = Ptr b \<longrightarrow>
        length b = unat n \<and> take (min (length p) (unat n)) b = take (min (length p) (unat n)) p)"

definition memset :: "'a list \<Rightarrow> 'a \<Rightarrow> nat \<Rightarrow> 'a list option" where
  "memset m v n = mem_write m 0 (replicate n v)"

definition cc_alloc :: "malloc_fn \<Rightarrow> u64 \<Rightarrow> bytes ptr" where
  "cc_alloc malloc sz = (if sz = 0 then Null else malloc sz)"

definition cc_zalloc :: "malloc_fn \<Rightarrow> u64 \<Rightarrow> bytes ptr option" where
  "cc_zalloc malloc sz =
     (case cc_alloc malloc sz of
        Null \<Rightarrow> Some Null
      | Ptr p \<Rightarrow> map_option Ptr (memset p 0 (unat sz)))"

definition cc_calloc :: "malloc_fn \<Rightarrow> u64 \<Rightarrow> u64 \<Rightarrow> bytes ptr option" where
  "cc_calloc malloc nmemb sz = cc_zalloc malloc (nmemb * sz)"

text \<open>
  The result of the reallocating wrappers: the pointer they return, and whether the block
  passed in is still allocated.
\<close>

definition cc_realloc :: "realloc_fn \<Rightarrow> bytes \<Rightarrow> u64 \<Rightarrow> bytes ptr \<times> bool" where
  "cc_realloc realloc p sz =
     (if sz = 0 then (Null, False)
      else (case realloc p sz of
              Null \<Rightarrow> (Null, True)
            | Ptr b \<Rightarrow> (Ptr b, False)))"

definition cc_realloc_move ::
  "realloc_fn \<Rightarrow> malloc_fn \<Rightarrow> bytes \<Rightarrow> u64 \<Rightarrow> (bytes ptr \<times> bool) option" where
  "cc_realloc_move realloc malloc p sz =
     (if sz = 0 then Some (Null, False)
      else (case realloc p sz of
              Null \<Rightarrow> Some (Null, True)
            | Ptr pr \<Rightarrow>
                (case malloc sz of
                   Null \<Rightarrow> Some (Null, False)
                 | Ptr q \<Rightarrow>
                     map_option (\<lambda>b. (Ptr b, False)) (cc_memcpy q 0 pr 0 (unat sz)))))"


section \<open>Facts\<close>

lemma cc_alloc_length: "malloc_spec malloc \<Longrightarrow> cc_alloc malloc n = Ptr b \<Longrightarrow> length b = unat n"
  by (auto simp: cc_alloc_def malloc_spec_def split: if_splits)

lemma cc_alloc_zero: "cc_alloc malloc 0 = Null"
  by (simp add: cc_alloc_def)

lemma cc_zalloc_cases:
  assumes "malloc_spec malloc"
  shows "cc_zalloc malloc n = Some Null \<and> cc_alloc malloc n = Null
       \<or> cc_zalloc malloc n = Some (Ptr (replicate (unat n) 0))"
proof (cases "cc_alloc malloc n")
  case Null
  then show ?thesis by (simp add: cc_zalloc_def)
next
  case (Ptr b)
  with assms have "length b = unat n" by (rule cc_alloc_length)
  with Ptr show ?thesis by (simp add: cc_zalloc_def memset_def mem_write_def)
qed

lemma cc_realloc_Ptr:
  "cc_realloc realloc p n = (Ptr b, live) \<longleftrightarrow> n \<noteq> 0 \<and> realloc p n = Ptr b \<and> \<not> live"
  by (auto simp: cc_realloc_def split: ptr.splits)

lemma realloc_specD:
  "realloc_spec realloc \<Longrightarrow> realloc p n = Ptr b \<Longrightarrow>
   length b = unat n \<and> take (min (length p) (unat n)) b = take (min (length p) (unat n)) p"
  unfolding realloc_spec_def by blast

lemma cc_realloc_failed_live:
  "n \<noteq> 0 \<Longrightarrow> cc_realloc realloc p n = (Null, live) \<Longrightarrow> live"
  by (auto simp: cc_realloc_def split: if_splits ptr.splits)

end
