(* ===== verification/Cc_Ring_Array.thy ===== *)
theory Cc_Ring_Array
  imports Cc_Mm
begin

text \<open>
  The ring array of \<^verbatim>\<open>src/cc_ring_array.c\<close>: its record, every operation, the well-formedness
  invariant, the refinement of \<^verbatim>\<open>push\<close>, \<^verbatim>\<open>pop\<close> and \<^verbatim>\<open>flush\<close> to a bounded first-in first-out
  queue of elements, and the interface \<open>bounded_fifo\<close> that clients of such a queue use.
  The producer/consumer protocol of the two threads is in theory \<open>Cc_Ring_Threads\<close>.
\<close>

section \<open>Data and operations\<close>

record ring_array =
  ra_elem_size :: u64
  ra_cap :: u32
  ra_rpos :: u32
  ra_wpos :: u32
  ra_data :: bytes

definition RING_ARRAY_HDR_SIZE :: u64 where
  "RING_ARRAY_HDR_SIZE = 24"

definition ring_array_nelem :: "u32 \<Rightarrow> u32 \<Rightarrow> u32 \<Rightarrow> u32" where
  "ring_array_nelem rpos wpos cap =
     (if rpos \<le> wpos then wpos - rpos else wpos + (cap - rpos + 1))"

definition ring_array_full :: "ring_array \<Rightarrow> bool" where
  "ring_array_full arr \<longleftrightarrow> ring_array_nelem (ra_rpos arr) (ra_wpos arr) (ra_cap arr) = ra_cap arr"

definition ring_array_empty :: "ring_array \<Rightarrow> bool" where
  "ring_array_empty arr \<longleftrightarrow> ring_array_nelem (ra_rpos arr) (ra_wpos arr) (ra_cap arr) = 0"

text \<open>The byte offset of slot \<open>k\<close>, a \<^verbatim>\<open>size_t\<close> product.\<close>

definition ra_offset :: "ring_array \<Rightarrow> u32 \<Rightarrow> nat" where
  "ra_offset arr k = unat (ra_elem_size arr * ucast k)"

definition ring_array_push :: "bytes \<Rightarrow> ring_array \<Rightarrow> (rstatus \<times> ring_array) option" where
  "ring_array_push elem arr =
     (if ring_array_full arr then Some (CC_ERROR, arr)
      else do {
        d \<leftarrow> cc_memcpy (ra_data arr) (ra_offset arr (ra_wpos arr)) elem 0 (unat (ra_elem_size arr));
        new_wpos \<leftarrow> c_umod (ra_wpos arr + 1) (ra_cap arr + 1);
        Some (CC_OK, arr\<lparr>ra_data := d, ra_wpos := new_wpos\<rparr>)
      })"

text \<open>\<^verbatim>\<open>pop\<close> copies into the caller's object unless that pointer is \<^verbatim>\<open>NULL\<close>.\<close>

definition ring_array_pop ::
  "bytes ptr \<Rightarrow> ring_array \<Rightarrow> (rstatus \<times> bytes ptr \<times> ring_array) option" where
  "ring_array_pop elem arr =
     (if ring_array_empty arr then Some (CC_ERROR, elem, arr)
      else do {
        out \<leftarrow> (case elem of
                  Null \<Rightarrow> Some Null
                | Ptr e \<Rightarrow> map_option Ptr
                    (cc_memcpy e 0 (ra_data arr) (ra_offset arr (ra_rpos arr))
                       (unat (ra_elem_size arr))));
        new_rpos \<leftarrow> c_umod (ra_rpos arr + 1) (ra_cap arr + 1);
        Some (CC_OK, out, arr\<lparr>ra_rpos := new_rpos\<rparr>)
      })"

definition ring_array_flush :: "ring_array \<Rightarrow> ring_array" where
  "ring_array_flush arr = arr\<lparr>ra_rpos := ra_wpos arr\<rparr>"

definition ring_array_create :: "malloc_fn \<Rightarrow> u64 \<Rightarrow> u32 \<Rightarrow> ring_array ptr" where
  "ring_array_create malloc elem_size cap =
     (case cc_alloc malloc (RING_ARRAY_HDR_SIZE + elem_size * ucast (cap + 1)) of
        Null \<Rightarrow> Null
      | Ptr blk \<Rightarrow>
          Ptr \<lparr>ra_elem_size = elem_size, ra_cap = cap, ra_rpos = 0, ra_wpos = 0,
               ra_data = drop (unat RING_ARRAY_HDR_SIZE) blk\<rparr>)"

definition ring_array_destroy :: "ring_array ptr ptr \<Rightarrow> ring_array ptr ptr" where
  "ring_array_destroy arr =
     (case arr of Null \<Rightarrow> Null | Ptr Null \<Rightarrow> Ptr Null | Ptr (Ptr a) \<Rightarrow> Ptr Null)"


section \<open>Positions on a ring of \<open>N\<close> slots\<close>

definition ring_dist :: "nat \<Rightarrow> nat \<Rightarrow> nat \<Rightarrow> nat" where
  "ring_dist N r w = (if r \<le> w then w - r else w + N - r)"

definition ring_next :: "nat \<Rightarrow> nat \<Rightarrow> nat" where
  "ring_next N k = (if k + 1 = N then 0 else k + 1)"

lemma ring_next_mod: "k < N \<Longrightarrow> (k + 1) mod N = ring_next N k"
  by (auto simp: ring_next_def)

lemma ring_next_less: "k < N \<Longrightarrow> ring_next N k < N"
  by (auto simp: ring_next_def)

lemma ring_dist_less: "r < N \<Longrightarrow> w < N \<Longrightarrow> ring_dist N r w < N"
  by (auto simp: ring_dist_def)

lemma ring_dist_self [simp]: "ring_dist N r r = 0"
  by (simp add: ring_dist_def)

lemma ring_dist_0: "r < N \<Longrightarrow> w < N \<Longrightarrow> ring_dist N r w = 0 \<longleftrightarrow> r = w"
  by (auto simp: ring_dist_def)

lemma ring_dist_reach: "r < N \<Longrightarrow> w < N \<Longrightarrow> (r + ring_dist N r w) mod N = w"
  by (auto simp: ring_dist_def)

lemma ring_dist_next_w:
  "r < N \<Longrightarrow> w < N \<Longrightarrow> ring_dist N r w + 1 < N \<Longrightarrow>
   ring_dist N r (ring_next N w) = ring_dist N r w + 1"
  by (auto simp: ring_dist_def ring_next_def split: if_splits)

lemma ring_dist_next_r:
  "r < N \<Longrightarrow> w < N \<Longrightarrow> r \<noteq> w \<Longrightarrow> ring_dist N (ring_next N r) w = ring_dist N r w - 1"
  by (auto simp: ring_dist_def ring_next_def split: if_splits)

lemma ring_add_mod: "r < N \<Longrightarrow> i < N \<Longrightarrow> (r + i) mod N = (if r + i < N then r + i else r + i - N)"
  for r i N :: nat
  by (simp add: mod_if)

lemma ring_slots_inj:
  "r < N \<Longrightarrow> i < N \<Longrightarrow> j < N \<Longrightarrow> (r + i) mod N = (r + j) mod N \<longleftrightarrow> i = j" for r i j N :: nat
  by (auto simp: ring_add_mod)

lemma ring_next_shift:
  "r < N \<Longrightarrow> i < N \<Longrightarrow> (ring_next N r + i) mod N = (r + Suc i) mod N"
  by (metis Suc_eq_plus1 add.commute add_Suc_shift mod_add_left_eq ring_next_mod)


section \<open>Invariant and abstraction\<close>

definition ra_slots :: "ring_array \<Rightarrow> nat" where
  "ra_slots arr = unat (ra_cap arr) + 1"

definition ra_wf :: "ring_array \<Rightarrow> bool" where
  "ra_wf arr \<longleftrightarrow>
     unat (ra_cap arr) < 4294967295 \<and>
     unat (ra_rpos arr) < ra_slots arr \<and> unat (ra_wpos arr) < ra_slots arr \<and>
     length (ra_data arr) = unat (ra_elem_size arr) * ra_slots arr \<and>
     length (ra_data arr) < 18446744073709551616"

definition ra_slot :: "ring_array \<Rightarrow> nat \<Rightarrow> bytes" where
  "ra_slot arr k = window (ra_data arr) (unat (ra_elem_size arr) * k) (unat (ra_elem_size arr))"

definition ra_count :: "ring_array \<Rightarrow> nat" where
  "ra_count arr = ring_dist (ra_slots arr) (unat (ra_rpos arr)) (unat (ra_wpos arr))"

text \<open>The elements held, oldest first.\<close>

definition ra_items :: "ring_array \<Rightarrow> bytes list" where
  "ra_items arr =
     map (\<lambda>i. ra_slot arr ((unat (ra_rpos arr) + i) mod ra_slots arr)) [0 ..< ra_count arr]"

lemma ra_items_length [simp]: "length (ra_items arr) = ra_count arr"
  by (simp add: ra_items_def)

lemma ra_wfD:
  assumes "ra_wf arr"
  shows "unat (ra_cap arr) < 4294967295" "unat (ra_rpos arr) < ra_slots arr"
    "unat (ra_wpos arr) < ra_slots arr" "ra_slots arr = unat (ra_cap arr) + 1"
    "length (ra_data arr) = unat (ra_elem_size arr) * ra_slots arr"
    "length (ra_data arr) < 18446744073709551616"
  using assms by (simp_all add: ra_wf_def ra_slots_def)

lemma ra_count_le: "ra_wf arr \<Longrightarrow> ra_count arr \<le> unat (ra_cap arr)"
  using ring_dist_less [of "unat (ra_rpos arr)" "ra_slots arr" "unat (ra_wpos arr)"]
  by (simp add: ra_wf_def ra_count_def ra_slots_def)

lemma ring_array_nelem_nat:
  assumes "unat c < 4294967295" "unat r \<le> unat c" "unat w \<le> unat c"
  shows "unat (ring_array_nelem r w c) = ring_dist (unat c + 1) (unat r) (unat w)"
proof (cases "r \<le> w")
  case True
  then show ?thesis
    by (simp add: ring_array_nelem_def ring_dist_def unat_sub word_le_nat_alt)
next
  case False
  then have lt: "unat w < unat r" by (simp add: word_le_nat_alt)
  have cr: "unat (c - r) = unat c - unat r"
    using assms by (simp add: unat_sub word_le_nat_alt)
  have cr1: "unat (c - r + 1) = unat c - unat r + 1"
    using assms cr by (simp add: unat_add1_u32)
  have "unat (w + (c - r + 1)) = unat w + (unat c - unat r + 1)"
    using assms lt cr1 by (subst unat_add_small) simp_all
  then show ?thesis
    using False lt assms by (simp add: ring_array_nelem_def ring_dist_def)
qed

lemma ra_count_nelem:
  "ra_wf arr \<Longrightarrow>
   unat (ring_array_nelem (ra_rpos arr) (ra_wpos arr) (ra_cap arr)) = ra_count arr"
  by (simp add: ra_wf_def ra_count_def ra_slots_def ring_array_nelem_nat)

lemma ring_array_full_iff: "ra_wf arr \<Longrightarrow> ring_array_full arr \<longleftrightarrow> ra_count arr = unat (ra_cap arr)"
  unfolding ring_array_full_def by (metis ra_count_nelem word_unat_eq_iff)

lemma ring_array_empty_iff: "ra_wf arr \<Longrightarrow> ring_array_empty arr \<longleftrightarrow> ra_count arr = 0"
  unfolding ring_array_empty_def by (metis ra_count_nelem unat_eq_zero)

lemma ra_offset_nat:
  assumes "ra_wf arr" "unat k < ra_slots arr"
  shows "ra_offset arr k = unat (ra_elem_size arr) * unat k"
    "unat (ra_elem_size arr) * unat k + unat (ra_elem_size arr) \<le> length (ra_data arr)"
proof -
  have "unat (ra_elem_size arr) * (unat k + 1) \<le> unat (ra_elem_size arr) * ra_slots arr"
    using assms(2) by (intro mult_le_mono2) simp
  then show b: "unat (ra_elem_size arr) * unat k + unat (ra_elem_size arr) \<le> length (ra_data arr)"
    using ra_wfD(5) [OF assms(1)] by (simp add: algebra_simps)
  then have "unat (ra_elem_size arr) * unat k < 18446744073709551616"
    using ra_wfD(6) [OF assms(1)] by linarith
  then show "ra_offset arr k = unat (ra_elem_size arr) * unat k"
    by (simp add: ra_offset_def unat_mult_small)
qed

lemma c_umod_next:
  fixes c k :: u32
  assumes "unat c < 4294967295" "unat k \<le> unat c"
  shows "\<exists>n. c_umod (k + 1) (c + 1) = Some n \<and> unat n = ring_next (unat c + 1) (unat k)"
proof -
  have c1: "unat (c + 1) = unat c + 1" and k1: "unat (k + 1) = unat k + 1"
    using assms by (simp_all add: unat_add1_u32)
  then have "c + 1 \<noteq> 0" by (metis add_is_0 one_neq_zero unat_eq_zero)
  moreover have "unat ((k + 1) mod (c + 1)) = ring_next (unat c + 1) (unat k)"
    using assms by (simp add: unat_mod c1 k1 ring_next_def)
  ultimately show ?thesis by (simp add: c_umod_def)
qed


section \<open>Refinement to a bounded queue\<close>

lemma ra_slot_same:
  assumes "ra_wf arr" "k < ra_slots arr" "j < ra_slots arr" "j \<noteq> k"
    and "length e = unat (ra_elem_size arr)"
  shows "window (take (unat (ra_elem_size arr) * k) (ra_data arr) @ e @
           drop (unat (ra_elem_size arr) * k + unat (ra_elem_size arr)) (ra_data arr))
          (unat (ra_elem_size arr) * j) (unat (ra_elem_size arr)) = ra_slot arr j"
proof -
  let ?s = "unat (ra_elem_size arr)"
  have k: "?s * (k + 1) \<le> length (ra_data arr)"
    using assms(2) ra_wfD(5) [OF assms(1)] by (metis Suc_eq_plus1 Suc_leI mult_le_mono2)
  consider "j < k" | "k < j" using assms(4) by linarith
  then show ?thesis
  proof cases
    case 1
    then have "?s * (j + 1) \<le> ?s * k" by (intro mult_le_mono2) simp
    with k show ?thesis by (simp add: ra_slot_def window_before_write algebra_simps)
  next
    case 2
    then have "?s * (k + 1) \<le> ?s * j" by (intro mult_le_mono2) simp
    with k show ?thesis
      using window_after_write [of "?s * k" e "?s * j" "ra_data arr" ?s] assms(5)
      by (simp add: ra_slot_def algebra_simps)
  qed
qed

lemma ring_array_push_full:
  "ra_wf arr \<Longrightarrow> ra_count arr = unat (ra_cap arr) \<Longrightarrow>
   ring_array_push e arr = Some (CC_ERROR, arr)"
  by (simp add: ring_array_push_def ring_array_full_iff)

lemma ring_array_push_step:
  assumes wf: "ra_wf arr" and e: "length e = unat (ra_elem_size arr)"
    and room: "ra_count arr < unat (ra_cap arr)"
  obtains d n where
    "ring_array_push e arr = Some (CC_OK, arr\<lparr>ra_data := d, ra_wpos := n\<rparr>)"
    "unat n = ring_next (ra_slots arr) (unat (ra_wpos arr))" "length d = length (ra_data arr)"
    "\<And>j. j < ra_slots arr \<Longrightarrow>
       window d (unat (ra_elem_size arr) * j) (unat (ra_elem_size arr)) =
       (if j = unat (ra_wpos arr) then e else ra_slot arr j)"
proof -
  let ?s = "unat (ra_elem_size arr)" and ?w = "unat (ra_wpos arr)"
  let ?d = "take (?s * ?w) (ra_data arr) @ e @ drop (?s * ?w + ?s) (ra_data arr)"
  note off = ra_offset_nat [OF wf ra_wfD(3) [OF wf]]
  have cpy: "cc_memcpy (ra_data arr) (ra_offset arr (ra_wpos arr)) e 0 ?s = Some ?d"
    using off e by (simp add: cc_memcpy_Some)
  obtain n where n: "c_umod (ra_wpos arr + 1) (ra_cap arr + 1) = Some n"
    "unat n = ring_next (ra_slots arr) ?w"
    using c_umod_next [of "ra_cap arr" "ra_wpos arr"] ra_wfD [OF wf] by auto
  have w: "window ?d (?s * j) ?s = (if j = ?w then e else ra_slot arr j)" if "j < ra_slots arr" for j
    using ra_slot_same [OF wf ra_wfD(3) [OF wf] that _ e] e off(2)
      window_written [of "?s * ?w" "ra_data arr" e] by auto
  have "length ?d = length (ra_data arr)" using off(2) e by simp
  moreover have "ring_array_push e arr = Some (CC_OK, arr\<lparr>ra_data := ?d, ra_wpos := n\<rparr>)"
    using room by (simp add: ring_array_push_def ring_array_full_iff [OF wf] cpy n(1))
  ultimately show ?thesis using that n(2) w by blast
qed

lemma ring_array_push_room:
  assumes wf: "ra_wf arr" and e: "length e = unat (ra_elem_size arr)"
    and room: "ra_count arr < unat (ra_cap arr)"
  shows "\<exists>arr'. ring_array_push e arr = Some (CC_OK, arr') \<and> ra_wf arr' \<and>
           ra_items arr' = ra_items arr @ [e] \<and> ra_cap arr' = ra_cap arr \<and>
           ra_elem_size arr' = ra_elem_size arr"
proof -
  obtain d n where d: "ring_array_push e arr = Some (CC_OK, arr\<lparr>ra_data := d, ra_wpos := n\<rparr>)"
    and n: "unat n = ring_next (ra_slots arr) (unat (ra_wpos arr))"
    and len: "length d = length (ra_data arr)"
    and win: "\<And>j. j < ra_slots arr \<Longrightarrow>
       window d (unat (ra_elem_size arr) * j) (unat (ra_elem_size arr)) =
       (if j = unat (ra_wpos arr) then e else ra_slot arr j)"
    using ring_array_push_step [OF assms] by metis
  let ?a = "arr\<lparr>ra_data := d, ra_wpos := n\<rparr>" and ?N = "ra_slots arr" and ?r = "unat (ra_rpos arr)"
  note wfs = ra_wfD [OF wf]
  have [simp]: "ra_slots ?a = ?N" by (simp add: ra_slots_def)
  have wf': "ra_wf ?a" using wfs n len ring_next_less [OF wfs(3)] by (simp add: ra_wf_def)
  have cnt: "ra_count ?a = ra_count arr + 1"
    using ring_dist_next_w [OF wfs(2) wfs(3)] room wfs(4) n by (simp add: ra_count_def)
  have slot: "ra_slot ?a ((?r + i) mod ?N) =
      (if i = ra_count arr then e else ra_slot arr ((?r + i) mod ?N))" if "i \<le> ra_count arr" for i
  proof -
    have "i < ?N" "ra_count arr < ?N" using that room wfs(4) by simp_all
    moreover have "(?r + ra_count arr) mod ?N = unat (ra_wpos arr)"
      unfolding ra_count_def by (rule ring_dist_reach [OF wfs(2) wfs(3)])
    moreover have "(?r + i) mod ?N < ?N" using wfs(4) by simp
    ultimately show ?thesis
      using win [of "(?r + i) mod ?N"] ring_slots_inj [OF wfs(2), of i "ra_count arr"]
      by (auto simp: ra_slot_def)
  qed
  have "ra_items ?a = ra_items arr @ [e]"
    using slot by (simp add: ra_items_def cnt)
  with d wf' show ?thesis by simp
qed

lemma ring_array_pop_empty:
  "ra_wf arr \<Longrightarrow> ra_count arr = 0 \<Longrightarrow> ring_array_pop p arr = Some (CC_ERROR, p, arr)"
  by (simp add: ring_array_pop_def ring_array_empty_iff)

lemma ra_items_Cons:
  assumes wf: "ra_wf arr" and ne: "0 < ra_count arr"
    and r': "unat r' = ring_next (ra_slots arr) (unat (ra_rpos arr))"
  shows "ra_wf (arr\<lparr>ra_rpos := r'\<rparr>)"
    and "ra_items arr = ra_slot arr (unat (ra_rpos arr)) # ra_items (arr\<lparr>ra_rpos := r'\<rparr>)"
proof -
  let ?a = "arr\<lparr>ra_rpos := r'\<rparr>" and ?N = "ra_slots arr" and ?r = "unat (ra_rpos arr)"
  note wfs = ra_wfD [OF wf]
  have [simp]: "ra_slots ?a = ?N" by (simp add: ra_slots_def)
  show "ra_wf ?a" using wfs r' ring_next_less [OF wfs(2)] by (simp add: ra_wf_def)
  have "?r \<noteq> unat (ra_wpos arr)" using ne by (auto simp: ra_count_def)
  then have cnt: "ra_count arr = Suc (ra_count ?a)"
    using ring_dist_next_r [OF wfs(2) wfs(3)] ne r' by (simp add: ra_count_def)
  have "(ring_next ?N ?r + i) mod ?N = (?r + Suc i) mod ?N" if "i < ra_count ?a" for i
    using that ra_count_le [OF wf] cnt wfs(2) wfs(4) by (intro ring_next_shift) simp_all
  then have "map (\<lambda>i. ra_slot arr ((?r + Suc i) mod ?N)) [0..<ra_count ?a] = ra_items ?a"
    by (simp add: ra_items_def ra_slot_def r')
  moreover have "ra_items arr = ra_slot arr (?r mod ?N) #
      map (\<lambda>i. ra_slot arr ((?r + Suc i) mod ?N)) [0..<ra_count ?a]"
    by (simp only: ra_items_def cnt upt_conv_Cons [OF zero_less_Suc] list.map map_Suc_upt [symmetric]
        map_map comp_def add_0_right)
  ultimately show "ra_items arr = ra_slot arr ?r # ra_items ?a"
    using wfs(2) by simp
qed

lemma ring_array_pop_step:
  assumes wf: "ra_wf arr" and ne: "0 < ra_count arr"
    and p: "\<And>b. p = Ptr b \<Longrightarrow> length b = unat (ra_elem_size arr)"
  obtains r' where "unat r' = ring_next (ra_slots arr) (unat (ra_rpos arr))"
    "ring_array_pop p arr =
       Some (CC_OK, map_ptr (\<lambda>_. ra_slot arr (unat (ra_rpos arr))) p, arr\<lparr>ra_rpos := r'\<rparr>)"
proof -
  note off = ra_offset_nat [OF wf ra_wfD(2) [OF wf]]
  obtain n where n: "c_umod (ra_rpos arr + 1) (ra_cap arr + 1) = Some n"
    "unat n = ring_next (ra_slots arr) (unat (ra_rpos arr))"
    using c_umod_next [of "ra_cap arr" "ra_rpos arr"] ra_wfD [OF wf] by auto
  have "(case p of Null \<Rightarrow> Some Null
          | Ptr e \<Rightarrow> map_option Ptr (cc_memcpy e 0 (ra_data arr) (ra_offset arr (ra_rpos arr))
                       (unat (ra_elem_size arr)))) =
        Some (map_ptr (\<lambda>_. ra_slot arr (unat (ra_rpos arr))) p)"
    using p off by (cases p) (simp_all add: cc_memcpy_Some ra_slot_def window_def)
  then have "ring_array_pop p arr =
       Some (CC_OK, map_ptr (\<lambda>_. ra_slot arr (unat (ra_rpos arr))) p, arr\<lparr>ra_rpos := n\<rparr>)"
    using ne by (simp add: ring_array_pop_def ring_array_empty_iff [OF wf] n(1))
  with that n(2) show ?thesis by blast
qed

lemma ring_array_pop_some:
  assumes "ra_wf arr" "0 < ra_count arr" "length b = unat (ra_elem_size arr)"
  shows "\<exists>e arr'. ring_array_pop (Ptr b) arr = Some (CC_OK, Ptr e, arr') \<and> ra_wf arr' \<and>
           ra_items arr = e # ra_items arr' \<and> ra_cap arr' = ra_cap arr \<and>
           ra_elem_size arr' = ra_elem_size arr"
  using ring_array_pop_step [OF assms(1,2), of "Ptr b"] ra_items_Cons [OF assms(1,2)] assms(3)
  by fastforce

lemma ring_array_flush_wf:
  "ra_wf arr \<Longrightarrow> ra_wf (ring_array_flush arr) \<and> ra_items (ring_array_flush arr) = []"
  by (simp add: ra_wf_def ring_array_flush_def ra_slots_def ra_items_def ra_count_def)


section \<open>Creation\<close>

lemma ring_array_create_Ptr:
  assumes m: "malloc_spec malloc" and c: "unat cap < 4294967295"
    and fits: "24 + unat es * (unat cap + 1) < 18446744073709551616"
    and r: "ring_array_create malloc es cap = Ptr arr"
  shows "ra_wf arr \<and> ra_items arr = [] \<and> ra_cap arr = cap \<and> ra_elem_size arr = es"
proof -
  let ?sz = "RING_ARRAY_HDR_SIZE + es * ucast (cap + 1)"
  have c1: "unat (ucast (cap + 1) :: u64) = unat cap + 1"
    using unat_add1_u32 [OF c] by simp
  have mult: "unat (es * ucast (cap + 1)) = unat es * (unat cap + 1)"
    using fits c1 by (subst unat_mult_small) simp_all
  have sz: "unat ?sz = 24 + unat es * (unat cap + 1)"
    using fits mult by (subst unat_add_small) (simp_all add: RING_ARRAY_HDR_SIZE_def)
  obtain blk where b: "cc_alloc malloc ?sz = Ptr blk"
    and a: "arr = \<lparr>ra_elem_size = es, ra_cap = cap, ra_rpos = 0, ra_wpos = 0,
               ra_data = drop (unat RING_ARRAY_HDR_SIZE) blk\<rparr>"
    using r by (auto simp: ring_array_create_def split: ptr.splits)
  have "length blk = 24 + unat es * (unat cap + 1)"
    using cc_alloc_length [OF m b] sz by simp
  with a c fits show ?thesis
    by (simp add: ra_wf_def ra_slots_def ra_items_def ra_count_def RING_ARRAY_HDR_SIZE_def)
qed


section \<open>The interface of a bounded queue\<close>

text \<open>
  What the user of such a queue may rely on: \<open>push\<close> appends while there is room and otherwise
  reports \<open>CC_ERROR\<close> without a change; \<open>pop\<close> removes the oldest element or reports
  \<open>CC_ERROR\<close>. \<open>ok q x\<close> says that \<open>x\<close> is an element of the size the queue holds.
\<close>

datatype 'e fifo_op = Push 'e | Pop

fun fifo_run ::
  "('e \<Rightarrow> 'q \<Rightarrow> (rstatus \<times> 'q) option) \<Rightarrow> ('q \<Rightarrow> (rstatus \<times> 'e ptr \<times> 'q) option) \<Rightarrow>
   'e fifo_op list \<Rightarrow> 'q \<Rightarrow> ('e list \<times> 'e list \<times> 'q) option" where
  "fifo_run push pop [] q = Some ([], [], q)"
| "fifo_run push pop (Push x # ops) q = do {
     (st, q') \<leftarrow> push x q;
     (ins, outs, q'') \<leftarrow> fifo_run push pop ops q';
     Some (if st = CC_OK then x # ins else ins, outs, q'')
   }"
| "fifo_run push pop (Pop # ops) q = do {
     (st, e, q') \<leftarrow> pop q;
     (ins, outs, q'') \<leftarrow> fifo_run push pop ops q';
     Some (ins, if st = CC_OK then deref e # outs else outs, q'')
   }"

locale bounded_fifo =
  fixes push :: "'e \<Rightarrow> 'q \<Rightarrow> (rstatus \<times> 'q) option"
    and pop :: "'q \<Rightarrow> (rstatus \<times> 'e ptr \<times> 'q) option"
    and items :: "'q \<Rightarrow> 'e list"
    and bound :: "'q \<Rightarrow> nat"
    and ok :: "'q \<Rightarrow> 'e \<Rightarrow> bool"
    and inv :: "'q \<Rightarrow> bool"
  assumes items_bound: "inv q \<Longrightarrow> length (items q) \<le> bound q"
    and push_room: "inv q \<Longrightarrow> ok q x \<Longrightarrow> length (items q) < bound q \<Longrightarrow>
      \<exists>q'. push x q = Some (CC_OK, q') \<and> inv q' \<and> items q' = items q @ [x] \<and>
           bound q' = bound q \<and> ok q' = ok q"
    and push_full: "inv q \<Longrightarrow> length (items q) = bound q \<Longrightarrow> push x q = Some (CC_ERROR, q)"
    and pop_some: "inv q \<Longrightarrow> items q \<noteq> [] \<Longrightarrow>
      \<exists>x q'. pop q = Some (CC_OK, Ptr x, q') \<and> inv q' \<and> items q = x # items q' \<and>
             bound q' = bound q \<and> ok q' = ok q"
    and pop_empty: "inv q \<Longrightarrow> items q = [] \<Longrightarrow> \<exists>e. pop q = Some (CC_ERROR, e, q)"
begin

lemma push_cases:
  assumes "inv q" "ok q x"
  obtains q' where "push x q = Some (CC_OK, q')" "inv q'" "items q' = items q @ [x]"
      "bound q' = bound q" "ok q' = ok q" "length (items q) < bound q"
  | "push x q = Some (CC_ERROR, q)" "length (items q) = bound q"
  using assms items_bound [of q] push_room [of q x] push_full [of q x]
  by (metis le_neq_implies_less)

lemma pop_cases:
  assumes "inv q"
  obtains x q' where "pop q = Some (CC_OK, Ptr x, q')" "inv q'" "items q = x # items q'"
      "bound q' = bound q" "ok q' = ok q"
  | e where "pop q = Some (CC_ERROR, e, q)" "items q = []"
  using assms pop_some [of q] pop_empty [of q] by metis

text \<open>First in, first out: what was held and accepted is what was delivered and is still held.\<close>

lemma fifo_order:
  assumes "inv q" "\<And>x. Push x \<in> set ops \<Longrightarrow> ok q x"
  shows "\<exists>ins outs q'. fifo_run push pop ops q = Some (ins, outs, q') \<and> inv q' \<and>
           items q @ ins = outs @ items q' \<and> bound q' = bound q"
  using assms
proof (induction ops arbitrary: q)
  case Nil
  then show ?case by simp
next
  case (Cons op ops)
  show ?case
  proof (cases op)
    case (Push x)
    then have "ok q x" using Cons.prems(2) by simp
    with Cons.prems(1) show ?thesis
    proof (cases rule: push_cases)
      case (1 q')
      then show ?thesis using Cons.IH [of q'] Cons.prems(2) Push by fastforce
    next
      case 2
      then show ?thesis using Cons.IH [of q] Cons.prems Push by fastforce
    qed
  next
    case Pop
    from Cons.prems(1) show ?thesis
    proof (cases rule: pop_cases)
      case (1 x q')
      then show ?thesis using Cons.IH [of q'] Cons.prems(2) Pop by fastforce
    next
      case 2
      then show ?thesis using Cons.IH [of q] Cons.prems Pop by fastforce
    qed
  qed
qed

end

text \<open>The caller's receiving object is a buffer of one element.\<close>

definition ra_pop :: "ring_array \<Rightarrow> (rstatus \<times> bytes ptr \<times> ring_array) option" where
  "ra_pop arr = ring_array_pop (Ptr (replicate (unat (ra_elem_size arr)) 0)) arr"

interpretation ring: bounded_fifo ring_array_push ra_pop ra_items "\<lambda>arr. unat (ra_cap arr)"
  "\<lambda>arr e. length e = unat (ra_elem_size arr)" ra_wf
proof unfold_locales
  fix q e
  assume q: "ra_wf q"
  show "length (ra_items q) \<le> unat (ra_cap q)" using ra_count_le [OF q] by simp
  show "ring_array_push e q = Some (CC_ERROR, q)" if "length (ra_items q) = unat (ra_cap q)"
    using that by (simp add: ring_array_push_full [OF q])
  show "\<exists>q'. ring_array_push e q = Some (CC_OK, q') \<and> ra_wf q' \<and> ra_items q' = ra_items q @ [e] \<and>
      unat (ra_cap q') = unat (ra_cap q) \<and>
      (\<lambda>e. length e = unat (ra_elem_size q')) = (\<lambda>e. length e = unat (ra_elem_size q))"
    if "length e = unat (ra_elem_size q)" "length (ra_items q) < unat (ra_cap q)"
    using ring_array_push_room [OF q that(1)] that(2) by auto
  show "\<exists>x q'. ra_pop q = Some (CC_OK, Ptr x, q') \<and> ra_wf q' \<and> ra_items q = x # ra_items q' \<and>
      unat (ra_cap q') = unat (ra_cap q) \<and>
      (\<lambda>e. length e = unat (ra_elem_size q')) = (\<lambda>e. length e = unat (ra_elem_size q))"
    if "ra_items q \<noteq> []"
  proof -
    have "0 < ra_count q" using that ra_items_length [of q] by (metis length_greater_0_conv)
    then show ?thesis
      using ring_array_pop_some [OF q, of "replicate (unat (ra_elem_size q)) 0"]
      by (auto simp: ra_pop_def)
  qed
  show "\<exists>e. ra_pop q = Some (CC_ERROR, e, q)" if "ra_items q = []"
  proof -
    have "ra_count q = 0" using that ra_items_length [of q] by simp
    then show ?thesis using ring_array_pop_empty [OF q] by (simp add: ra_pop_def)
  qed
qed


section \<open>Properties\<close>

text \<open>
  C5. First in, first out: any sequence of pushes of whole elements and of pops, run on a
  well-formed ring array, is free of memory errors and of divisions by zero, keeps the array
  well formed, and the elements held before together with the accepted ones are exactly the
  delivered ones followed by those still held. So nothing is lost, duplicated or reordered.
\<close>

theorem ring_array_fifo:
  assumes "ra_wf arr" and "\<And>e. Push e \<in> set ops \<Longrightarrow> length e = unat (ra_elem_size arr)"
  shows "\<exists>ins outs arr'. fifo_run ring_array_push ra_pop ops arr = Some (ins, outs, arr') \<and>
           ra_wf arr' \<and> ra_items arr @ ins = outs @ ra_items arr'"
  using ring.fifo_order [OF assms] by blast

definition ra_sample :: ring_array where
  "ra_sample = \<lparr>ra_elem_size = 2, ra_cap = 2, ra_rpos = 1, ra_wpos = 1,
                ra_data = [0, 0, 0, 0, 0, 0]\<rparr>"

lemma ra_sample_wf: "ra_wf ra_sample" "ra_items ra_sample = []"
  by (simp_all add: ra_sample_def ra_wf_def ra_slots_def ra_items_def ra_count_def)

theorem ring_array_fifo_witness:
  "\<exists>ins outs arr'. fifo_run ring_array_push ra_pop [Push [1, 2], Push [3, 4], Push [5, 6], Pop] ra_sample
      = Some (ins, outs, arr') \<and> ra_wf arr' \<and> ins = outs @ ra_items arr'"
proof -
  have "length e = unat (ra_elem_size ra_sample)"
    if "Push e \<in> set [Push [1, 2], Push [3, 4], Push [5, 6], Pop]" for e
    using that by (auto simp: ra_sample_def)
  from ring_array_fifo [OF ra_sample_wf(1) this] show ?thesis
    unfolding ra_sample_wf(2) append_Nil .
qed

text \<open>
  C30. Capacity: on a well-formed array a push of a whole element succeeds exactly when fewer than
  \<open>cap\<close> elements are held, and then appends that element; otherwise it returns \<open>CC_ERROR\<close>
  and leaves every field, the stored bytes included, as it was.
\<close>

theorem ring_array_push_exact:
  assumes "ra_wf arr" and "length e = unat (ra_elem_size arr)"
  shows "\<exists>st arr'. ring_array_push e arr = Some (st, arr') \<and>
           (if length (ra_items arr) < unat (ra_cap arr)
            then st = CC_OK \<and> ra_wf arr' \<and> ra_items arr' = ra_items arr @ [e]
            else st = CC_ERROR \<and> arr' = arr)"
  using assms by (cases rule: ring.push_cases) auto

theorem ring_array_push_exact_witness:
  "\<exists>st arr'. ring_array_push [7, 8] ra_sample = Some (st, arr') \<and> st = CC_OK \<and>
     ra_wf arr' \<and> ra_items arr' = [[7, 8]]"
proof -
  have "length [7, 8 :: u8] = unat (ra_elem_size ra_sample)" "unat (ra_cap ra_sample) = 2"
    by (simp_all add: ra_sample_def)
  with ring_array_push_exact [OF ra_sample_wf(1) this(1)] show ?thesis
    by (simp add: ra_sample_wf(2))
qed

text \<open>
  Creation: when the requested size fits in a \<^verbatim>\<open>size_t\<close> and \<open>cap\<close> is below
  \<open>UINT32_MAX\<close>, a non-null result of \<open>ring_array_create\<close> is a well-formed, empty ring array
  of that capacity and element size.
\<close>

theorem ring_array_create_ok:
  assumes "malloc_spec malloc" and "unat cap < 4294967295"
    and "24 + unat es * (unat cap + 1) < 18446744073709551616"
    and "ring_array_create malloc es cap = Ptr arr"
  shows "ra_wf arr \<and> ra_items arr = [] \<and> ra_cap arr = cap \<and> ra_elem_size arr = es"
  using assms by (rule ring_array_create_Ptr)

definition malloc_zeroed :: malloc_fn where
  "malloc_zeroed n = Ptr (replicate (unat n) 0)"

lemma malloc_zeroed_spec: "malloc_spec malloc_zeroed"
  by (simp add: malloc_spec_def malloc_zeroed_def)

theorem ring_array_create_ok_witness:
  "\<exists>arr. ring_array_create malloc_zeroed 4 3 = Ptr arr \<and> ra_wf arr \<and> ra_items arr = []"
proof -
  obtain arr where a: "ring_array_create malloc_zeroed 4 3 = Ptr arr"
    by (simp add: ring_array_create_def RING_ARRAY_HDR_SIZE_def cc_alloc_def malloc_zeroed_def)
  with ring_array_create_ok [OF malloc_zeroed_spec _ _ a] show ?thesis by simp
qed

text \<open>
  At the largest capacity creation goes wrong: for \<open>cap = UINT32_MAX\<close> the slot count
  \<open>cap + 1\<close> wraps to zero, the array is allocated without any slot, yet it does not count as
  full, and the first push of a non-empty element is out of bounds.
\<close>

lemma ring_array_create_max_cap:
  assumes "malloc_spec malloc" and "es \<noteq> 0"
    and "ring_array_create malloc es (- 1) = Ptr arr"
  shows "ra_data arr = [] \<and> \<not> ring_array_full arr \<and> ring_array_push e arr = None"
proof -
  obtain blk where b: "cc_alloc malloc 24 = Ptr blk"
    and a: "arr = \<lparr>ra_elem_size = es, ra_cap = - 1, ra_rpos = 0, ra_wpos = 0, ra_data = drop 24 blk\<rparr>"
    using assms(3) by (auto simp: ring_array_create_def RING_ARRAY_HDR_SIZE_def split: ptr.splits)
  have len: "length blk = 24" using cc_alloc_length [OF assms(1) b] by simp
  have "0 < unat es" using assms(2) by (simp add: unat_gt_0)
  then show ?thesis
    using a len by (simp add: ring_array_push_def ring_array_full_def ring_array_nelem_def
        ra_offset_def cc_memcpy_None_dst)
qed

end
