(* ===== verification/Cc_Ring_Threads.thy ===== *)
theory Cc_Ring_Threads
  imports Cc_Ring_Array
begin

text \<open>
  The ring array shared by one producer and one consumer thread (\<^verbatim>\<open>src/cc_ring_array.c\<close>).
  Every load and store of a shared position, and every byte that \<^verbatim>\<open>memcpy\<close> moves, is a step of
  its own, and the steps of the two threads interleave in any order. A producer that has read
  \<open>rpos\<close> in \<^verbatim>\<open>ring_array_full\<close> and a consumer that has read \<open>wpos\<close> in
  \<^verbatim>\<open>ring_array_empty\<close> work with that snapshot while the other thread moves on.
  Steps act on one memory in one order; reorderings that relaxed atomics permit beyond
  that are outside the model.

  The ghost fields \<open>g_sent\<close> and \<open>g_gone\<close> record the elements whose push completed and the
  elements that left the array by a pop or a flush.
\<close>

section \<open>Thread-local control points\<close>

datatype producer =
    P_Idle
  | P_Loaded bytes u32      \<comment> \<open>in \<open>push elem\<close>, \<open>rpos\<close> snapshot taken\<close>
  | P_Copy bytes nat        \<comment> \<open>array not full; this many bytes copied so far\<close>

datatype consumer =
    C_Idle
  | C_Loaded bool u32       \<comment> \<open>in \<open>pop\<close> (is the destination non-null?), \<open>wpos\<close> snapshot taken\<close>
  | C_Copy bytes            \<comment> \<open>array not empty; the bytes copied so far\<close>
  | C_Skip                  \<comment> \<open>array not empty, null destination\<close>
  | C_Flush u32             \<comment> \<open>in \<open>flush\<close>, \<open>wpos\<close> snapshot taken\<close>

record spsc =
  sh_arr :: ring_array
  p_pc :: producer
  c_pc :: consumer
  g_sent :: "bytes list"
  g_gone :: "bytes list"

inductive spsc_step :: "spsc \<Rightarrow> spsc \<Rightarrow> bool" where
  p_load: "p_pc s = P_Idle \<Longrightarrow> length e = unat (ra_elem_size (sh_arr s)) \<Longrightarrow>
     spsc_step s (s\<lparr>p_pc := P_Loaded e (ra_rpos (sh_arr s))\<rparr>)"
| p_full: "p_pc s = P_Loaded e r \<Longrightarrow>
     ring_array_nelem r (ra_wpos (sh_arr s)) (ra_cap (sh_arr s)) = ra_cap (sh_arr s) \<Longrightarrow>
     spsc_step s (s\<lparr>p_pc := P_Idle\<rparr>)"
| p_room: "p_pc s = P_Loaded e r \<Longrightarrow>
     ring_array_nelem r (ra_wpos (sh_arr s)) (ra_cap (sh_arr s)) \<noteq> ra_cap (sh_arr s) \<Longrightarrow>
     spsc_step s (s\<lparr>p_pc := P_Copy e 0\<rparr>)"
| p_byte: "p_pc s = P_Copy e k \<Longrightarrow> k < unat (ra_elem_size (sh_arr s)) \<Longrightarrow>
     ra_offset (sh_arr s) (ra_wpos (sh_arr s)) + k < length (ra_data (sh_arr s)) \<Longrightarrow>
     spsc_step s (s\<lparr>sh_arr := (sh_arr s)\<lparr>ra_data :=
         (ra_data (sh_arr s))[ra_offset (sh_arr s) (ra_wpos (sh_arr s)) + k := e ! k]\<rparr>,
       p_pc := P_Copy e (Suc k)\<rparr>)"
| p_store: "p_pc s = P_Copy e k \<Longrightarrow> k = unat (ra_elem_size (sh_arr s)) \<Longrightarrow>
     c_umod (ra_wpos (sh_arr s) + 1) (ra_cap (sh_arr s) + 1) = Some n \<Longrightarrow>
     spsc_step s (s\<lparr>sh_arr := (sh_arr s)\<lparr>ra_wpos := n\<rparr>, p_pc := P_Idle, g_sent := g_sent s @ [e]\<rparr>)"
| c_load: "c_pc s = C_Idle \<Longrightarrow>
     spsc_step s (s\<lparr>c_pc := C_Loaded b (ra_wpos (sh_arr s))\<rparr>)"
| c_empty: "c_pc s = C_Loaded b w \<Longrightarrow>
     ring_array_nelem (ra_rpos (sh_arr s)) w (ra_cap (sh_arr s)) = 0 \<Longrightarrow>
     spsc_step s (s\<lparr>c_pc := C_Idle\<rparr>)"
| c_some: "c_pc s = C_Loaded b w \<Longrightarrow>
     ring_array_nelem (ra_rpos (sh_arr s)) w (ra_cap (sh_arr s)) \<noteq> 0 \<Longrightarrow>
     spsc_step s (s\<lparr>c_pc := (if b then C_Copy [] else C_Skip)\<rparr>)"
| c_byte: "c_pc s = C_Copy v \<Longrightarrow> length v < unat (ra_elem_size (sh_arr s)) \<Longrightarrow>
     ra_offset (sh_arr s) (ra_rpos (sh_arr s)) + length v < length (ra_data (sh_arr s)) \<Longrightarrow>
     spsc_step s (s\<lparr>c_pc :=
       C_Copy (v @ [ra_data (sh_arr s) ! (ra_offset (sh_arr s) (ra_rpos (sh_arr s)) + length v)])\<rparr>)"
| c_store: "c_pc s = C_Copy v \<Longrightarrow> length v = unat (ra_elem_size (sh_arr s)) \<Longrightarrow>
     c_umod (ra_rpos (sh_arr s) + 1) (ra_cap (sh_arr s) + 1) = Some n \<Longrightarrow>
     spsc_step s (s\<lparr>sh_arr := (sh_arr s)\<lparr>ra_rpos := n\<rparr>, c_pc := C_Idle, g_gone := g_gone s @ [v]\<rparr>)"
| c_drop: "c_pc s = C_Skip \<Longrightarrow>
     c_umod (ra_rpos (sh_arr s) + 1) (ra_cap (sh_arr s) + 1) = Some n \<Longrightarrow>
     spsc_step s (s\<lparr>sh_arr := (sh_arr s)\<lparr>ra_rpos := n\<rparr>, c_pc := C_Idle,
       g_gone := g_gone s @ [hd (ra_items (sh_arr s))]\<rparr>)"
| f_load: "c_pc s = C_Idle \<Longrightarrow>
     spsc_step s (s\<lparr>c_pc := C_Flush (ra_wpos (sh_arr s))\<rparr>)"
| f_store: "c_pc s = C_Flush w \<Longrightarrow>
     spsc_step s (s\<lparr>sh_arr := (sh_arr s)\<lparr>ra_rpos := w\<rparr>, c_pc := C_Idle,
       g_gone := g_gone s @ take (ring_dist (ra_slots (sh_arr s)) (unat (ra_rpos (sh_arr s))) (unat w))
                          (ra_items (sh_arr s))\<rparr>)"

inductive spsc_reach :: "ring_array \<Rightarrow> spsc \<Rightarrow> bool" for a0 where
  spsc_start: "spsc_reach a0 \<lparr>sh_arr = a0, p_pc = P_Idle, c_pc = C_Idle, g_sent = ra_items a0, g_gone = []\<rparr>"
| spsc_next: "spsc_reach a0 s \<Longrightarrow> spsc_step s t \<Longrightarrow> spsc_reach a0 t"


section \<open>Windows under single-byte writes\<close>

lemma window_update_other:
  "i < a \<or> a + n \<le> i \<Longrightarrow> window (xs[i := x]) a n = window xs a n"
  by (auto simp: window_def drop_update_swap)

lemma window_update_in:
  "k < n \<Longrightarrow> window (xs[a + k := x]) a n = (window xs a n)[k := x]"
  by (simp add: window_def drop_update_swap take_update_swap)

lemma ra_slot_byte:
  assumes wf: "ra_wf a" and k: "k < unat (ra_elem_size a)" and j: "j < ra_slots a" and w: "w < ra_slots a"
  shows "ra_slot (a\<lparr>ra_data := (ra_data a)[unat (ra_elem_size a) * w + k := x]\<rparr>) j =
         (if j = w then (ra_slot a w)[k := x] else ra_slot a j)"
proof (cases "j = w")
  case True
  then show ?thesis using k by (simp add: ra_slot_def window_update_in)
next
  case False
  let ?s = "unat (ra_elem_size a)"
  consider "j + 1 \<le> w" | "w + 1 \<le> j" using False by linarith
  then have "?s * w + k < ?s * j \<or> ?s * j + ?s \<le> ?s * w + k"
  proof cases
    case 1
    then have "?s * (j + 1) \<le> ?s * w" by (rule mult_le_mono2)
    then show ?thesis by simp
  next
    case 2
    then have "?s * (w + 1) \<le> ?s * j" by (rule mult_le_mono2)
    then show ?thesis using k by simp
  qed
  then show ?thesis using False by (simp add: ra_slot_def window_update_other)
qed


section \<open>Snapshots\<close>

lemma ring_dist_split:
  "r < N \<Longrightarrow> v < N \<Longrightarrow> w < N \<Longrightarrow> ring_dist N r v \<le> ring_dist N r w \<Longrightarrow>
   ring_dist N v w = ring_dist N r w - ring_dist N r v"
  by (auto simp: ring_dist_def split: if_splits)

lemma ra_slot_wpos_fresh:
  assumes "ra_wf a" "i < ra_count a"
  shows "(unat (ra_rpos a) + i) mod ra_slots a \<noteq> unat (ra_wpos a)"
proof -
  note wfs = ra_wfD [OF assms(1)]
  have "ra_count a < ra_slots a" using ra_count_le [OF assms(1)] wfs(4) by simp
  moreover have "(unat (ra_rpos a) + ra_count a) mod ra_slots a = unat (ra_wpos a)"
    unfolding ra_count_def by (rule ring_dist_reach [OF wfs(2) wfs(3)])
  ultimately show ?thesis
    using ring_slots_inj [OF wfs(2), of i "ra_count a"] assms(2) by auto
qed

lemma ra_rpos_not_wpos: "ra_wf a \<Longrightarrow> 0 < ra_count a \<Longrightarrow> unat (ra_rpos a) \<noteq> unat (ra_wpos a)"
  by (auto simp: ra_count_def)


section \<open>The invariant\<close>

definition prod_ok :: "ring_array \<Rightarrow> producer \<Rightarrow> bool" where
  "prod_ok a p = (case p of
     P_Idle \<Rightarrow> True
   | P_Loaded e r \<Rightarrow>
       length e = unat (ra_elem_size a) \<and> unat r < ra_slots a \<and>
       ra_count a \<le> ring_dist (ra_slots a) (unat r) (unat (ra_wpos a))
   | P_Copy e k \<Rightarrow>
       length e = unat (ra_elem_size a) \<and> k \<le> length e \<and> ra_count a < unat (ra_cap a) \<and>
       take k (ra_slot a (unat (ra_wpos a))) = take k e)"

definition cons_ok :: "ring_array \<Rightarrow> consumer \<Rightarrow> bool" where
  "cons_ok a c = (case c of
     C_Idle \<Rightarrow> True
   | C_Loaded b w \<Rightarrow>
       unat w < ra_slots a \<and> ring_dist (ra_slots a) (unat (ra_rpos a)) (unat w) \<le> ra_count a
   | C_Copy v \<Rightarrow>
       0 < ra_count a \<and> length v \<le> unat (ra_elem_size a) \<and>
       v = take (length v) (ra_slot a (unat (ra_rpos a)))
   | C_Skip \<Rightarrow> 0 < ra_count a
   | C_Flush w \<Rightarrow>
       unat w < ra_slots a \<and> ring_dist (ra_slots a) (unat (ra_rpos a)) (unat w) \<le> ra_count a)"

definition spsc_inv :: "spsc \<Rightarrow> bool" where
  "spsc_inv s \<longleftrightarrow> ra_wf (sh_arr s) \<and> prod_ok (sh_arr s) (p_pc s) \<and> cons_ok (sh_arr s) (c_pc s) \<and>
     g_sent s = g_gone s @ ra_items (sh_arr s)"


lemma ra_slots_upd [simp]:
  "ra_slots (a\<lparr>ra_data := d\<rparr>) = ra_slots a" "ra_slots (a\<lparr>ra_wpos := w\<rparr>) = ra_slots a"
  "ra_slots (a\<lparr>ra_rpos := r\<rparr>) = ra_slots a"
  by (simp_all add: ra_slots_def)

lemma ra_count_data [simp]: "ra_count (a\<lparr>ra_data := d\<rparr>) = ra_count a"
  by (simp add: ra_count_def)

lemma ra_slot_pos [simp]:
  "ra_slot (a\<lparr>ra_wpos := w\<rparr>) k = ra_slot a k" "ra_slot (a\<lparr>ra_rpos := r\<rparr>) k = ra_slot a k"
  by (simp_all add: ra_slot_def)

lemma ra_slot_length: "ra_wf a \<Longrightarrow> k < ra_slots a \<Longrightarrow> length (ra_slot a k) = unat (ra_elem_size a)"
  unfolding ra_slot_def
proof (rule window_length)
  assume "ra_wf a" "k < ra_slots a"
  then have "unat (ra_elem_size a) * (k + 1) \<le> unat (ra_elem_size a) * ra_slots a"
    by (intro mult_le_mono2) simp
  then show "unat (ra_elem_size a) * k + unat (ra_elem_size a) \<le> length (ra_data a)"
    using ra_wfD(5) [OF \<open>ra_wf a\<close>] by simp
qed

text \<open>A byte of the slot at \<open>wpos\<close> is written: nothing the consumer can see changes.\<close>

lemma byte_written:
  fixes x :: u8
  assumes wf: "ra_wf a" and k: "k < unat (ra_elem_size a)"
  defines "a' \<equiv> a\<lparr>ra_data := (ra_data a)[ra_offset a (ra_wpos a) + k := x]\<rparr>"
  shows "ra_wf a'" "ra_items a' = ra_items a" "cons_ok a c \<Longrightarrow> cons_ok a' c"
    "prod_ok a (P_Copy e k) \<Longrightarrow> x = e ! k \<Longrightarrow> prod_ok a' (P_Copy e (Suc k))"
proof -
  note wfs = ra_wfD [OF wf]
  have off: "ra_offset a (ra_wpos a) = unat (ra_elem_size a) * unat (ra_wpos a)"
    by (rule ra_offset_nat(1) [OF wf wfs(3)])
  have slot: "ra_slot a' j = (if j = unat (ra_wpos a) then (ra_slot a (unat (ra_wpos a)))[k := x]
                              else ra_slot a j)" if "j < ra_slots a" for j
    unfolding a'_def off using ra_slot_byte [OF wf k that wfs(3)] by simp
  show "ra_wf a'" using wf by (simp add: a'_def ra_wf_def)
  have "ra_slot a' ((unat (ra_rpos a) + i) mod ra_slots a) =
        ra_slot a ((unat (ra_rpos a) + i) mod ra_slots a)" if "i < ra_count a" for i
    using slot ra_slot_wpos_fresh [OF wf that] wfs(4) by simp
  moreover have "ra_count a' = ra_count a" "ra_rpos a' = ra_rpos a" "ra_slots a' = ra_slots a"
    by (simp_all add: a'_def)
  ultimately show "ra_items a' = ra_items a" by (simp add: ra_items_def)
  have "ra_slot a' (unat (ra_rpos a)) = ra_slot a (unat (ra_rpos a))" if "0 < ra_count a"
    using slot [OF wfs(2)] ra_rpos_not_wpos [OF wf that] by simp
  then show "cons_ok a' c" if "cons_ok a c"
    using that by (auto simp: cons_ok_def a'_def split: consumer.splits)
  show "prod_ok a' (P_Copy e (Suc k))" if p: "prod_ok a (P_Copy e k)" and x: "x = e ! k"
  proof -
    let ?w = "ra_slot a (unat (ra_wpos a))"
    have "take (Suc k) (?w[k := x]) = take k ?w @ [x]"
      using k ra_slot_length [OF wf wfs(3)] by (simp add: take_Suc_conv_app_nth)
    then show ?thesis
      using p x k slot [OF wfs(3)] by (simp add: prod_ok_def a'_def take_Suc_conv_app_nth)
  qed
qed

text \<open>The producer publishes: the copied element becomes the newest item.\<close>

lemma wpos_stored:
  assumes wf: "ra_wf a" and p: "prod_ok a (P_Copy e (unat (ra_elem_size a)))"
    and n: "c_umod (ra_wpos a + 1) (ra_cap a + 1) = Some n"
  shows "ra_wf (a\<lparr>ra_wpos := n\<rparr>)" "ra_items (a\<lparr>ra_wpos := n\<rparr>) = ra_items a @ [e]"
    "cons_ok a c \<Longrightarrow> cons_ok (a\<lparr>ra_wpos := n\<rparr>) c"
proof -
  let ?a = "a\<lparr>ra_wpos := n\<rparr>"
  note wfs = ra_wfD [OF wf]
  have n': "unat n = ring_next (ra_slots a) (unat (ra_wpos a))"
    using c_umod_next [of "ra_cap a" "ra_wpos a"] wfs n by auto
  have room: "ra_count a < unat (ra_cap a)" and e: "ra_slot a (unat (ra_wpos a)) = e"
    using p ra_slot_length [OF wf wfs(3)] by (simp_all add: prod_ok_def)
  show "ra_wf ?a" using wf n' ring_next_less [OF wfs(3)] by (simp add: ra_wf_def)
  have cnt: "ra_count ?a = ra_count a + 1"
    using ring_dist_next_w [OF wfs(2,3)] room wfs(4) n' by (simp add: ra_count_def)
  have "(unat (ra_rpos a) + ra_count a) mod ra_slots a = unat (ra_wpos a)"
    unfolding ra_count_def by (rule ring_dist_reach [OF wfs(2,3)])
  then show "ra_items ?a = ra_items a @ [e]" using e by (simp add: ra_items_def cnt)
  show "cons_ok ?a c" if "cons_ok a c"
    using that cnt by (auto simp: cons_ok_def split: consumer.splits)
qed

text \<open>The consumer advances \<open>rpos\<close> to \<open>v\<close>, at most up to \<open>wpos\<close>.\<close>

lemma rpos_advanced:
  assumes wf: "ra_wf a" and v: "unat v < ra_slots a"
    and le: "ring_dist (ra_slots a) (unat (ra_rpos a)) (unat v) \<le> ra_count a"
  shows "ra_wf (a\<lparr>ra_rpos := v\<rparr>)"
    "ra_items a = take (ring_dist (ra_slots a) (unat (ra_rpos a)) (unat v)) (ra_items a) @
       ra_items (a\<lparr>ra_rpos := v\<rparr>)"
    "prod_ok a p \<Longrightarrow> prod_ok (a\<lparr>ra_rpos := v\<rparr>) p"
proof -
  let ?a = "a\<lparr>ra_rpos := v\<rparr>" and ?N = "ra_slots a" and ?r = "unat (ra_rpos a)"
  let ?k = "ring_dist ?N ?r (unat v)"
  note wfs = ra_wfD [OF wf]
  show "ra_wf ?a" using wf v by (simp add: ra_wf_def)
  have cnt: "ra_count ?a = ra_count a - ?k"
    using ring_dist_split [OF wfs(2) v wfs(3)] le by (simp add: ra_count_def)
  have reach: "(?r + ?k) mod ?N = unat v" by (rule ring_dist_reach [OF wfs(2) v])
  have "(unat v + i) mod ?N = (?r + (?k + i)) mod ?N" for i
    by (metis reach add.assoc mod_add_left_eq)
  moreover have "drop ?k (ra_items a) ! i = ra_slot a ((?r + (?k + i)) mod ?N)"
    if "i < ra_count a - ?k" for i
  proof -
    have "?k + i < ra_count a" using that by linarith
    then show ?thesis by (simp add: ra_items_def)
  qed
  moreover have "ra_items ?a ! i = ra_slot a ((unat v + i) mod ?N)" if "i < ra_count a - ?k" for i
    using that by (simp add: ra_items_def cnt)
  ultimately have "ra_items ?a = drop ?k (ra_items a)"
    by (intro nth_equalityI) (simp_all add: cnt)
  then show "ra_items a = take ?k (ra_items a) @ ra_items ?a" by simp
  show "prod_ok ?a p" if "prod_ok a p"
    using that cnt by (auto simp: prod_ok_def split: producer.splits)
qed


section \<open>Every step keeps the invariant\<close>

lemma snapshot_room:
  assumes wf: "ra_wf a" and p: "prod_ok a (P_Loaded e r)"
    and nf: "ring_array_nelem r (ra_wpos a) (ra_cap a) \<noteq> ra_cap a"
  shows "prod_ok a (P_Copy e 0)"
proof -
  note wfs = ra_wfD [OF wf]
  have "unat (ring_array_nelem r (ra_wpos a) (ra_cap a)) = ring_dist (ra_slots a) (unat r) (unat (ra_wpos a))"
    using p wfs ring_array_nelem_nat [OF wfs(1), of r "ra_wpos a"] by (simp add: prod_ok_def)
  moreover have "unat (ring_array_nelem r (ra_wpos a) (ra_cap a)) \<noteq> unat (ra_cap a)"
    using nf by (simp add: word_unat_eq_iff)
  moreover have "ring_dist (ra_slots a) (unat r) (unat (ra_wpos a)) < ra_slots a"
    using p wfs by (intro ring_dist_less) (simp_all add: prod_ok_def)
  ultimately show ?thesis using p wfs(4) by (simp add: prod_ok_def)
qed

lemma snapshot_some:
  assumes wf: "ra_wf a" and c: "cons_ok a (C_Loaded b w)"
    and ne: "ring_array_nelem (ra_rpos a) w (ra_cap a) \<noteq> 0"
  shows "cons_ok a (if b then C_Copy [] else C_Skip)"
proof -
  note wfs = ra_wfD [OF wf]
  have "unat (ring_array_nelem (ra_rpos a) w (ra_cap a)) = ring_dist (ra_slots a) (unat (ra_rpos a)) (unat w)"
    using c wfs ring_array_nelem_nat [OF wfs(1), of "ra_rpos a" w] by (simp add: cons_ok_def)
  moreover have "unat (ring_array_nelem (ra_rpos a) w (ra_cap a)) \<noteq> 0"
    using ne by (simp add: unat_eq_zero)
  ultimately show ?thesis using c by (simp add: cons_ok_def)
qed

lemma byte_read:
  assumes wf: "ra_wf a" and c: "cons_ok a (C_Copy v)" and k: "length v < unat (ra_elem_size a)"
  shows "cons_ok a (C_Copy (v @ [ra_data a ! (ra_offset a (ra_rpos a) + length v)]))"
proof -
  note wfs = ra_wfD [OF wf]
  let ?w = "ra_slot a (unat (ra_rpos a))"
  have len: "length ?w = unat (ra_elem_size a)" by (rule ra_slot_length [OF wf wfs(2)])
  have "ra_data a ! (ra_offset a (ra_rpos a) + length v) = ?w ! length v"
    using ra_offset_nat [OF wf wfs(2)] k by (simp add: ra_slot_def window_nth)
  then show ?thesis
    using c k len by (simp add: cons_ok_def take_Suc_conv_app_nth)
qed

text \<open>Moving \<open>rpos\<close> one slot on takes exactly the oldest element out.\<close>

lemma rpos_popped:
  assumes wf: "ra_wf a" and ne: "0 < ra_count a"
    and n: "c_umod (ra_rpos a + 1) (ra_cap a + 1) = Some n"
  shows "ra_wf (a\<lparr>ra_rpos := n\<rparr>)" "prod_ok a p \<Longrightarrow> prod_ok (a\<lparr>ra_rpos := n\<rparr>) p"
    "ra_items a = ra_slot a (unat (ra_rpos a)) # ra_items (a\<lparr>ra_rpos := n\<rparr>)"
proof -
  note wfs = ra_wfD [OF wf]
  have n': "unat n = ring_next (ra_slots a) (unat (ra_rpos a))"
    using c_umod_next [of "ra_cap a" "ra_rpos a"] wfs n by auto
  show "ra_wf (a\<lparr>ra_rpos := n\<rparr>)"
    and "ra_items a = ra_slot a (unat (ra_rpos a)) # ra_items (a\<lparr>ra_rpos := n\<rparr>)"
    using ra_items_Cons [OF wf ne n'] by blast+
  have "1 < ra_slots a" using ne ra_count_le [OF wf] wfs(4) by simp
  then have "ring_dist (ra_slots a) (unat (ra_rpos a)) (unat n) = 1"
    using ring_dist_next_w [OF wfs(2) wfs(2)] n' by simp
  then show "prod_ok (a\<lparr>ra_rpos := n\<rparr>) p" if "prod_ok a p"
    using rpos_advanced(3) [OF wf _ _ that, of n] ne n' ring_next_less [OF wfs(2)] by simp
qed

lemma spsc_step_inv: "spsc_step s t \<Longrightarrow> spsc_inv s \<Longrightarrow> spsc_inv t"
proof (induction rule: spsc_step.induct)
  case (p_load s e)
  then show ?case using ra_wfD [of "sh_arr s"]
    by (simp add: spsc_inv_def prod_ok_def ra_count_def)
next
  case (p_full s e r)
  then show ?case by (simp add: spsc_inv_def prod_ok_def)
next
  case (p_room s e r)
  then show ?case using snapshot_room [of "sh_arr s" e r] by (simp add: spsc_inv_def)
next
  case (p_byte s e k)
  then show ?case using byte_written [where a = "sh_arr s" and k = k and x = "e ! k"] by (simp add: spsc_inv_def)
next
  case (p_store s e k n)
  then show ?case using wpos_stored [of "sh_arr s" e n] by (simp add: spsc_inv_def prod_ok_def)
next
  case (c_load s b)
  then show ?case using ra_wfD [of "sh_arr s"]
    by (simp add: spsc_inv_def cons_ok_def ra_count_def)
next
  case (c_empty s b w)
  then show ?case by (simp add: spsc_inv_def cons_ok_def)
next
  case (c_some s b w)
  then show ?case using snapshot_some [of "sh_arr s" b w] by (simp add: spsc_inv_def)
next
  case (c_byte s v)
  then show ?case using byte_read [of "sh_arr s" v] by (simp add: spsc_inv_def)
next
  case (c_store s v n)
  then have "v = ra_slot (sh_arr s) (unat (ra_rpos (sh_arr s)))"
    using ra_slot_length ra_wfD(2) by (simp add: spsc_inv_def cons_ok_def)
  then show ?case using c_store rpos_popped [of "sh_arr s" n] by (simp add: spsc_inv_def cons_ok_def)
next
  case (c_drop s n)
  then show ?case using rpos_popped [of "sh_arr s" n] by (simp add: spsc_inv_def cons_ok_def)
next
  case (f_load s)
  then show ?case using ra_wfD [of "sh_arr s"]
    by (simp add: spsc_inv_def cons_ok_def ra_count_def)
next
  case (f_store s w)
  then show ?case using rpos_advanced [of "sh_arr s" w] by (simp add: spsc_inv_def cons_ok_def)
qed

lemma spsc_reach_inv: "spsc_reach a0 s \<Longrightarrow> ra_wf a0 \<Longrightarrow> spsc_inv s"
proof (induction rule: spsc_reach.induct)
  case spsc_start
  then show ?case by (simp add: spsc_inv_def prod_ok_def cons_ok_def)
next
  case (spsc_next s t)
  then show ?case using spsc_step_inv by blast
qed


section \<open>Properties\<close>

text \<open>C1: whatever the interleaving of the producer's and the consumer's loads, stores and byte
  copies, in every reachable state the elements whose push completed are exactly the elements
  taken out followed by the elements in the array, in order: nothing is lost, duplicated,
  reordered or torn, and the array never holds more than \<open>cap\<close> elements.\<close>

theorem spsc_fifo:
  assumes "ra_wf a0" and "spsc_reach a0 s"
  shows "g_sent s = g_gone s @ ra_items (sh_arr s) \<and> length (ra_items (sh_arr s)) \<le> unat (ra_cap (sh_arr s))"
  using spsc_reach_inv [OF assms(2,1)] ra_count_le by (simp add: spsc_inv_def)

lemma ra_sample_reach_sent:
  "\<exists>s. spsc_reach ra_sample s \<and> g_sent s = [[9, 8]] \<and> p_pc s = P_Idle"
proof -
  let ?s0 = "\<lparr>sh_arr = ra_sample, p_pc = P_Idle, c_pc = C_Idle, g_sent = [], g_gone = []\<rparr>"
  note ev = ra_sample_def ra_offset_def ring_array_nelem_def c_umod_def
  have "spsc_reach ra_sample ?s0"
    using spsc_start [of ra_sample] by (simp add: ra_sample_wf)
  note r1 = spsc_next [OF this p_load [of _ "[9, 8]"]]
  note r2 = spsc_next [OF r1 p_room [of _ "[9, 8]" 1]]
  note r3 = spsc_next [OF r2 p_byte [of _ "[9, 8]" 0]]
  note r4 = spsc_next [OF r3 p_byte [of _ "[9, 8]" 1]]
  note r5 = spsc_next [OF r4 p_store [of _ "[9, 8]" 2 2]]
  show ?thesis
    by (rule exI, rule conjI, rule r5) (simp_all add: ev)
qed

theorem spsc_fifo_witness:
  "\<exists>s. spsc_reach ra_sample s \<and> g_sent s = [[9, 8]] \<and> [[9, 8]] = g_gone s @ ra_items (sh_arr s)"
proof -
  obtain s where s: "spsc_reach ra_sample s" "g_sent s = [[9, 8]]"
    using ra_sample_reach_sent by blast
  show ?thesis using spsc_fifo [OF ra_sample_wf(1) s(1)] s by auto
qed


text \<open>The steps a thread still has to take before its current operation returns.\<close>

definition p_todo :: "ring_array \<Rightarrow> producer \<Rightarrow> nat" where
  "p_todo a p = (case p of P_Idle \<Rightarrow> 0 | P_Loaded e r \<Rightarrow> unat (ra_elem_size a) + 2
     | P_Copy e k \<Rightarrow> unat (ra_elem_size a) + 1 - k)"

definition c_todo :: "ring_array \<Rightarrow> consumer \<Rightarrow> nat" where
  "c_todo a c = (case c of C_Idle \<Rightarrow> 0 | C_Loaded b w \<Rightarrow> unat (ra_elem_size a) + 2
     | C_Copy v \<Rightarrow> unat (ra_elem_size a) + 1 - length v | C_Skip \<Rightarrow> 1 | C_Flush w \<Rightarrow> 1)"

lemma producer_progress:
  assumes inv: "spsc_inv s" and busy: "p_pc s \<noteq> P_Idle"
  shows "\<exists>t. spsc_step s t \<and> c_pc t = c_pc s \<and> p_todo (sh_arr t) (p_pc t) < p_todo (sh_arr s) (p_pc s)"
proof -
  let ?a = "sh_arr s"
  have wf: "ra_wf ?a" and p: "prod_ok ?a (p_pc s)" using inv by (simp_all add: spsc_inv_def)
  note wfs = ra_wfD [OF wf]
  show ?thesis
  proof (cases "p_pc s")
    case (P_Loaded e r)
    then show ?thesis
      using p_full [of s e r] p_room [of s e r]
      by (cases "ring_array_nelem r (ra_wpos ?a) (ra_cap ?a) = ra_cap ?a")
         (fastforce simp: p_todo_def)+
  next
    case (P_Copy e k)
    show ?thesis
    proof (cases "k < unat (ra_elem_size ?a)")
      case True
      then have "ra_offset ?a (ra_wpos ?a) + k < length (ra_data ?a)"
        using ra_offset_nat [OF wf wfs(3)] by simp
      from p_byte [OF P_Copy True this] show ?thesis
        by (intro exI conjI, assumption) (use True in \<open>simp_all add: p_todo_def P_Copy\<close>)
    next
      case False
      then have k: "k = unat (ra_elem_size ?a)" using p P_Copy by (simp add: prod_ok_def)
      obtain n where "c_umod (ra_wpos ?a + 1) (ra_cap ?a + 1) = Some n"
        using c_umod_next [of "ra_cap ?a" "ra_wpos ?a"] wfs by auto
      from p_store [OF P_Copy k this] show ?thesis
        by (intro exI conjI, assumption) (simp_all add: p_todo_def P_Copy k)
    qed
  qed (use busy in simp)
qed

lemma consumer_progress:
  assumes inv: "spsc_inv s" and busy: "c_pc s \<noteq> C_Idle"
  shows "\<exists>t. spsc_step s t \<and> p_pc t = p_pc s \<and> c_todo (sh_arr t) (c_pc t) < c_todo (sh_arr s) (c_pc s)"
proof -
  let ?a = "sh_arr s"
  have wf: "ra_wf ?a" and c: "cons_ok ?a (c_pc s)" using inv by (simp_all add: spsc_inv_def)
  note wfs = ra_wfD [OF wf]
  obtain n where n: "c_umod (ra_rpos ?a + 1) (ra_cap ?a + 1) = Some n"
    using c_umod_next [of "ra_cap ?a" "ra_rpos ?a"] wfs by auto
  show ?thesis
  proof (cases "c_pc s")
    case (C_Loaded b w)
    then show ?thesis
      using c_empty [of s b w] c_some [of s b w]
      by (cases "ring_array_nelem (ra_rpos ?a) w (ra_cap ?a) = 0") (fastforce simp: c_todo_def)+
  next
    case (C_Copy v)
    show ?thesis
    proof (cases "length v < unat (ra_elem_size ?a)")
      case True
      then have "ra_offset ?a (ra_rpos ?a) + length v < length (ra_data ?a)"
        using ra_offset_nat [OF wf wfs(2)] by simp
      from c_byte [OF C_Copy True this] show ?thesis
        by (intro exI conjI, assumption) (use True in \<open>simp_all add: c_todo_def C_Copy\<close>)
    next
      case False
      then have k: "length v = unat (ra_elem_size ?a)" using c C_Copy by (simp add: cons_ok_def)
      from c_store [OF C_Copy k n] show ?thesis
        by (intro exI conjI, assumption) (simp_all add: c_todo_def C_Copy k)
    qed
  next
    case C_Skip
    from c_drop [OF C_Skip n] show ?thesis
      by (intro exI conjI, assumption) (simp_all add: c_todo_def C_Skip)
  next
    case (C_Flush w)
    from f_store [OF C_Flush] show ?thesis
      by (intro exI conjI, assumption) (simp_all add: c_todo_def C_Flush)
  qed (use busy in simp)
qed




section \<open>The steps are those of the sequential operations\<close>

text \<open>A producer that runs alone takes the steps of one \<^const>\<open>ring_array_push\<close>.\<close>

lemma p_bytes_alone:
  assumes "ra_wf (sh_arr s)" "length e = unat (ra_elem_size (sh_arr s))" "k \<le> length e"
    "p_pc s = P_Copy e k" "off = ra_offset (sh_arr s) (ra_wpos (sh_arr s))"
  shows "spsc_step\<^sup>*\<^sup>* s (s\<lparr>sh_arr := (sh_arr s)\<lparr>ra_data := take (off + k) (ra_data (sh_arr s)) @ drop k e @
             drop (off + length e) (ra_data (sh_arr s))\<rparr>, p_pc := P_Copy e (length e)\<rparr>)"
  using assms
proof (induction "length e - k" arbitrary: s k)
  case 0
  then have "s\<lparr>sh_arr := (sh_arr s)\<lparr>ra_data := take (off + k) (ra_data (sh_arr s)) @ drop k e @
      drop (off + length e) (ra_data (sh_arr s))\<rparr>, p_pc := P_Copy e (length e)\<rparr> = s"
    by (cases s) simp
  then show ?case by (simp only: rtranclp.rtrancl_refl)
next
  case (Suc n)
  let ?a = "sh_arr s"
  let ?d = "(ra_data ?a)[off + k := e ! k]"
  let ?t = "s\<lparr>sh_arr := ?a\<lparr>ra_data := ?d\<rparr>, p_pc := P_Copy e (Suc k)\<rparr>"
  note wfs = ra_wfD [OF Suc.prems(1)]
  have k: "k < length e" using Suc.hyps by simp
  have fits: "off + length e \<le> length (ra_data ?a)"
    using ra_offset_nat [OF Suc.prems(1) wfs(3)] Suc.prems(2,5) by simp
  have step: "spsc_step s ?t"
    using p_byte [of s e k] Suc.prems k fits by simp
  have "spsc_step\<^sup>*\<^sup>* ?t (?t\<lparr>sh_arr := (sh_arr ?t)\<lparr>ra_data := take (off + Suc k) ?d @ drop (Suc k) e @
          drop (off + length e) ?d\<rparr>, p_pc := P_Copy e (length e)\<rparr>)"
    using Suc.hyps(1) [of "Suc k" ?t] Suc.hyps(2) Suc.prems k
    by (simp add: ra_wf_def ra_offset_def)
  moreover have "take (off + Suc k) ?d @ drop (Suc k) e = take (off + k) (ra_data ?a) @ drop k e"
    using k fits by (simp add: take_Suc_conv_app_nth Cons_nth_drop_Suc)
  moreover have "drop (off + length e) ?d = drop (off + length e) (ra_data ?a)"
    using k by simp
  ultimately have "spsc_step\<^sup>*\<^sup>* ?t (s\<lparr>sh_arr := ?a\<lparr>ra_data := take (off + k) (ra_data ?a) @ drop k e @
             drop (off + length e) (ra_data ?a)\<rparr>, p_pc := P_Copy e (length e)\<rparr>)"
    by (simp flip: append_assoc)
  then show ?case using step by (rule converse_rtranclp_into_rtranclp [rotated])
qed

lemma p_alone:
  assumes wf: "ra_wf (sh_arr s)" and e: "length e = unat (ra_elem_size (sh_arr s))" and p: "p_pc s = P_Idle"
    and push: "ring_array_push e (sh_arr s) = Some (st, a')"
  shows "spsc_step\<^sup>*\<^sup>* s (s\<lparr>sh_arr := a', p_pc := P_Idle, g_sent := g_sent s @ (if st = CC_OK then [e] else [])\<rparr>)"
proof -
  let ?a = "sh_arr s"
  let ?s1 = "s\<lparr>p_pc := P_Loaded e (ra_rpos ?a)\<rparr>"
  have s1: "spsc_step s ?s1" by (rule p_load [OF p e])
  show ?thesis
  proof (cases "ring_array_full ?a")
    case True
    then have "st = CC_ERROR" "a' = ?a" using push by (simp_all add: ring_array_push_def)
    moreover have "spsc_step ?s1 (?s1\<lparr>p_pc := P_Idle\<rparr>)"
      using True by (intro p_full) (simp_all add: ring_array_full_def)
    ultimately show ?thesis using s1 p by simp
  next
    case False
    let ?off = "ra_offset ?a (ra_wpos ?a)"
    let ?s2 = "s\<lparr>p_pc := P_Copy e 0\<rparr>"
    have s2: "spsc_step ?s1 ?s2"
      using False p_room [of ?s1 e "ra_rpos ?a"] by (simp add: ring_array_full_def)
    obtain d n where d: "cc_memcpy (ra_data ?a) ?off e 0 (unat (ra_elem_size ?a)) = Some d"
      and n: "c_umod (ra_wpos ?a + 1) (ra_cap ?a + 1) = Some n"
      and a': "a' = ?a\<lparr>ra_data := d, ra_wpos := n\<rparr>" and st: "st = CC_OK"
      using push False by (auto simp: ring_array_push_def bind_eq_Some_conv)
    have "d = take ?off (ra_data ?a) @ e @ drop (?off + length e) (ra_data ?a)"
      using d e ra_offset_nat [OF wf ra_wfD(3) [OF wf]] by (simp add: cc_memcpy_Some)
    then have "spsc_step\<^sup>*\<^sup>* ?s2 (?s2\<lparr>sh_arr := ?a\<lparr>ra_data := d\<rparr>, p_pc := P_Copy e (length e)\<rparr>)"
      using p_bytes_alone [of ?s2 e 0] wf e by simp
    moreover have "spsc_step (?s2\<lparr>sh_arr := ?a\<lparr>ra_data := d\<rparr>, p_pc := P_Copy e (length e)\<rparr>)
       (s\<lparr>sh_arr := a', p_pc := P_Idle, g_sent := g_sent s @ [e]\<rparr>)"
      using p_store [of "?s2\<lparr>sh_arr := ?a\<lparr>ra_data := d\<rparr>, p_pc := P_Copy e (length e)\<rparr>" e "length e" n] e n p a'
      by simp
    ultimately have "spsc_step\<^sup>*\<^sup>* ?s2 (s\<lparr>sh_arr := a', p_pc := P_Idle, g_sent := g_sent s @ [e]\<rparr>)"
      by (rule rtranclp.rtrancl_into_rtrancl)
    then show ?thesis using s1 s2 st by (simp add: converse_rtranclp_into_rtranclp)
  qed
qed

end
