(* ===== verification/Cc_Queue.thy ===== *)
theory Cc_Queue
  imports Cc_Prelude
begin

text \<open>
  The intrusive lists of \<^verbatim>\<open>include/cc_queue.h\<close> at the level of their pointers: the singly linked
  list and tail queue (\<^verbatim>\<open>SLIST\<close>, \<^verbatim>\<open>STAILQ\<close>) and the doubly linked list and tail queue
  (\<^verbatim>\<open>LIST\<close>, \<^verbatim>\<open>TAILQ\<close>). A pointer to a pointer, which the macros store in \<^verbatim>\<open>stqh_last\<close>,
  \<^verbatim>\<open>tqh_last\<close>, \<^verbatim>\<open>le_prev\<close> and \<^verbatim>\<open>tqe_prev\<close>, is the cell it designates: the \<^verbatim>\<open>first\<close> field of a
  head or the \<^verbatim>\<open>next\<close> field of an element. The representation predicates relate a state of the
  cells to the list of the elements; every macro is shown to do on that list what its name says.
  The macros are those of a build without the tracing and checking options.
\<close>

section \<open>State and macros\<close>

datatype ('h, 'e) cell = FirstOf 'h | NextOf 'e

record ('h, 'e) qheap =
  q_cell :: "('h, 'e) cell \<Rightarrow> 'e ptr"
  q_last :: "'h \<Rightarrow> ('h, 'e) cell"
  q_prev :: "'e \<Rightarrow> ('h, 'e) cell"

type_synonym ('h, 'e) cells = "('h, 'e) cell \<Rightarrow> 'e ptr"

definition set_cell :: "('h, 'e) cell \<Rightarrow> 'e ptr \<Rightarrow> ('h, 'e) qheap \<Rightarrow> ('h, 'e) qheap" where
  "set_cell c v s = s\<lparr>q_cell := (q_cell s)(c := v)\<rparr>"

definition set_last :: "'h \<Rightarrow> ('h, 'e) cell \<Rightarrow> ('h, 'e) qheap \<Rightarrow> ('h, 'e) qheap" where
  "set_last h c s = s\<lparr>q_last := (q_last s)(h := c)\<rparr>"

definition set_prev :: "'e \<Rightarrow> ('h, 'e) cell \<Rightarrow> ('h, 'e) qheap \<Rightarrow> ('h, 'e) qheap" where
  "set_prev e c s = s\<lparr>q_prev := (q_prev s)(e := c)\<rparr>"

text \<open>Following a pointer that may be \<^verbatim>\<open>NULL\<close>.\<close>

definition load :: "'e ptr \<Rightarrow> 'e option" where
  "load p = (case p of Null \<Rightarrow> None | Ptr e \<Rightarrow> Some e)"

subsection \<open>\<^verbatim>\<open>SLIST\<close>\<close>

definition SLIST_EMPTY :: "'h \<Rightarrow> ('h, 'e) qheap \<Rightarrow> bool" where
  "SLIST_EMPTY h s \<longleftrightarrow> q_cell s (FirstOf h) = Null"

definition SLIST_INIT :: "'h \<Rightarrow> ('h, 'e) qheap \<Rightarrow> ('h, 'e) qheap" where
  "SLIST_INIT h s = set_cell (FirstOf h) Null s"

definition SLIST_INSERT_AFTER :: "'e \<Rightarrow> 'e \<Rightarrow> ('h, 'e) qheap \<Rightarrow> ('h, 'e) qheap" where
  "SLIST_INSERT_AFTER slistelm elm s =
     (let s1 = set_cell (NextOf elm) (q_cell s (NextOf slistelm)) s
      in set_cell (NextOf slistelm) (Ptr elm) s1)"

definition SLIST_INSERT_HEAD :: "'h \<Rightarrow> 'e \<Rightarrow> ('h, 'e) qheap \<Rightarrow> ('h, 'e) qheap" where
  "SLIST_INSERT_HEAD h elm s =
     (let s1 = set_cell (NextOf elm) (q_cell s (FirstOf h)) s
      in set_cell (FirstOf h) (Ptr elm) s1)"

definition SLIST_REMOVE_AFTER :: "'e \<Rightarrow> ('h, 'e) qheap \<Rightarrow> ('h, 'e) qheap option" where
  "SLIST_REMOVE_AFTER elm s = do {
     nxt \<leftarrow> load (q_cell s (NextOf elm));
     Some (set_cell (NextOf elm) (q_cell s (NextOf nxt)) s)
   }"

definition SLIST_REMOVE_HEAD :: "'h \<Rightarrow> ('h, 'e) qheap \<Rightarrow> ('h, 'e) qheap option" where
  "SLIST_REMOVE_HEAD h s = do {
     first \<leftarrow> load (q_cell s (FirstOf h));
     Some (set_cell (FirstOf h) (q_cell s (NextOf first)) s)
   }"

text \<open>The loop of the two \<^verbatim>\<open>REMOVE\<close> macros: the element whose successor is \<open>elm\<close>.\<close>

partial_function (option) pred_loop :: "('h, 'e) cells \<Rightarrow> 'e ptr \<Rightarrow> 'e \<Rightarrow> 'e option" where
  [code]: "pred_loop cs curelm elm =
     (case curelm of
        Null \<Rightarrow> None
      | Ptr c \<Rightarrow> if cs (NextOf c) = Ptr elm then Some c else pred_loop cs (cs (NextOf c)) elm)"

definition SLIST_REMOVE :: "'h \<Rightarrow> 'e \<Rightarrow> ('h, 'e) qheap \<Rightarrow> ('h, 'e) qheap option" where
  "SLIST_REMOVE h elm s =
     (if q_cell s (FirstOf h) = Ptr elm then SLIST_REMOVE_HEAD h s
      else do {
        curelm \<leftarrow> pred_loop (q_cell s) (q_cell s (FirstOf h)) elm;
        SLIST_REMOVE_AFTER curelm s
      })"

subsection \<open>\<^verbatim>\<open>STAILQ\<close>\<close>

definition STAILQ_EMPTY :: "'h \<Rightarrow> ('h, 'e) qheap \<Rightarrow> bool" where
  "STAILQ_EMPTY h s \<longleftrightarrow> q_cell s (FirstOf h) = Null"

definition STAILQ_FIRST :: "'h \<Rightarrow> ('h, 'e) qheap \<Rightarrow> 'e ptr" where
  "STAILQ_FIRST h s = q_cell s (FirstOf h)"

definition STAILQ_NEXT :: "'e \<Rightarrow> ('h, 'e) qheap \<Rightarrow> 'e ptr" where
  "STAILQ_NEXT e s = q_cell s (NextOf e)"

definition STAILQ_INIT :: "'h \<Rightarrow> ('h, 'e) qheap \<Rightarrow> ('h, 'e) qheap" where
  "STAILQ_INIT h s = set_last h (FirstOf h) (set_cell (FirstOf h) Null s)"

definition STAILQ_CONCAT :: "'h \<Rightarrow> 'h \<Rightarrow> ('h, 'e) qheap \<Rightarrow> ('h, 'e) qheap" where
  "STAILQ_CONCAT h1 h2 s =
     (if \<not> STAILQ_EMPTY h2 s then
        (let s1 = set_cell (q_last s h1) (q_cell s (FirstOf h2)) s;
             s2 = set_last h1 (q_last s1 h2) s1
         in STAILQ_INIT h2 s2)
      else s)"

definition STAILQ_INSERT_AFTER :: "'h \<Rightarrow> 'e \<Rightarrow> 'e \<Rightarrow> ('h, 'e) qheap \<Rightarrow> ('h, 'e) qheap" where
  "STAILQ_INSERT_AFTER h tqelm elm s =
     (let s1 = set_cell (NextOf elm) (q_cell s (NextOf tqelm)) s;
          s2 = (if q_cell s1 (NextOf elm) = Null then set_last h (NextOf elm) s1 else s1)
      in set_cell (NextOf tqelm) (Ptr elm) s2)"

definition STAILQ_INSERT_HEAD :: "'h \<Rightarrow> 'e \<Rightarrow> ('h, 'e) qheap \<Rightarrow> ('h, 'e) qheap" where
  "STAILQ_INSERT_HEAD h elm s =
     (let s1 = set_cell (NextOf elm) (q_cell s (FirstOf h)) s;
          s2 = (if q_cell s1 (NextOf elm) = Null then set_last h (NextOf elm) s1 else s1)
      in set_cell (FirstOf h) (Ptr elm) s2)"

definition STAILQ_INSERT_TAIL :: "'h \<Rightarrow> 'e \<Rightarrow> ('h, 'e) qheap \<Rightarrow> ('h, 'e) qheap" where
  "STAILQ_INSERT_TAIL h elm s =
     (let s1 = set_cell (NextOf elm) Null s;
          s2 = set_cell (q_last s1 h) (Ptr elm) s1
      in set_last h (NextOf elm) s2)"

text \<open>\<^verbatim>\<open>STAILQ_LAST\<close> recovers the element from the address of its \<^verbatim>\<open>next\<close> field.\<close>

definition STAILQ_LAST :: "'h \<Rightarrow> ('h, 'e) qheap \<Rightarrow> 'e ptr option" where
  "STAILQ_LAST h s =
     (if STAILQ_EMPTY h s then Some Null
      else (case q_last s h of FirstOf g \<Rightarrow> None | NextOf e \<Rightarrow> Some (Ptr e)))"

definition STAILQ_REMOVE_HEAD :: "'h \<Rightarrow> ('h, 'e) qheap \<Rightarrow> ('h, 'e) qheap option" where
  "STAILQ_REMOVE_HEAD h s = do {
     first \<leftarrow> load (q_cell s (FirstOf h));
     let s1 = set_cell (FirstOf h) (q_cell s (NextOf first)) s;
     Some (if q_cell s1 (FirstOf h) = Null then set_last h (FirstOf h) s1 else s1)
   }"

definition STAILQ_REMOVE_AFTER :: "'h \<Rightarrow> 'e \<Rightarrow> ('h, 'e) qheap \<Rightarrow> ('h, 'e) qheap option" where
  "STAILQ_REMOVE_AFTER h elm s = do {
     nxt \<leftarrow> load (q_cell s (NextOf elm));
     let s1 = set_cell (NextOf elm) (q_cell s (NextOf nxt)) s;
     Some (if q_cell s1 (NextOf elm) = Null then set_last h (NextOf elm) s1 else s1)
   }"

definition STAILQ_REMOVE :: "'h \<Rightarrow> 'e \<Rightarrow> ('h, 'e) qheap \<Rightarrow> ('h, 'e) qheap option" where
  "STAILQ_REMOVE h elm s =
     (if q_cell s (FirstOf h) = Ptr elm then STAILQ_REMOVE_HEAD h s
      else do {
        curelm \<leftarrow> pred_loop (q_cell s) (q_cell s (FirstOf h)) elm;
        STAILQ_REMOVE_AFTER h curelm s
      })"

definition STAILQ_SWAP :: "'h \<Rightarrow> 'h \<Rightarrow> ('h, 'e) qheap \<Rightarrow> ('h, 'e) qheap" where
  "STAILQ_SWAP h1 h2 s =
     (let swap_first = q_cell s (FirstOf h1);
          swap_last = q_last s h1;
          s1 = set_cell (FirstOf h1) (q_cell s (FirstOf h2)) s;
          s2 = set_last h1 (q_last s1 h2) s1;
          s3 = set_cell (FirstOf h2) swap_first s2;
          s4 = set_last h2 swap_last s3;
          s5 = (if STAILQ_EMPTY h1 s4 then set_last h1 (FirstOf h1) s4 else s4)
      in if STAILQ_EMPTY h2 s5 then set_last h2 (FirstOf h2) s5 else s5)"

subsection \<open>\<^verbatim>\<open>LIST\<close>\<close>

definition LIST_EMPTY :: "'h \<Rightarrow> ('h, 'e) qheap \<Rightarrow> bool" where
  "LIST_EMPTY h s \<longleftrightarrow> q_cell s (FirstOf h) = Null"

definition LIST_INIT :: "'h \<Rightarrow> ('h, 'e) qheap \<Rightarrow> ('h, 'e) qheap" where
  "LIST_INIT h s = set_cell (FirstOf h) Null s"

text \<open>Storing into the \<^verbatim>\<open>prev\<close> field of an element behind a pointer, if there is one.\<close>

definition set_prev_of :: "'e ptr \<Rightarrow> ('h, 'e) cell \<Rightarrow> ('h, 'e) qheap \<Rightarrow> ('h, 'e) qheap" where
  "set_prev_of p c s = (case p of Null \<Rightarrow> s | Ptr e \<Rightarrow> set_prev e c s)"

definition LIST_INSERT_AFTER :: "'e \<Rightarrow> 'e \<Rightarrow> ('h, 'e) qheap \<Rightarrow> ('h, 'e) qheap" where
  "LIST_INSERT_AFTER listelm elm s =
     (let s1 = set_cell (NextOf elm) (q_cell s (NextOf listelm)) s;
          s2 = set_prev_of (q_cell s1 (NextOf listelm)) (NextOf elm) s1;
          s3 = set_cell (NextOf listelm) (Ptr elm) s2
      in set_prev elm (NextOf listelm) s3)"

definition LIST_INSERT_BEFORE :: "'e \<Rightarrow> 'e \<Rightarrow> ('h, 'e) qheap \<Rightarrow> ('h, 'e) qheap" where
  "LIST_INSERT_BEFORE listelm elm s =
     (let s1 = set_prev elm (q_prev s listelm) s;
          s2 = set_cell (NextOf elm) (Ptr listelm) s1;
          s3 = set_cell (q_prev s2 listelm) (Ptr elm) s2
      in set_prev listelm (NextOf elm) s3)"

definition LIST_INSERT_HEAD :: "'h \<Rightarrow> 'e \<Rightarrow> ('h, 'e) qheap \<Rightarrow> ('h, 'e) qheap" where
  "LIST_INSERT_HEAD h elm s =
     (let s1 = set_cell (NextOf elm) (q_cell s (FirstOf h)) s;
          s2 = set_prev_of (q_cell s1 (FirstOf h)) (NextOf elm) s1;
          s3 = set_cell (FirstOf h) (Ptr elm) s2
      in set_prev elm (FirstOf h) s3)"

definition LIST_REMOVE :: "'e \<Rightarrow> ('h, 'e) qheap \<Rightarrow> ('h, 'e) qheap" where
  "LIST_REMOVE elm s =
     (let s1 = set_prev_of (q_cell s (NextOf elm)) (q_prev s elm) s
      in set_cell (q_prev s1 elm) (q_cell s1 (NextOf elm)) s1)"

definition LIST_SWAP :: "'h \<Rightarrow> 'h \<Rightarrow> ('h, 'e) qheap \<Rightarrow> ('h, 'e) qheap" where
  "LIST_SWAP h1 h2 s =
     (let swap_tmp = q_cell s (FirstOf h1);
          s1 = set_cell (FirstOf h1) (q_cell s (FirstOf h2)) s;
          s2 = set_cell (FirstOf h2) swap_tmp s1;
          s3 = set_prev_of (q_cell s2 (FirstOf h1)) (FirstOf h1) s2
      in set_prev_of (q_cell s3 (FirstOf h2)) (FirstOf h2) s3)"


subsection \<open>\<^verbatim>\<open>TAILQ\<close>\<close>

definition TAILQ_EMPTY :: "'h \<Rightarrow> ('h, 'e) qheap \<Rightarrow> bool" where
  "TAILQ_EMPTY h s \<longleftrightarrow> q_cell s (FirstOf h) = Null"

definition TAILQ_FIRST :: "'h \<Rightarrow> ('h, 'e) qheap \<Rightarrow> 'e ptr" where
  "TAILQ_FIRST h s = q_cell s (FirstOf h)"

definition TAILQ_NEXT :: "'e \<Rightarrow> ('h, 'e) qheap \<Rightarrow> 'e ptr" where
  "TAILQ_NEXT e s = q_cell s (NextOf e)"

definition TAILQ_INIT :: "'h \<Rightarrow> ('h, 'e) qheap \<Rightarrow> ('h, 'e) qheap" where
  "TAILQ_INIT h s = set_last h (FirstOf h) (set_cell (FirstOf h) Null s)"

definition TAILQ_CONCAT :: "'h \<Rightarrow> 'h \<Rightarrow> ('h, 'e) qheap \<Rightarrow> ('h, 'e) qheap" where
  "TAILQ_CONCAT h1 h2 s =
     (if \<not> TAILQ_EMPTY h2 s then
        (let s1 = set_cell (q_last s h1) (q_cell s (FirstOf h2)) s;
             s2 = set_prev_of (q_cell s1 (FirstOf h2)) (q_last s1 h1) s1;
             s3 = set_last h1 (q_last s2 h2) s2
         in TAILQ_INIT h2 s3)
      else s)"

definition TAILQ_INSERT_AFTER :: "'h \<Rightarrow> 'e \<Rightarrow> 'e \<Rightarrow> ('h, 'e) qheap \<Rightarrow> ('h, 'e) qheap" where
  "TAILQ_INSERT_AFTER h listelm elm s =
     (let s1 = set_cell (NextOf elm) (q_cell s (NextOf listelm)) s;
          s2 = (case q_cell s1 (NextOf elm) of
                  Null \<Rightarrow> set_last h (NextOf elm) s1
                | Ptr n \<Rightarrow> set_prev n (NextOf elm) s1);
          s3 = set_cell (NextOf listelm) (Ptr elm) s2
      in set_prev elm (NextOf listelm) s3)"

definition TAILQ_INSERT_BEFORE :: "'e \<Rightarrow> 'e \<Rightarrow> ('h, 'e) qheap \<Rightarrow> ('h, 'e) qheap" where
  "TAILQ_INSERT_BEFORE listelm elm s =
     (let s1 = set_prev elm (q_prev s listelm) s;
          s2 = set_cell (NextOf elm) (Ptr listelm) s1;
          s3 = set_cell (q_prev s2 listelm) (Ptr elm) s2
      in set_prev listelm (NextOf elm) s3)"

definition TAILQ_INSERT_HEAD :: "'h \<Rightarrow> 'e \<Rightarrow> ('h, 'e) qheap \<Rightarrow> ('h, 'e) qheap" where
  "TAILQ_INSERT_HEAD h elm s =
     (let s1 = set_cell (NextOf elm) (q_cell s (FirstOf h)) s;
          s2 = (case q_cell s1 (NextOf elm) of
                  Null \<Rightarrow> set_last h (NextOf elm) s1
                | Ptr f \<Rightarrow> set_prev f (NextOf elm) s1);
          s3 = set_cell (FirstOf h) (Ptr elm) s2
      in set_prev elm (FirstOf h) s3)"

definition TAILQ_INSERT_TAIL :: "'h \<Rightarrow> 'e \<Rightarrow> ('h, 'e) qheap \<Rightarrow> ('h, 'e) qheap" where
  "TAILQ_INSERT_TAIL h elm s =
     (let s1 = set_cell (NextOf elm) Null s;
          s2 = set_prev elm (q_last s1 h) s1;
          s3 = set_cell (q_last s2 h) (Ptr elm) s2
      in set_last h (NextOf elm) s3)"

text \<open>
  \<^verbatim>\<open>TAILQ_LAST\<close> and \<^verbatim>\<open>TAILQ_PREV\<close> read the entry that contains a cell as a head: its second
  field is \<^verbatim>\<open>tqh_last\<close> or, in an element, \<^verbatim>\<open>tqe_prev\<close>.
\<close>

definition second_field :: "('h, 'e) cell \<Rightarrow> ('h, 'e) qheap \<Rightarrow> ('h, 'e) cell" where
  "second_field c s = (case c of FirstOf h \<Rightarrow> q_last s h | NextOf e \<Rightarrow> q_prev s e)"

definition TAILQ_LAST :: "'h \<Rightarrow> ('h, 'e) qheap \<Rightarrow> 'e ptr" where
  "TAILQ_LAST h s = q_cell s (second_field (q_last s h) s)"

definition TAILQ_PREV :: "'e \<Rightarrow> ('h, 'e) qheap \<Rightarrow> 'e ptr" where
  "TAILQ_PREV e s = q_cell s (second_field (q_prev s e) s)"

definition TAILQ_REMOVE :: "'h \<Rightarrow> 'e \<Rightarrow> ('h, 'e) qheap \<Rightarrow> ('h, 'e) qheap" where
  "TAILQ_REMOVE h elm s =
     (let s1 = (case q_cell s (NextOf elm) of
                  Null \<Rightarrow> set_last h (q_prev s elm) s
                | Ptr n \<Rightarrow> set_prev n (q_prev s elm) s)
      in set_cell (q_prev s1 elm) (q_cell s1 (NextOf elm)) s1)"

definition TAILQ_SWAP :: "'h \<Rightarrow> 'h \<Rightarrow> ('h, 'e) qheap \<Rightarrow> ('h, 'e) qheap" where
  "TAILQ_SWAP h1 h2 s =
     (let swap_first = q_cell s (FirstOf h1);
          swap_last = q_last s h1;
          s1 = set_cell (FirstOf h1) (q_cell s (FirstOf h2)) s;
          s2 = set_last h1 (q_last s1 h2) s1;
          s3 = set_cell (FirstOf h2) swap_first s2;
          s4 = set_last h2 swap_last s3;
          s5 = (case q_cell s4 (FirstOf h1) of
                  Null \<Rightarrow> set_last h1 (FirstOf h1) s4
                | Ptr f \<Rightarrow> set_prev f (FirstOf h1) s4)
      in case q_cell s5 (FirstOf h2) of
           Null \<Rightarrow> set_last h2 (FirstOf h2) s5
         | Ptr f \<Rightarrow> set_prev f (FirstOf h2) s5)"

subsection \<open>Loops over a queue\<close>

text \<open>
  The elements a \<^verbatim>\<open>FOREACH\<close> loop visits, from a pointer on. The loop of a corrupted queue may
  not end: that is \<^term>\<open>None\<close>.
\<close>

partial_function (option) foreach_from :: "('h, 'e) cells \<Rightarrow> 'e ptr \<Rightarrow> 'e list option" where
  [code]: "foreach_from cs var =
     (case var of
        Null \<Rightarrow> Some []
      | Ptr e \<Rightarrow> do { es \<leftarrow> foreach_from cs (cs (NextOf e)); Some (e # es) })"

definition FOREACH :: "'h \<Rightarrow> ('h, 'e) qheap \<Rightarrow> 'e list option" where
  "FOREACH h s = foreach_from (q_cell s) (q_cell s (FirstOf h))"


section \<open>Linked segments\<close>

lemmas q_updates = set_cell_def set_last_def set_prev_def

text \<open>The cell that points to the element after \<open>xs\<close>, and the cells that lead through \<open>xs\<close>.\<close>

fun end_cell :: "('h, 'e) cell \<Rightarrow> 'e list \<Rightarrow> ('h, 'e) cell" where
  "end_cell c [] = c"
| "end_cell c (x # xs) = end_cell (NextOf x) xs"

fun lseg :: "('h, 'e) cells \<Rightarrow> ('h, 'e) cell \<Rightarrow> 'e list \<Rightarrow> bool" where
  "lseg cs c [] \<longleftrightarrow> True"
| "lseg cs c (x # xs) \<longleftrightarrow> cs c = Ptr x \<and> lseg cs (NextOf x) xs"

fun pseg :: "('e \<Rightarrow> ('h, 'e) cell) \<Rightarrow> ('h, 'e) cell \<Rightarrow> 'e list \<Rightarrow> bool" where
  "pseg pv c [] \<longleftrightarrow> True"
| "pseg pv c (x # xs) \<longleftrightarrow> pv x = c \<and> pseg pv (NextOf x) xs"

fun seg_cells :: "('h, 'e) cell \<Rightarrow> 'e list \<Rightarrow> ('h, 'e) cell set" where
  "seg_cells c [] = {}"
| "seg_cells c (x # xs) = insert c (seg_cells (NextOf x) xs)"

lemma end_cell_append [simp]: "end_cell c (xs @ ys) = end_cell (end_cell c xs) ys"
  by (induction xs arbitrary: c) auto

lemma end_cell_last: "xs \<noteq> [] \<Longrightarrow> end_cell c xs = NextOf (last xs)"
  by (induction xs arbitrary: c) auto

lemma lseg_append [simp]: "lseg cs c (xs @ ys) \<longleftrightarrow> lseg cs c xs \<and> lseg cs (end_cell c xs) ys"
  by (induction xs arbitrary: c) auto

lemma pseg_append [simp]: "pseg pv c (xs @ ys) \<longleftrightarrow> pseg pv c xs \<and> pseg pv (end_cell c xs) ys"
  by (induction xs arbitrary: c) auto

lemma seg_cells_append [simp]: "seg_cells c (xs @ ys) = seg_cells c xs \<union> seg_cells (end_cell c xs) ys"
  by (induction xs arbitrary: c) auto

lemma lseg_frame: "d \<notin> seg_cells c xs \<Longrightarrow> lseg (cs(d := v)) c xs = lseg cs c xs"
  by (induction xs arbitrary: c) auto

lemma pseg_frame: "x \<notin> set xs \<Longrightarrow> pseg (pv(x := c')) c xs = pseg pv c xs"
  by (induction xs arbitrary: c) auto

lemma NextOf_seg_cells:
  "NextOf y \<in> seg_cells c xs \<Longrightarrow> y \<in> set xs \<or> c = NextOf y"
  by (induction xs arbitrary: c) auto

lemma FirstOf_seg_cells: "FirstOf h \<in> seg_cells c xs \<Longrightarrow> c = FirstOf h"
  by (induction xs arbitrary: c) auto

lemma end_cell_not_in_seg:
  "distinct xs \<Longrightarrow> c \<notin> NextOf ` set xs \<Longrightarrow> end_cell c xs \<notin> seg_cells c xs"
proof (induction xs arbitrary: c)
  case (Cons x xs)
  have "end_cell (NextOf x) xs \<noteq> c" using Cons.prems by (cases xs rule: rev_cases) auto
  then show ?case using Cons by auto
qed simp

lemma seg_cells_fresh:
  "c \<notin> NextOf ` set ys \<Longrightarrow> set xs \<inter> set ys = {} \<Longrightarrow> y \<in> set ys \<Longrightarrow> NextOf y \<notin> seg_cells c xs"
  using NextOf_seg_cells [of y c xs] by auto


text \<open>A chain is a segment that ends with \<^verbatim>\<open>NULL\<close>.\<close>

fun chain :: "('h, 'e) cells \<Rightarrow> ('h, 'e) cell \<Rightarrow> 'e list \<Rightarrow> bool" where
  "chain cs c [] \<longleftrightarrow> cs c = Null"
| "chain cs c (x # xs) \<longleftrightarrow> cs c = Ptr x \<and> chain cs (NextOf x) xs"

lemma chain_append [simp]: "chain cs c (xs @ ys) \<longleftrightarrow> lseg cs c xs \<and> chain cs (end_cell c xs) ys"
  by (induction xs arbitrary: c) auto

lemma chain_cong:
  "cs' d = cs c \<Longrightarrow> (\<And>x. x \<in> set xs \<Longrightarrow> cs' (NextOf x) = cs (NextOf x)) \<Longrightarrow> chain cs' d xs = chain cs c xs"
  by (induction xs arbitrary: c d) auto

lemma chain_Null: "chain cs c xs \<Longrightarrow> cs (end_cell c xs) = Null"
  by (induction xs arbitrary: c) auto

lemma chain_hd: "chain cs c xs \<Longrightarrow> cs c = (case xs of [] \<Rightarrow> Null | x # _ \<Rightarrow> Ptr x)"
  by (cases xs) auto

lemma foreach_chain: "chain cs c xs \<Longrightarrow> foreach_from cs (cs c) = Some xs"
  by (induction xs arbitrary: c) (simp_all add: foreach_from.simps)

lemma end_cell_First_cases: "end_cell (FirstOf h) xs = FirstOf h \<and> xs = [] \<or>
  xs \<noteq> [] \<and> last xs \<in> set xs \<and> end_cell (FirstOf h) xs = NextOf (last xs)"
  using end_cell_last [of xs "FirstOf h"] last_in_set [of xs] by (cases "xs = []") auto

text \<open>Linking one element in after \<open>xs\<close>, and unlinking it.\<close>

lemma chain_insert:
  assumes ch: "chain cs (FirstOf h) (xs @ ys)" and d: "distinct (xs @ ys)" and e: "e \<notin> set (xs @ ys)"
    and c: "c = end_cell (FirstOf h) xs"
  shows "chain (cs(NextOf e := cs c, c := Ptr e)) (FirstOf h) (xs @ e # ys)"
proof -
  have ce: "c \<noteq> NextOf e" and cy: "c \<notin> NextOf ` set ys"
    using end_cell_First_cases [of h xs] c d e by auto
  have "c \<notin> seg_cells (FirstOf h) xs" unfolding c using d by (intro end_cell_not_in_seg) auto
  moreover have "NextOf e \<notin> seg_cells (FirstOf h) xs" using e NextOf_seg_cells [of e "FirstOf h" xs] by auto
  ultimately have "lseg (cs(NextOf e := cs c, c := Ptr e)) (FirstOf h) xs"
    using ch by (simp add: lseg_frame)
  moreover have "chain (cs(NextOf e := cs c, c := Ptr e)) (NextOf e) ys = chain cs c ys"
    using ce cy e by (intro chain_cong) auto
  ultimately show ?thesis using ch c by simp
qed

lemma chain_delete:
  assumes ch: "chain cs (FirstOf h) (xs @ e # ys)" and d: "distinct (xs @ e # ys)"
    and c: "c = end_cell (FirstOf h) xs"
  shows "chain (cs(c := cs (NextOf e))) (FirstOf h) (xs @ ys)"
proof -
  have cy: "c \<notin> NextOf ` set ys" using end_cell_First_cases [of h xs] c d by auto
  have "c \<notin> seg_cells (FirstOf h) xs" unfolding c using d by (intro end_cell_not_in_seg) auto
  then have "lseg (cs(c := cs (NextOf e))) (FirstOf h) xs" using ch by (simp add: lseg_frame)
  moreover have "chain (cs(c := cs (NextOf e))) c ys = chain cs (NextOf e) ys"
    using cy by (intro chain_cong) auto
  ultimately show ?thesis using ch c by simp
qed

lemma pseg_cong: "(\<And>x. x \<in> set xs \<Longrightarrow> pv' x = pv x) \<Longrightarrow> pseg pv' c xs = pseg pv c xs"
  by (induction xs arbitrary: c) auto

lemma pseg_insert:
  assumes "pseg pv c0 (xs @ ys)" "distinct (xs @ ys)" "e \<notin> set (xs @ ys)" "c = end_cell c0 xs"
  shows "pseg ((case ys of [] \<Rightarrow> pv | y # _ \<Rightarrow> pv(y := NextOf e))(e := c)) c0 (xs @ e # ys)"
  using assms by (cases ys) (auto simp: pseg_frame)

lemma pseg_delete:
  assumes "pseg pv c0 (xs @ e # ys)" "distinct (xs @ e # ys)" "c = end_cell c0 xs"
  shows "pseg (case ys of [] \<Rightarrow> pv | y # _ \<Rightarrow> pv(y := c)) c0 (xs @ ys)"
  using assms by (cases ys) (auto simp: pseg_frame)


section \<open>What the macros do to the list of elements\<close>

definition slist_rep :: "('h, 'e) qheap \<Rightarrow> 'h \<Rightarrow> 'e list \<Rightarrow> bool" where
  "slist_rep s h xs \<longleftrightarrow> chain (q_cell s) (FirstOf h) xs \<and> distinct xs"

definition stailq_rep :: "('h, 'e) qheap \<Rightarrow> 'h \<Rightarrow> 'e list \<Rightarrow> bool" where
  "stailq_rep s h xs \<longleftrightarrow> slist_rep s h xs \<and> q_last s h = end_cell (FirstOf h) xs"

definition list_rep :: "('h, 'e) qheap \<Rightarrow> 'h \<Rightarrow> 'e list \<Rightarrow> bool" where
  "list_rep s h xs \<longleftrightarrow> slist_rep s h xs \<and> pseg (q_prev s) (FirstOf h) xs"

definition tailq_rep :: "('h, 'e) qheap \<Rightarrow> 'h \<Rightarrow> 'e list \<Rightarrow> bool" where
  "tailq_rep s h xs \<longleftrightarrow> stailq_rep s h xs \<and> pseg (q_prev s) (FirstOf h) xs"

lemma FOREACH_rep: "slist_rep s h xs \<Longrightarrow> FOREACH h s = Some xs"
  by (simp add: FOREACH_def slist_rep_def foreach_chain)

lemma rep_first: "slist_rep s h xs \<Longrightarrow> q_cell s (FirstOf h) = (case xs of [] \<Rightarrow> Null | x # _ \<Rightarrow> Ptr x)"
  by (simp add: slist_rep_def chain_hd)

lemma chain_next: "chain cs c (xs @ x # ys) \<Longrightarrow> cs (NextOf x) = (case ys of [] \<Rightarrow> Null | y # _ \<Rightarrow> Ptr y)"
  by (cases ys) auto

text \<open>The macros, each on the list it acts on.\<close>

lemma SLIST_INSERT_HEAD_rep:
  "slist_rep s h xs \<Longrightarrow> e \<notin> set xs \<Longrightarrow> slist_rep (SLIST_INSERT_HEAD h e s) h (e # xs)"
  using chain_insert [of "q_cell s" h "[]" xs e] by (simp add: slist_rep_def SLIST_INSERT_HEAD_def set_cell_def)

lemma SLIST_INSERT_AFTER_rep:
  "slist_rep s h (xs @ a # ys) \<Longrightarrow> e \<notin> set (xs @ a # ys) \<Longrightarrow>
   slist_rep (SLIST_INSERT_AFTER a e s) h (xs @ a # e # ys)"
  using chain_insert [of "q_cell s" h "xs @ [a]" ys e] by (auto simp: slist_rep_def SLIST_INSERT_AFTER_def set_cell_def)

lemma SLIST_REMOVE_HEAD_rep:
  "slist_rep s h (x # xs) \<Longrightarrow> \<exists>s'. SLIST_REMOVE_HEAD h s = Some s' \<and> slist_rep s' h xs"
  using chain_delete [of "q_cell s" h "[]" x xs]
  by (simp add: slist_rep_def SLIST_REMOVE_HEAD_def set_cell_def load_def)

lemma SLIST_REMOVE_AFTER_rep:
  "slist_rep s h (xs @ a # e # ys) \<Longrightarrow> \<exists>s'. SLIST_REMOVE_AFTER a s = Some s' \<and> slist_rep s' h (xs @ a # ys)"
  using chain_delete [of "q_cell s" h "xs @ [a]" e ys]
  by (simp add: slist_rep_def SLIST_REMOVE_AFTER_def set_cell_def load_def)

lemma pred_loop_chain:
  "chain cs c (xs @ a # e # ys) \<Longrightarrow> distinct (xs @ a # e # ys) \<Longrightarrow> pred_loop cs (cs c) e = Some a"
proof (induction xs arbitrary: c)
  case Nil
  then show ?case by (simp add: pred_loop.simps)
next
  case (Cons x xs)
  then have "cs (NextOf x) \<noteq> Ptr e" by (cases xs) auto
  then show ?case using Cons by (simp add: pred_loop.simps)
qed

lemma SLIST_REMOVE_rep:
  assumes r: "slist_rep s h (xs @ e # ys)"
  shows "\<exists>s'. SLIST_REMOVE h e s = Some s' \<and> slist_rep s' h (xs @ ys)"
proof (cases xs rule: rev_cases)
  case Nil
  then show ?thesis using r SLIST_REMOVE_HEAD_rep [of s h e ys] rep_first [OF r] by (simp add: SLIST_REMOVE_def)
next
  case (snoc zs a)
  then have "q_cell s (FirstOf h) \<noteq> Ptr e" using rep_first [OF r] r by (cases zs) (auto simp: slist_rep_def)
  moreover have "pred_loop (q_cell s) (q_cell s (FirstOf h)) e = Some a"
    using r snoc by (intro pred_loop_chain [of _ _ zs a e ys]) (simp_all add: slist_rep_def)
  ultimately show ?thesis using SLIST_REMOVE_AFTER_rep [of s h zs a e ys] r snoc by (simp add: SLIST_REMOVE_def)
qed


text \<open>\<^verbatim>\<open>STAILQ\<close>: the chain as before, and the cell that ends it.\<close>

lemma stailq_rep_slist [dest]: "stailq_rep s h xs \<Longrightarrow> slist_rep s h xs"
  by (simp add: stailq_rep_def)

lemma STAILQ_INIT_rep: "stailq_rep (STAILQ_INIT h s) h []"
  by (simp add: stailq_rep_def slist_rep_def STAILQ_INIT_def q_updates)

lemma STAILQ_EMPTY_rep: "stailq_rep s h xs \<Longrightarrow> STAILQ_EMPTY h s \<longleftrightarrow> xs = []"
  using rep_first [of s h xs] by (auto simp: STAILQ_EMPTY_def split: list.splits)

lemma STAILQ_FIRST_rep: "stailq_rep s h xs \<Longrightarrow> STAILQ_FIRST h s = (case xs of [] \<Rightarrow> Null | x # _ \<Rightarrow> Ptr x)"
  using rep_first [of s h xs] by (auto simp: STAILQ_FIRST_def)

lemma STAILQ_LAST_rep: "stailq_rep s h xs \<Longrightarrow>
  STAILQ_LAST h s = Some (if xs = [] then Null else Ptr (last xs))"
  using STAILQ_EMPTY_rep [of s h xs] end_cell_last [of xs "FirstOf h"]
  by (auto simp: STAILQ_LAST_def stailq_rep_def)

lemma STAILQ_INSERT_HEAD_rep:
  assumes r: "stailq_rep s h xs" and e: "e \<notin> set xs"
  shows "stailq_rep (STAILQ_INSERT_HEAD h e s) h (e # xs)"
  using chain_insert [of "q_cell s" h "[]" xs e] rep_first [of s h xs] r e
  by (cases xs) (simp_all add: stailq_rep_def slist_rep_def STAILQ_INSERT_HEAD_def q_updates)

lemma STAILQ_INSERT_TAIL_rep:
  assumes r: "stailq_rep s h xs" and e: "e \<notin> set xs"
  shows "stailq_rep (STAILQ_INSERT_TAIL h e s) h (xs @ [e])"
proof -
  have "end_cell (FirstOf h) xs \<noteq> NextOf e" using end_cell_First_cases [of h xs] e by auto
  moreover have "q_cell s (end_cell (FirstOf h) xs) = Null"
    using r chain_Null by (auto simp: stailq_rep_def slist_rep_def)
  ultimately show ?thesis
    using chain_insert [of "q_cell s" h xs "[]" e] r e
    by (simp add: stailq_rep_def slist_rep_def STAILQ_INSERT_TAIL_def q_updates)
qed

lemma STAILQ_INSERT_AFTER_rep:
  assumes r: "stailq_rep s h (xs @ a # ys)" and e: "e \<notin> set (xs @ a # ys)"
  shows "stailq_rep (STAILQ_INSERT_AFTER h a e s) h (xs @ a # e # ys)"
proof -
  have "slist_rep (STAILQ_INSERT_AFTER h a e s) h (xs @ a # e # ys)"
    using chain_insert [of "q_cell s" h "xs @ [a]" ys e] r e
    by (auto simp: stailq_rep_def slist_rep_def STAILQ_INSERT_AFTER_def Let_def q_updates)
  then show ?thesis
    using chain_next [of "q_cell s" "FirstOf h" xs a ys] r e
    by (cases ys) (auto simp: stailq_rep_def slist_rep_def STAILQ_INSERT_AFTER_def Let_def q_updates)
qed

lemma STAILQ_REMOVE_HEAD_rep:
  assumes r: "stailq_rep s h (x # xs)"
  obtains s' where "STAILQ_REMOVE_HEAD h s = Some s'" "stailq_rep s' h xs"
    "q_cell s' = (q_cell s)(FirstOf h := q_cell s (NextOf x))"
  using chain_delete [of "q_cell s" h "[]" x xs] chain_next [of "q_cell s" "FirstOf h" "[]" x xs] r
  by (cases xs) (simp_all add: stailq_rep_def slist_rep_def STAILQ_REMOVE_HEAD_def q_updates load_def)

lemma STAILQ_REMOVE_HEAD_next: "STAILQ_REMOVE_HEAD h s = Some s' \<Longrightarrow> STAILQ_NEXT x s' = STAILQ_NEXT x s"
  by (auto simp: STAILQ_REMOVE_HEAD_def STAILQ_NEXT_def q_updates bind_eq_Some_conv Let_def split: if_splits)

lemma STAILQ_REMOVE_AFTER_rep:
  assumes r: "stailq_rep s h (xs @ a # e # ys)"
  shows "\<exists>s'. STAILQ_REMOVE_AFTER h a s = Some s' \<and> stailq_rep s' h (xs @ a # ys)"
proof -
  let ?s = "set_cell (NextOf a) (q_cell s (NextOf e)) s"
  have ch: "chain (q_cell s) (FirstOf h) (xs @ a # e # ys)" using r by (simp add: stailq_rep_def slist_rep_def)
  have rep: "slist_rep ?s h (xs @ a # ys)"
    using chain_delete [of "q_cell s" h "xs @ [a]" e ys] r by (simp add: stailq_rep_def slist_rep_def set_cell_def)
  have a: "q_cell s (NextOf a) = Ptr e" using ch by simp
  have e: "q_cell s (NextOf e) = (case ys of [] \<Rightarrow> Null | y # _ \<Rightarrow> Ptr y)"
    using ch chain_next [of "q_cell s" "FirstOf h" "xs @ [a]" e ys] by simp
  have last: "q_last s h = end_cell (NextOf e) ys" using r by (simp add: stailq_rep_def)
  show ?thesis
  proof (cases ys)
    case Nil
    then have "STAILQ_REMOVE_AFTER h a s = Some (set_last h (NextOf a) ?s)"
      using a e by (simp add: STAILQ_REMOVE_AFTER_def load_def set_cell_def)
    moreover have "stailq_rep (set_last h (NextOf a) ?s) h (xs @ a # ys)"
      using rep Nil by (simp add: stailq_rep_def slist_rep_def set_last_def)
    ultimately show ?thesis by blast
  next
    case (Cons y zs)
    then have "STAILQ_REMOVE_AFTER h a s = Some ?s"
      using a e by (simp add: STAILQ_REMOVE_AFTER_def load_def set_cell_def)
    moreover have "stailq_rep ?s h (xs @ a # ys)"
      using rep Cons last by (simp add: stailq_rep_def set_cell_def)
    ultimately show ?thesis by blast
  qed
qed

lemma STAILQ_REMOVE_rep:
  assumes r: "stailq_rep s h (xs @ e # ys)"
  shows "\<exists>s'. STAILQ_REMOVE h e s = Some s' \<and> stailq_rep s' h (xs @ ys)"
proof (cases xs rule: rev_cases)
  case Nil
  then obtain s' where "STAILQ_REMOVE_HEAD h s = Some s'" "stailq_rep s' h ys"
    using r STAILQ_REMOVE_HEAD_rep [of s h e ys] by auto
  then show ?thesis using r Nil rep_first [of s h "e # ys"] by (auto simp: STAILQ_REMOVE_def)
next
  case (snoc zs a)
  then have "q_cell s (FirstOf h) \<noteq> Ptr e"
    using rep_first [of s h "xs @ e # ys"] r by (cases zs) (auto simp: stailq_rep_def slist_rep_def)
  moreover have "pred_loop (q_cell s) (q_cell s (FirstOf h)) e = Some a"
    using r snoc by (intro pred_loop_chain [of _ _ zs a e ys]) (simp_all add: stailq_rep_def slist_rep_def)
  ultimately show ?thesis using STAILQ_REMOVE_AFTER_rep [of s h zs a e ys] r snoc by (simp add: STAILQ_REMOVE_def)
qed


text \<open>Two queues with different heads and no element in common.\<close>

lemma chain_concat:
  assumes "chain cs (FirstOf h1) xs" "chain cs (FirstOf h2) ys" "h1 \<noteq> h2" "distinct (xs @ ys)"
    and c: "c = end_cell (FirstOf h1) xs"
  shows "chain (cs(c := cs (FirstOf h2), FirstOf h2 := Null)) (FirstOf h1) (xs @ ys)"
proof -
  let ?cs = "cs(c := cs (FirstOf h2), FirstOf h2 := Null)"
  have cy: "c \<notin> NextOf ` set ys" "c \<noteq> FirstOf h2"
    using end_cell_First_cases [of h1 xs] c assms(3,4) by auto
  have "c \<notin> seg_cells (FirstOf h1) xs" unfolding c using assms(4) by (intro end_cell_not_in_seg) auto
  moreover have "FirstOf h2 \<notin> seg_cells (FirstOf h1) xs"
    using FirstOf_seg_cells [of h2 "FirstOf h1" xs] assms(3) by auto
  moreover have "lseg cs (FirstOf h1) xs" using assms(1) chain_append [of cs "FirstOf h1" xs "[]"] by simp
  ultimately have "lseg ?cs (FirstOf h1) xs" by (simp add: lseg_frame)
  moreover have "chain ?cs c ys = chain cs (FirstOf h2) ys" using cy by (intro chain_cong) auto
  ultimately show ?thesis using assms(2) c by simp
qed

lemma chain_swap:
  assumes "chain cs (FirstOf h1) xs" "chain cs (FirstOf h2) ys"
  shows "chain (cs(FirstOf h1 := cs (FirstOf h2), FirstOf h2 := cs (FirstOf h1))) (FirstOf h1) ys"
    "chain (cs(FirstOf h1 := cs (FirstOf h2), FirstOf h2 := cs (FirstOf h1))) (FirstOf h2) xs"
proof -
  let ?cs = "cs(FirstOf h1 := cs (FirstOf h2), FirstOf h2 := cs (FirstOf h1))"
  have "chain ?cs (FirstOf h1) ys = chain cs (FirstOf h2) ys" by (intro chain_cong) auto
  then show "chain ?cs (FirstOf h1) ys" using assms by simp
  have "chain ?cs (FirstOf h2) xs = chain cs (FirstOf h1) xs" by (intro chain_cong) auto
  then show "chain ?cs (FirstOf h2) xs" using assms by simp
qed

lemma end_cell_start: "xs \<noteq> [] \<Longrightarrow> end_cell c xs = end_cell d xs"
  by (cases xs) auto

lemma STAILQ_CONCAT_rep:
  assumes r: "stailq_rep s h1 xs" "stailq_rep s h2 ys" and h: "h1 \<noteq> h2" and d: "distinct (xs @ ys)"
  shows "stailq_rep (STAILQ_CONCAT h1 h2 s) h1 (xs @ ys) \<and> stailq_rep (STAILQ_CONCAT h1 h2 s) h2 []"
proof (cases "ys = []")
  case True
  then show ?thesis using r STAILQ_EMPTY_rep [of s h2 ys] by (simp add: STAILQ_CONCAT_def)
next
  case False
  have "chain ((q_cell s)(end_cell (FirstOf h1) xs := q_cell s (FirstOf h2), FirstOf h2 := Null)) (FirstOf h1) (xs @ ys)"
    using r h d by (intro chain_concat) (simp_all add: stailq_rep_def slist_rep_def)
  then show ?thesis
    using False r h d STAILQ_EMPTY_rep [of s h2 ys] end_cell_start [of ys "FirstOf h2" "end_cell (FirstOf h1) xs"]
    by (simp add: STAILQ_CONCAT_def STAILQ_INIT_def Let_def q_updates stailq_rep_def slist_rep_def)
qed

lemma STAILQ_SWAP_rep:
  assumes r: "stailq_rep s h1 xs" "stailq_rep s h2 ys" and h: "h1 \<noteq> h2"
  shows "stailq_rep (STAILQ_SWAP h1 h2 s) h1 ys \<and> stailq_rep (STAILQ_SWAP h1 h2 s) h2 xs"
proof -
  have ch: "chain (q_cell s) (FirstOf h1) xs" "chain (q_cell s) (FirstOf h2) ys"
    using r by (simp_all add: stailq_rep_def slist_rep_def)
  have "q_cell (STAILQ_SWAP h1 h2 s) =
      (q_cell s)(FirstOf h1 := q_cell s (FirstOf h2), FirstOf h2 := q_cell s (FirstOf h1))"
    by (simp add: STAILQ_SWAP_def Let_def q_updates)
  moreover have "q_last (STAILQ_SWAP h1 h2 s) h1 = end_cell (FirstOf h1) ys"
    using r h chain_hd [OF ch(2)] end_cell_start [of ys "FirstOf h1" "FirstOf h2"]
    by (cases ys) (simp_all add: STAILQ_SWAP_def STAILQ_EMPTY_def Let_def q_updates stailq_rep_def)
  moreover have "q_last (STAILQ_SWAP h1 h2 s) h2 = end_cell (FirstOf h2) xs"
    using r h chain_hd [OF ch(1)] end_cell_start [of xs "FirstOf h1" "FirstOf h2"]
    by (cases xs) (simp_all add: STAILQ_SWAP_def STAILQ_EMPTY_def Let_def q_updates stailq_rep_def)
  ultimately show ?thesis
    using chain_swap [OF ch] r by (simp add: stailq_rep_def slist_rep_def)
qed

text \<open>A queue is untouched when another one, with other elements, changes.\<close>

lemma stailq_rep_frame:
  assumes "stailq_rep s h xs" "q_last s' h = q_last s h"
    "\<And>c. c = FirstOf h \<or> c \<in> NextOf ` set xs \<Longrightarrow> q_cell s' c = q_cell s c"
  shows "stailq_rep s' h xs"
  using assms chain_cong [of "q_cell s'" "FirstOf h" "q_cell s" "FirstOf h" xs]
  by (simp add: stailq_rep_def slist_rep_def)


subsection \<open>The doubly linked ones\<close>

lemma list_repD:
  assumes "list_rep s h xs"
  shows "chain (q_cell s) (FirstOf h) xs" "distinct xs" "pseg (q_prev s) (FirstOf h) xs"
  using assms by (simp_all add: list_rep_def slist_rep_def)

lemma list_repI:
  "chain (q_cell s) (FirstOf h) xs \<Longrightarrow> distinct xs \<Longrightarrow> pseg (q_prev s) (FirstOf h) xs \<Longrightarrow> list_rep s h xs"
  by (simp add: list_rep_def slist_rep_def)

text \<open>
  Inserting after \<open>xs\<close> and removing what follows \<open>xs\<close>, on all three kinds of fields at once.
\<close>

lemma list_insert_rep:
  assumes r: "list_rep s h (xs @ ys)" and e: "e \<notin> set (xs @ ys)" and c: "c = end_cell (FirstOf h) xs"
    and cell: "q_cell s' = (q_cell s)(NextOf e := q_cell s c, c := Ptr e)"
    and prev: "q_prev s' = (case q_cell s c of Null \<Rightarrow> q_prev s | Ptr y \<Rightarrow> (q_prev s)(y := NextOf e))(e := c)"
  shows "list_rep s' h (xs @ e # ys)"
proof (rule list_repI)
  note rs = list_repD [OF r]
  show "chain (q_cell s') (FirstOf h) (xs @ e # ys)" unfolding cell by (rule chain_insert [OF rs(1,2) e c])
  show "distinct (xs @ e # ys)" using rs(2) e by auto
  have "q_cell s c = (case ys of [] \<Rightarrow> Null | y # _ \<Rightarrow> Ptr y)"
    using rs(1) c chain_hd [of "q_cell s" c ys] by simp
  then have "q_prev s' = (case ys of [] \<Rightarrow> q_prev s | y # _ \<Rightarrow> (q_prev s)(y := NextOf e))(e := c)"
    unfolding prev by (cases ys) auto
  then show "pseg (q_prev s') (FirstOf h) (xs @ e # ys)" using pseg_insert [OF rs(3,2) e c] by (simp only:)
qed

lemma list_delete_rep:
  assumes r: "list_rep s h (xs @ e # ys)" and c: "c = end_cell (FirstOf h) xs"
    and cell: "q_cell s' = (q_cell s)(c := q_cell s (NextOf e))"
    and prev: "q_prev s' = (case q_cell s (NextOf e) of Null \<Rightarrow> q_prev s | Ptr y \<Rightarrow> (q_prev s)(y := c))"
  shows "list_rep s' h (xs @ ys)"
proof (rule list_repI)
  note rs = list_repD [OF r]
  show "chain (q_cell s') (FirstOf h) (xs @ ys)" unfolding cell by (rule chain_delete [OF rs(1,2) c])
  show "distinct (xs @ ys)" using rs(2) by auto
  have "q_cell s (NextOf e) = (case ys of [] \<Rightarrow> Null | y # _ \<Rightarrow> Ptr y)" by (rule chain_next [OF rs(1)])
  then have "q_prev s' = (case ys of [] \<Rightarrow> q_prev s | y # _ \<Rightarrow> (q_prev s)(y := c))"
    unfolding prev by (cases ys) auto
  then show "pseg (q_prev s') (FirstOf h) (xs @ ys)" using pseg_delete [OF rs(3,2) c] by (simp only:)
qed

lemma LIST_INSERT_HEAD_rep:
  "list_rep s h xs \<Longrightarrow> e \<notin> set xs \<Longrightarrow> list_rep (LIST_INSERT_HEAD h e s) h (e # xs)"
  by (rule list_insert_rep [of s h "[]" xs e "FirstOf h", simplified])
     (simp_all add: LIST_INSERT_HEAD_def Let_def set_prev_of_def q_updates split: ptr.splits)

lemma LIST_INSERT_AFTER_rep:
  assumes r: "list_rep s h (xs @ a # ys)" and e: "e \<notin> set (xs @ a # ys)"
  shows "list_rep (LIST_INSERT_AFTER a e s) h (xs @ a # e # ys)"
  using list_insert_rep [of s h "xs @ [a]" ys e "NextOf a" "LIST_INSERT_AFTER a e s"] r e
  by (auto simp: LIST_INSERT_AFTER_def Let_def set_prev_of_def q_updates split: ptr.splits)

lemma prev_is_end: "list_rep s h (xs @ e # ys) \<Longrightarrow> q_prev s e = end_cell (FirstOf h) xs"
  using list_repD(3) [of s h "xs @ e # ys"] by simp

lemma cell_at: "list_rep s h (xs @ e # ys) \<Longrightarrow> q_cell s (end_cell (FirstOf h) xs) = Ptr e"
  using list_repD(1) [of s h "xs @ e # ys"] by simp

lemma end_cell_neq: "e \<notin> set xs \<Longrightarrow> end_cell (FirstOf h) xs \<noteq> NextOf e"
  using end_cell_First_cases [of h xs] by auto

lemma LIST_INSERT_BEFORE_rep:
  assumes r: "list_rep s h (xs @ a # ys)" and e: "e \<notin> set (xs @ a # ys)"
  shows "list_rep (LIST_INSERT_BEFORE a e s) h (xs @ e # a # ys)"
  using list_insert_rep [of s h xs "a # ys" e "q_prev s a" "LIST_INSERT_BEFORE a e s"] r e
    prev_is_end [OF r] cell_at [OF r]
  by (auto simp: LIST_INSERT_BEFORE_def Let_def q_updates fun_upd_twist)

lemma LIST_REMOVE_rep:
  assumes r: "list_rep s h (xs @ e # ys)"
  shows "list_rep (LIST_REMOVE e s) h (xs @ ys)"
proof -
  have "q_cell s (NextOf e) \<noteq> Ptr e"
    using list_repD [OF r] chain_next [of "q_cell s" "FirstOf h" xs e ys] by (cases ys) auto
  then show ?thesis
    using prev_is_end [OF r]
    by (intro list_delete_rep [OF r, of "q_prev s e"])
       (auto simp: LIST_REMOVE_def Let_def set_prev_of_def q_updates split: ptr.splits)
qed


lemma tailq_list: "tailq_rep s h xs \<longleftrightarrow> list_rep s h xs \<and> q_last s h = end_cell (FirstOf h) xs"
  by (auto simp: tailq_rep_def list_rep_def stailq_rep_def)

lemma tailq_end: "tailq_rep s h xs \<Longrightarrow> q_cell s (end_cell (FirstOf h) xs) = Null"
  using list_repD(1) [of s h xs] chain_Null by (auto simp: tailq_list)

lemma TAILQ_INIT_rep: "tailq_rep (TAILQ_INIT h s) h []"
  by (simp add: tailq_list list_rep_def slist_rep_def TAILQ_INIT_def q_updates)

lemma TAILQ_EMPTY_rep: "tailq_rep s h xs \<Longrightarrow> TAILQ_EMPTY h s \<longleftrightarrow> xs = []"
  using list_repD(1) [of s h xs] chain_hd by (fastforce simp: TAILQ_EMPTY_def tailq_list split: list.splits)

lemma TAILQ_FIRST_rep: "tailq_rep s h xs \<Longrightarrow> TAILQ_FIRST h s = (case xs of [] \<Rightarrow> Null | x # _ \<Rightarrow> Ptr x)"
  using list_repD(1) [of s h xs] chain_hd by (fastforce simp: TAILQ_FIRST_def tailq_list)

lemma TAILQ_NEXT_rep:
  "tailq_rep s h (xs @ x # ys) \<Longrightarrow> TAILQ_NEXT x s = (case ys of [] \<Rightarrow> Null | y # _ \<Rightarrow> Ptr y)"
  using list_repD(1) [of s h "xs @ x # ys"] chain_next [of "q_cell s" "FirstOf h" xs x ys]
  by (simp add: TAILQ_NEXT_def tailq_list)

text \<open>\<^verbatim>\<open>TAILQ_LAST\<close> and \<^verbatim>\<open>TAILQ_PREV\<close> work in spite of reading an element as a head.\<close>

lemma second_field_end:
  assumes r: "tailq_rep s h (xs @ ys)"
  shows "q_cell s (second_field (end_cell (FirstOf h) xs) s) = (if xs = [] then Null else Ptr (last xs))"
proof (cases xs rule: rev_cases)
  case Nil
  then show ?thesis using r tailq_end [OF r] by (simp add: second_field_def tailq_list)
next
  case (snoc zs a)
  then have "list_rep s h (zs @ a # ys)" using r by (simp add: tailq_list)
  then show ?thesis using snoc prev_is_end cell_at by (fastforce simp: second_field_def)
qed

lemma TAILQ_LAST_rep: "tailq_rep s h xs \<Longrightarrow> TAILQ_LAST h s = (if xs = [] then Null else Ptr (last xs))"
  using second_field_end [of s h xs "[]"] by (simp add: TAILQ_LAST_def tailq_list)

lemma TAILQ_PREV_rep:
  "tailq_rep s h (xs @ x # ys) \<Longrightarrow> TAILQ_PREV x s = (if xs = [] then Null else Ptr (last xs))"
  using second_field_end [of s h xs "x # ys"] prev_is_end [of s h xs x ys] by (simp add: TAILQ_PREV_def tailq_list)

lemma TAILQ_INSERT_HEAD_rep:
  assumes r: "tailq_rep s h xs" and e: "e \<notin> set xs"
  shows "tailq_rep (TAILQ_INSERT_HEAD h e s) h (e # xs)"
proof -
  have "list_rep (TAILQ_INSERT_HEAD h e s) h ([] @ e # xs)"
    by (rule list_insert_rep [of s h "[]" xs e "FirstOf h"])
       (use r e in \<open>simp_all add: tailq_list TAILQ_INSERT_HEAD_def Let_def q_updates split: ptr.splits\<close>)
  moreover have "q_last (TAILQ_INSERT_HEAD h e s) h = end_cell (FirstOf h) (e # xs)"
    using r TAILQ_FIRST_rep [OF r]
    by (cases xs) (simp_all add: tailq_list TAILQ_FIRST_def TAILQ_INSERT_HEAD_def Let_def q_updates)
  ultimately show ?thesis by (simp add: tailq_list)
qed

lemma TAILQ_INSERT_TAIL_rep:
  assumes r: "tailq_rep s h xs" and e: "e \<notin> set xs"
  shows "tailq_rep (TAILQ_INSERT_TAIL h e s) h (xs @ [e])"
proof -
  have last: "q_last s h = end_cell (FirstOf h) xs" "end_cell (FirstOf h) xs \<noteq> NextOf e"
    using r end_cell_neq [OF e] by (simp_all add: tailq_list)
  have "list_rep (TAILQ_INSERT_TAIL h e s) h (xs @ e # [])"
    by (rule list_insert_rep [of s h xs "[]" e "q_last s h"])
       (use r e last tailq_end [OF r] in \<open>simp_all add: tailq_list TAILQ_INSERT_TAIL_def Let_def q_updates\<close>)
  then show ?thesis by (simp add: tailq_list TAILQ_INSERT_TAIL_def Let_def q_updates)
qed

lemma TAILQ_INSERT_AFTER_rep:
  assumes r: "tailq_rep s h (xs @ a # ys)" and e: "e \<notin> set (xs @ a # ys)"
  shows "tailq_rep (TAILQ_INSERT_AFTER h a e s) h (xs @ a # e # ys)"
proof -
  have "list_rep (TAILQ_INSERT_AFTER h a e s) h ((xs @ [a]) @ e # ys)"
    by (rule list_insert_rep [of s h "xs @ [a]" ys e "NextOf a"])
       (use r e in \<open>auto simp: tailq_list TAILQ_INSERT_AFTER_def Let_def q_updates split: ptr.splits\<close>)
  moreover have "q_last (TAILQ_INSERT_AFTER h a e s) h = end_cell (FirstOf h) (xs @ a # e # ys)"
    using r TAILQ_NEXT_rep [OF r]
    by (cases ys) (simp_all add: tailq_list TAILQ_NEXT_def TAILQ_INSERT_AFTER_def Let_def q_updates)
  ultimately show ?thesis by (simp add: tailq_list)
qed

lemma TAILQ_INSERT_BEFORE_rep:
  assumes r: "tailq_rep s h (xs @ a # ys)" and e: "e \<notin> set (xs @ a # ys)"
  shows "tailq_rep (TAILQ_INSERT_BEFORE a e s) h (xs @ e # a # ys)"
proof -
  have "TAILQ_INSERT_BEFORE a e s = LIST_INSERT_BEFORE a e s"
    by (simp add: TAILQ_INSERT_BEFORE_def LIST_INSERT_BEFORE_def)
  then show ?thesis using LIST_INSERT_BEFORE_rep [of s h xs a ys e] r e
    by (simp add: tailq_list LIST_INSERT_BEFORE_def Let_def q_updates)
qed

lemma TAILQ_REMOVE_rep:
  assumes r: "tailq_rep s h (xs @ e # ys)"
  shows "tailq_rep (TAILQ_REMOVE h e s) h (xs @ ys)"
proof -
  have l: "list_rep s h (xs @ e # ys)" using r by (simp add: tailq_list)
  have next': "q_cell s (NextOf e) = (case ys of [] \<Rightarrow> Null | y # _ \<Rightarrow> Ptr y)"
    using TAILQ_NEXT_rep [OF r] by (simp add: TAILQ_NEXT_def)
  have ne: "ys = y # zs \<Longrightarrow> y \<noteq> e" for y zs using list_repD(2) [OF l] by auto
  have "list_rep (TAILQ_REMOVE h e s) h (xs @ ys)"
    by (rule list_delete_rep [OF l, of "q_prev s e"])
       (use prev_is_end [OF l] next' ne in \<open>cases ys; simp add: TAILQ_REMOVE_def Let_def q_updates\<close>)+
  moreover have "q_last (TAILQ_REMOVE h e s) h = end_cell (FirstOf h) (xs @ ys)"
    using r next' prev_is_end [OF l]
    by (cases ys) (simp_all add: tailq_list TAILQ_REMOVE_def Let_def q_updates)
  ultimately show ?thesis by (simp add: tailq_list)
qed


lemma pseg_restart:
  "pseg pv c xs \<Longrightarrow> distinct xs \<Longrightarrow> pseg (case xs of [] \<Rightarrow> pv | x # _ \<Rightarrow> pv(x := d)) d xs"
  by (cases xs) (auto simp: pseg_frame)

lemma pseg_swap:
  fixes pv :: "'e \<Rightarrow> ('h, 'e) cell"
  assumes xs: "pseg pv c xs" "distinct xs" and ys: "pseg pv d ys" "distinct ys" and dj: "set xs \<inter> set ys = {}"
  defines "p1 c' \<equiv> case ys of [] \<Rightarrow> pv | y # _ \<Rightarrow> pv(y := c')"
  shows "pseg (case xs of [] \<Rightarrow> p1 c' | x # _ \<Rightarrow> (p1 c')(x := d')) c' ys \<and>
         pseg (case xs of [] \<Rightarrow> p1 c' | x # _ \<Rightarrow> (p1 c')(x := d')) d' xs"
proof -
  have "pseg (p1 c') c' ys" "pseg (p1 c') c xs"
    using pseg_restart [OF ys, of c'] xs(1) dj by (cases ys; simp add: p1_def pseg_frame)+
  then show ?thesis using pseg_restart [OF _ xs(2), of "p1 c'" c d'] dj by (cases xs) (auto simp: pseg_frame)
qed

text \<open>What the macros do to one queue leaves a queue with other elements alone.\<close>

lemma tailq_rep_frame:
  assumes "tailq_rep s h xs" "q_last s' h = q_last s h" "q_cell s' (FirstOf h) = q_cell s (FirstOf h)"
    "\<And>x. x \<in> set xs \<Longrightarrow> q_cell s' (NextOf x) = q_cell s (NextOf x)" "\<And>x. x \<in> set xs \<Longrightarrow> q_prev s' x = q_prev s x"
  shows "tailq_rep s' h xs"
proof -
  have "stailq_rep s' h xs" using assms by (intro stailq_rep_frame [of s h xs s']) (auto simp: tailq_rep_def)
  moreover have "pseg (q_prev s') (FirstOf h) xs" using assms(1,5) pseg_cong [of xs "q_prev s'" "q_prev s"] by (simp add: tailq_rep_def)
  ultimately show ?thesis by (simp add: tailq_rep_def)
qed

lemma TAILQ_INSERT_TAIL_frame:
  assumes r: "tailq_rep s h xs" and g: "tailq_rep s g ys" "g \<noteq> h" and d: "set xs \<inter> set ys = {}" "e \<notin> set ys"
  shows "tailq_rep (TAILQ_INSERT_TAIL h e s) g ys"
proof -
  have "q_last s h = FirstOf h \<or> q_last s h \<in> NextOf ` set xs"
    using r end_cell_First_cases [of h xs] by (auto simp: tailq_list)
  then show ?thesis
    using g d by (intro tailq_rep_frame [OF g(1)]) (auto simp: TAILQ_INSERT_TAIL_def Let_def q_updates)
qed

lemma TAILQ_REMOVE_frame:
  assumes r: "tailq_rep s h (xs @ e # ys)" and g: "tailq_rep s g zs" "g \<noteq> h" and d: "set (xs @ e # ys) \<inter> set zs = {}"
  shows "tailq_rep (TAILQ_REMOVE h e s) g zs"
proof -
  have "q_prev s e = FirstOf h \<or> q_prev s e \<in> NextOf ` set xs"
    using prev_is_end [of s h xs e ys] r end_cell_First_cases [of h xs] by (auto simp: tailq_list)
  moreover have "q_cell s (NextOf e) = (case ys of [] \<Rightarrow> Null | y # _ \<Rightarrow> Ptr y)"
    using TAILQ_NEXT_rep [OF r] by (simp add: TAILQ_NEXT_def)
  ultimately show ?thesis
    using g d by (intro tailq_rep_frame [OF g(1)])
      (auto simp: TAILQ_REMOVE_def Let_def q_updates split: list.splits ptr.splits)
qed

lemma TAILQ_CONCAT_rep:
  assumes r: "tailq_rep s h1 xs" "tailq_rep s h2 ys" and h: "h1 \<noteq> h2" and d: "distinct (xs @ ys)"
  shows "tailq_rep (TAILQ_CONCAT h1 h2 s) h1 (xs @ ys) \<and> tailq_rep (TAILQ_CONCAT h1 h2 s) h2 []"
proof (cases ys)
  case Nil
  then show ?thesis using r TAILQ_EMPTY_rep [OF r(2)] by (simp add: TAILQ_CONCAT_def)
next
  case (Cons y zs)
  let ?c = "end_cell (FirstOf h1) xs" and ?s = "TAILQ_CONCAT h1 h2 s"
  have l: "list_rep s h1 xs" "list_rep s h2 ys" and last: "q_last s h1 = ?c" "q_last s h2 = end_cell (FirstOf h2) ys"
    using r by (simp_all add: tailq_list)
  have ne: "\<not> TAILQ_EMPTY h2 s" and y: "q_cell s (FirstOf h2) = Ptr y" and c: "?c \<noteq> FirstOf h2"
    using TAILQ_EMPTY_rep [OF r(2)] TAILQ_FIRST_rep [OF r(2)] Cons end_cell_First_cases [of h1 xs] h
    by (auto simp: TAILQ_FIRST_def)
  have s: "q_cell ?s = (q_cell s)(?c := q_cell s (FirstOf h2), FirstOf h2 := Null)"
    "q_prev ?s = (q_prev s)(y := ?c)"
    "q_last ?s = (q_last s)(h1 := q_last s h2, h2 := FirstOf h2)"
    using ne y c last
    by (simp_all add: TAILQ_CONCAT_def TAILQ_INIT_def Let_def set_prev_of_def q_updates)
  have "chain (q_cell ?s) (FirstOf h1) (xs @ ys)"
    unfolding s(1) using chain_concat [OF list_repD(1) [OF l(1)] list_repD(1) [OF l(2)] h d refl] .
  moreover have "pseg (q_prev ?s) (FirstOf h1) (xs @ ys)"
    unfolding s(2) using list_repD(3) [OF l(1)] pseg_restart [OF list_repD(3,2) [OF l(2)], of ?c] Cons d
    by (simp add: pseg_frame)
  ultimately show ?thesis
    using d Cons s(1,3) last h
    by (simp add: tailq_list list_rep_def slist_rep_def)
qed

lemma TAILQ_SWAP_rep:
  assumes r: "tailq_rep s h1 xs" "tailq_rep s h2 ys" and h: "h1 \<noteq> h2" and d: "set xs \<inter> set ys = {}"
  shows "tailq_rep (TAILQ_SWAP h1 h2 s) h1 ys \<and> tailq_rep (TAILQ_SWAP h1 h2 s) h2 xs"
proof -
  let ?s = "TAILQ_SWAP h1 h2 s"
  have l: "list_rep s h1 xs" "list_rep s h2 ys" and last: "q_last s h1 = end_cell (FirstOf h1) xs"
      "q_last s h2 = end_cell (FirstOf h2) ys"
    using r by (simp_all add: tailq_list)
  note f = TAILQ_FIRST_rep [OF r(1), unfolded TAILQ_FIRST_def] TAILQ_FIRST_rep [OF r(2), unfolded TAILQ_FIRST_def]
  have c: "q_cell ?s = (q_cell s)(FirstOf h1 := q_cell s (FirstOf h2), FirstOf h2 := q_cell s (FirstOf h1))"
    using h by (simp add: TAILQ_SWAP_def Let_def q_updates split: ptr.splits)
  let ?p1 = "case ys of [] \<Rightarrow> q_prev s | y # _ \<Rightarrow> (q_prev s)(y := FirstOf h1)"
  have p: "q_prev ?s = (case xs of [] \<Rightarrow> ?p1 | x # _ \<Rightarrow> ?p1(x := FirstOf h2))"
    using f h by (cases xs; cases ys) (simp_all add: TAILQ_SWAP_def Let_def q_updates)
  have q: "q_last ?s h1 = end_cell (FirstOf h1) ys" "q_last ?s h2 = end_cell (FirstOf h2) xs"
    using f h last by (cases xs; cases ys; simp add: TAILQ_SWAP_def Let_def q_updates)+
  from pseg_swap [OF list_repD(3,2) [OF l(1)] list_repD(3,2) [OF l(2)] d, of "FirstOf h1" "FirstOf h2"]
  have "pseg (q_prev ?s) (FirstOf h1) ys" "pseg (q_prev ?s) (FirstOf h2) xs" unfolding p by blast+
  then show ?thesis
    using chain_swap [OF list_repD(1) [OF l(1)] list_repD(1) [OF l(2)]] list_repD(2) [OF l(1)] list_repD(2) [OF l(2)] q
    unfolding tailq_list list_rep_def slist_rep_def c by simp
qed

lemma LIST_SWAP_rep:
  assumes l: "list_rep s h1 xs" "list_rep s h2 ys" and h: "h1 \<noteq> h2" and d: "set xs \<inter> set ys = {}"
  shows "list_rep (LIST_SWAP h1 h2 s) h1 ys \<and> list_rep (LIST_SWAP h1 h2 s) h2 xs"
proof -
  let ?s = "LIST_SWAP h1 h2 s"
  note f = chain_hd [OF list_repD(1) [OF l(1)]] chain_hd [OF list_repD(1) [OF l(2)]]
  have c: "q_cell ?s = (q_cell s)(FirstOf h1 := q_cell s (FirstOf h2), FirstOf h2 := q_cell s (FirstOf h1))"
    using h by (simp add: LIST_SWAP_def Let_def set_prev_of_def q_updates split: ptr.splits)
  let ?p1 = "case ys of [] \<Rightarrow> q_prev s | y # _ \<Rightarrow> (q_prev s)(y := FirstOf h1)"
  have p: "q_prev ?s = (case xs of [] \<Rightarrow> ?p1 | x # _ \<Rightarrow> ?p1(x := FirstOf h2))"
    using f h by (cases xs; cases ys) (simp_all add: LIST_SWAP_def Let_def set_prev_of_def q_updates)
  from pseg_swap [OF list_repD(3,2) [OF l(1)] list_repD(3,2) [OF l(2)] d, of "FirstOf h1" "FirstOf h2"]
  have "pseg (q_prev ?s) (FirstOf h1) ys" "pseg (q_prev ?s) (FirstOf h2) xs" unfolding p by blast+
  then show ?thesis
    using chain_swap [OF list_repD(1) [OF l(1)] list_repD(1) [OF l(2)]] list_repD(2) [OF l(1)] list_repD(2) [OF l(2)]
    unfolding list_rep_def slist_rep_def c by simp
qed


section \<open>The interface of a queue\<close>

text \<open>The operations a client may ask for, what they do to a list and when they may be used.\<close>

datatype 'e q_op =
  Q_Init | Q_InsertHead 'e | Q_InsertTail 'e | Q_InsertAfter 'e 'e | Q_RemoveHead | Q_Remove 'e

fun q_pre :: "'e q_op \<Rightarrow> 'e list \<Rightarrow> bool" where
  "q_pre Q_Init xs \<longleftrightarrow> True"
| "q_pre (Q_InsertHead e) xs \<longleftrightarrow> e \<notin> set xs"
| "q_pre (Q_InsertTail e) xs \<longleftrightarrow> e \<notin> set xs"
| "q_pre (Q_InsertAfter a e) xs \<longleftrightarrow> a \<in> set xs \<and> e \<notin> set xs"
| "q_pre Q_RemoveHead xs \<longleftrightarrow> xs \<noteq> []"
| "q_pre (Q_Remove e) xs \<longleftrightarrow> e \<in> set xs"

fun q_list :: "'e q_op \<Rightarrow> 'e list \<Rightarrow> 'e list" where
  "q_list Q_Init xs = []"
| "q_list (Q_InsertHead e) xs = e # xs"
| "q_list (Q_InsertTail e) xs = xs @ [e]"
| "q_list (Q_InsertAfter a e) xs =
     takeWhile (\<lambda>x. x \<noteq> a) xs @ a # e # tl (dropWhile (\<lambda>x. x \<noteq> a) xs)"
| "q_list Q_RemoveHead xs = tl xs"
| "q_list (Q_Remove e) xs = remove1 e xs"

fun q_script :: "'e q_op list \<Rightarrow> 'e list \<Rightarrow> bool" where
  "q_script [] xs \<longleftrightarrow> True"
| "q_script (op # ops) xs \<longleftrightarrow> q_pre op xs \<and> q_script ops (q_list op xs)"

fun q_run :: "('e q_op \<Rightarrow> 's \<Rightarrow> 's option) \<Rightarrow> 'e q_op list \<Rightarrow> 's \<Rightarrow> 's option" where
  "q_run step [] s = Some s"
| "q_run step (op # ops) s = step op s \<bind> q_run step ops"

locale list_queue =
  fixes step :: "'e q_op \<Rightarrow> 's \<Rightarrow> 's option"
    and rep :: "'s \<Rightarrow> 'e list \<Rightarrow> bool"
    and visit :: "'s \<Rightarrow> 'e list option"
  assumes step_rep: "rep s xs \<Longrightarrow> q_pre op xs \<Longrightarrow> \<exists>s'. step op s = Some s' \<and> rep s' (q_list op xs)"
    and visit_rep: "rep s xs \<Longrightarrow> visit s = Some xs"
begin

lemma run_rep:
  "rep s xs \<Longrightarrow> q_script ops xs \<Longrightarrow>
   \<exists>s'. q_run step ops s = Some s' \<and> rep s' (fold q_list ops xs) \<and> visit s' = Some (fold q_list ops xs)"
proof (induction ops arbitrary: s xs)
  case Nil
  then show ?case using visit_rep by simp
next
  case (Cons op ops)
  then obtain s1 where "step op s = Some s1" "rep s1 (q_list op xs)" using step_rep by fastforce
  then show ?case using Cons.IH Cons.prems by simp
qed

end

fun stailq_step :: "'h \<Rightarrow> 'e q_op \<Rightarrow> ('h, 'e) qheap \<Rightarrow> ('h, 'e) qheap option" where
  "stailq_step h Q_Init s = Some (STAILQ_INIT h s)"
| "stailq_step h (Q_InsertHead e) s = Some (STAILQ_INSERT_HEAD h e s)"
| "stailq_step h (Q_InsertTail e) s = Some (STAILQ_INSERT_TAIL h e s)"
| "stailq_step h (Q_InsertAfter a e) s = Some (STAILQ_INSERT_AFTER h a e s)"
| "stailq_step h Q_RemoveHead s = STAILQ_REMOVE_HEAD h s"
| "stailq_step h (Q_Remove e) s = STAILQ_REMOVE h e s"

text \<open>A tail queue has no macro of its own for removing the head: clients pass \<^verbatim>\<open>TAILQ_FIRST\<close>.\<close>

fun tailq_step :: "'h \<Rightarrow> 'e q_op \<Rightarrow> ('h, 'e) qheap \<Rightarrow> ('h, 'e) qheap option" where
  "tailq_step h Q_Init s = Some (TAILQ_INIT h s)"
| "tailq_step h (Q_InsertHead e) s = Some (TAILQ_INSERT_HEAD h e s)"
| "tailq_step h (Q_InsertTail e) s = Some (TAILQ_INSERT_TAIL h e s)"
| "tailq_step h (Q_InsertAfter a e) s = Some (TAILQ_INSERT_AFTER h a e s)"
| "tailq_step h Q_RemoveHead s = map_option (\<lambda>e. TAILQ_REMOVE h e s) (load (TAILQ_FIRST h s))"
| "tailq_step h (Q_Remove e) s = Some (TAILQ_REMOVE h e s)"

lemma split_at: "a \<in> set xs \<Longrightarrow> xs = takeWhile (\<lambda>x. x \<noteq> a) xs @ a # tl (dropWhile (\<lambda>x. x \<noteq> a) xs)"
  by (induction xs) auto

lemma remove1_cut: "e \<in> set xs \<Longrightarrow> distinct xs \<Longrightarrow> \<exists>ys zs. xs = ys @ e # zs \<and> remove1 e xs = ys @ zs"
  by (metis remove1_split)

interpretation stq: list_queue "stailq_step h" "\<lambda>s. stailq_rep s h" "FOREACH h" for h :: 'h
proof unfold_locales
  fix s :: "('h, 'e) qheap" and xs op
  assume r: "stailq_rep s h xs"
  show "FOREACH h s = Some xs" using r by (auto intro: FOREACH_rep)
  show "\<exists>s'. stailq_step h op s = Some s' \<and> stailq_rep s' h (q_list op xs)" if "q_pre op xs"
  proof (cases op)
    case (Q_InsertAfter a e)
    let ?p = "takeWhile (\<lambda>x. x \<noteq> a) xs" and ?q = "tl (dropWhile (\<lambda>x. x \<noteq> a) xs)"
    have "xs = ?p @ a # ?q" using that Q_InsertAfter by (intro split_at) simp
    then have "stailq_rep (STAILQ_INSERT_AFTER h a e s) h (?p @ a # e # ?q)"
      using STAILQ_INSERT_AFTER_rep [of s h ?p a ?q e] r that Q_InsertAfter by simp
    then show ?thesis using Q_InsertAfter by simp
  next
    case Q_RemoveHead
    then show ?thesis using that r by (cases xs) (auto elim: STAILQ_REMOVE_HEAD_rep)
  next
    case (Q_Remove e)
    moreover have "distinct xs" using r by (simp add: stailq_rep_def slist_rep_def)
    ultimately show ?thesis using that r remove1_cut [of e xs] STAILQ_REMOVE_rep by fastforce
  qed (use that r in \<open>simp_all add: STAILQ_INIT_rep STAILQ_INSERT_HEAD_rep STAILQ_INSERT_TAIL_rep\<close>)
qed

interpretation tq: list_queue "tailq_step h" "\<lambda>s. tailq_rep s h" "FOREACH h" for h :: 'h
proof unfold_locales
  fix s :: "('h, 'e) qheap" and xs op
  assume r: "tailq_rep s h xs"
  show "FOREACH h s = Some xs" using r by (auto intro: FOREACH_rep simp: tailq_rep_def)
  show "\<exists>s'. tailq_step h op s = Some s' \<and> tailq_rep s' h (q_list op xs)" if "q_pre op xs"
  proof (cases op)
    case (Q_InsertAfter a e)
    let ?p = "takeWhile (\<lambda>x. x \<noteq> a) xs" and ?q = "tl (dropWhile (\<lambda>x. x \<noteq> a) xs)"
    have "xs = ?p @ a # ?q" using that Q_InsertAfter by (intro split_at) simp
    then have "tailq_rep (TAILQ_INSERT_AFTER h a e s) h (?p @ a # e # ?q)"
      using TAILQ_INSERT_AFTER_rep [of s h ?p a ?q e] r that Q_InsertAfter by simp
    then show ?thesis using Q_InsertAfter by simp
  next
    case Q_RemoveHead
    then show ?thesis
      using that r TAILQ_FIRST_rep [OF r] TAILQ_REMOVE_rep [of s h "[]"] by (cases xs) (simp_all add: load_def)
  next
    case (Q_Remove e)
    moreover have "distinct xs" using r by (simp add: tailq_list list_rep_def slist_rep_def)
    ultimately show ?thesis using that r remove1_cut [of e xs] TAILQ_REMOVE_rep by fastforce
  qed (use that r in \<open>simp_all add: TAILQ_INIT_rep TAILQ_INSERT_HEAD_rep TAILQ_INSERT_TAIL_rep\<close>)
qed



section \<open>Properties\<close>

text \<open>C18: the singly linked tail queue is a list. Whatever sequence of initialisations, insertions at
  the head, at the tail and after an element, and removals is applied, as long as no element is
  inserted twice and what is removed is there, no \<^verbatim>\<open>NULL\<close> is dereferenced, the pointers represent
  the list those operations describe, and a traversal ends and visits exactly it, in order.\<close>

theorem stailq_refines_list:
  assumes "stailq_rep s h xs" and "q_script ops xs"
  shows "\<exists>s'. q_run (stailq_step h) ops s = Some s' \<and> stailq_rep s' h (fold q_list ops xs) \<and>
           FOREACH h s' = Some (fold q_list ops xs)"
  by (rule stq.run_rep [OF assms])

definition q_blank :: "(nat, nat) qheap" where
  "q_blank = \<lparr>q_cell = \<lambda>_. Null, q_last = FirstOf, q_prev = NextOf\<rparr>"

lemma q_blank_rep: "stailq_rep q_blank h []" "tailq_rep q_blank h []"
  by (simp_all add: q_blank_def stailq_rep_def tailq_rep_def slist_rep_def)

theorem stailq_refines_list_witness:
  "\<exists>s'. q_run (stailq_step 0)
      [Q_InsertTail 1, Q_InsertHead 2, Q_InsertAfter 2 3, Q_InsertTail 4, Q_Remove 1, Q_RemoveHead] q_blank = Some s' \<and>
     stailq_rep s' 0 [3, 4] \<and> FOREACH 0 s' = Some [3, 4]"
  using stailq_refines_list [OF q_blank_rep(1),
      of "[Q_InsertTail 1, Q_InsertHead 2, Q_InsertAfter 2 3, Q_InsertTail 4, Q_Remove 1, Q_RemoveHead]" 0]
  by simp

text \<open>C3: the doubly linked tail queue is a list in the same sense, and after any such sequence its
  \<^verbatim>\<open>TAILQ_LAST\<close> is the last element and \<^verbatim>\<open>TAILQ_PREV\<close> of any element the one before it,
  although both read an element's links as if they were a queue head.\<close>

theorem tailq_refines_list:
  assumes "tailq_rep s h xs" and "q_script ops xs"
  shows "\<exists>s'. q_run (tailq_step h) ops s = Some s' \<and> tailq_rep s' h (fold q_list ops xs) \<and>
           FOREACH h s' = Some (fold q_list ops xs) \<and>
           (\<forall>ys zs x. fold q_list ops xs = ys @ x # zs \<longrightarrow>
              TAILQ_PREV x s' = (if ys = [] then Null else Ptr (last ys)) \<and>
              TAILQ_LAST h s' = Ptr (last (x # zs)))"
proof -
  obtain s' where s: "q_run (tailq_step h) ops s = Some s'" "tailq_rep s' h (fold q_list ops xs)"
      "FOREACH h s' = Some (fold q_list ops xs)"
    using tq.run_rep [OF assms] by blast
  then have "TAILQ_PREV x s' = (if ys = [] then Null else Ptr (last ys)) \<and> TAILQ_LAST h s' = Ptr (last (x # zs))"
    if "fold q_list ops xs = ys @ x # zs" for ys zs x
    using TAILQ_PREV_rep [of s' h ys x zs] TAILQ_LAST_rep [OF s(2)] that by auto
  then show ?thesis using s by blast
qed

theorem tailq_refines_list_witness:
  "\<exists>s'. q_run (tailq_step 0) [Q_InsertTail 1, Q_InsertHead 2, Q_InsertAfter 2 3, Q_Remove 2] q_blank = Some s' \<and>
     FOREACH 0 s' = Some [3, 1] \<and> TAILQ_PREV 1 s' = Ptr 3 \<and> TAILQ_LAST 0 s' = Ptr 1"
proof -
  let ?ops = "[Q_InsertTail 1, Q_InsertHead 2, Q_InsertAfter 2 3, Q_Remove 2] :: nat q_op list"
  have l: "fold q_list ?ops [] = [3, 1]" and p: "q_script ?ops []" by simp_all
  from tailq_refines_list [OF q_blank_rep(2) p, of 0] show ?thesis
    unfolding l by (metis append_Cons append_Nil last.simps list.distinct(1))
qed

end
