(* ===== verification/Cc_Pool.thy ===== *)
theory Cc_Pool
  imports Cc_Queue Cc_Mm
begin

text \<open>
  The free pool of \<^verbatim>\<open>include/cc_pool.h\<close>, on which the buffer, connection, socket and timeout-event
  modules build. Its free queue is a \<^verbatim>\<open>STAILQ\<close> of theory \<open>Cc_Queue\<close>. The functions that create
  and destroy an object are arguments, as in the macros; the interface \<open>object_pool\<close> says what
  a pool needs of them, and its lemmas say what the pool then gives.

  An \<open>arena\<close> holds the objects of one module under their addresses, together with what the C
  allocator will answer: \<open>ar_alloc\<close> may depend on how many requests came before and on the
  addresses in use, and \<open>arena_ok\<close> states that it never hands out an address that is in use
  nor a block of the wrong size.
\<close>

section \<open>Objects under addresses\<close>

record 'o arena =
  ar_objs :: "nat \<rightharpoonup> 'o"
  ar_alloc :: "nat \<Rightarrow> nat set \<Rightarrow> u64 \<Rightarrow> (nat \<times> bytes) ptr"
  ar_tick :: nat

definition arena_ok :: "'o arena \<Rightarrow> bool" where
  "arena_ok w \<longleftrightarrow> (\<forall>t L n a b. ar_alloc w t L n = Ptr (a, b) \<longrightarrow> a \<notin> L \<and> length b = unat n)"

definition arena_request :: "u64 \<Rightarrow> 'o arena \<Rightarrow> (nat \<times> bytes) ptr \<times> 'o arena" where
  "arena_request n w =
     (if n = 0 then (Null, w)
      else (ar_alloc w (ar_tick w) (dom (ar_objs w)) n, w\<lparr>ar_tick := ar_tick w + 1\<rparr>))"

definition arena_put :: "nat \<Rightarrow> 'o \<Rightarrow> 'o arena \<Rightarrow> 'o arena" where
  "arena_put a x w = w\<lparr>ar_objs := (ar_objs w)(a \<mapsto> x)\<rparr>"

definition arena_free :: "nat \<Rightarrow> 'o arena \<Rightarrow> 'o arena" where
  "arena_free a w = w\<lparr>ar_objs := (ar_objs w)(a := None)\<rparr>"

lemma arena_ok_upd [simp]:
  "arena_ok (arena_put a x w) = arena_ok w" "arena_ok (arena_free a w) = arena_ok w"
  by (simp_all add: arena_ok_def arena_put_def arena_free_def)

lemma arena_objs_upd [simp]:
  "ar_objs (arena_put a x w) = (ar_objs w)(a \<mapsto> x)" "ar_objs (arena_free a w) = (ar_objs w)(a := None)"
  by (simp_all add: arena_put_def arena_free_def)

text \<open>An allocator that answers each request with the next address that is not in use.\<close>

definition arena_next :: "nat \<Rightarrow> nat set \<Rightarrow> u64 \<Rightarrow> (nat \<times> bytes) ptr" where
  "arena_next t live n = (if t \<in> live then Null else Ptr (t, replicate (unat n) 0))"

lemma arena_next_ok [simp]: "arena_ok \<lparr>ar_objs = m, ar_alloc = arena_next, ar_tick = t\<rparr>"
  by (simp add: arena_ok_def arena_next_def)

lemma arena_request_ok:
  assumes "arena_ok w" "arena_request n w = (r, w')"
  shows "arena_ok w'" "ar_objs w' = ar_objs w"
    "r = Ptr (a, b) \<Longrightarrow> a \<notin> dom (ar_objs w) \<and> length b = unat n \<and> n \<noteq> 0"
proof -
  show "arena_ok w'" "ar_objs w' = ar_objs w"
    using assms by (auto simp: arena_request_def arena_ok_def split: if_splits)
  show "a \<notin> dom (ar_objs w) \<and> length b = unat n \<and> n \<noteq> 0" if "r = Ptr (a, b)"
  proof -
    have "ar_alloc w (ar_tick w) (dom (ar_objs w)) n = Ptr (a, b)" "n \<noteq> 0"
      using assms(2) that by (auto simp: arena_request_def split: if_splits)
    then show ?thesis using assms(1) unfolding arena_ok_def by blast
  qed
qed


section \<open>The pool\<close>

record 'e pool =
  pl_freeq :: "(unit, 'e) qheap"
  pl_nfree :: u32
  pl_nused :: u32
  pl_nmax :: u32
  pl_initialized :: bool

definition FREEPOOL_CREATE :: "u32 \<Rightarrow> 'e pool \<Rightarrow> 'e pool option" where
  "FREEPOOL_CREATE mx p = do {
     ASSERT (\<not> pl_initialized p);
     Some (p\<lparr>pl_freeq := STAILQ_INIT () (pl_freeq p), pl_nmax := (if 0 < mx then mx else - 1),
             pl_nfree := 0, pl_nused := 0, pl_initialized := True\<rparr>)
   }"

partial_function (option) destroy_loop ::
  "('e \<Rightarrow> 'w \<Rightarrow> 'w option) \<Rightarrow> 'e ptr \<Rightarrow> 'e pool \<Rightarrow> 'w \<Rightarrow> ('e pool \<times> 'w) option" where
  [code]: "destroy_loop destroy var p w =
     (case var of
        Null \<Rightarrow> Some (p, w)
      | Ptr v \<Rightarrow> do {
          let tvar = STAILQ_NEXT v (pl_freeq p);
          q \<leftarrow> STAILQ_REMOVE_HEAD () (pl_freeq p);
          w' \<leftarrow> destroy v w;
          destroy_loop destroy tvar (p\<lparr>pl_freeq := q, pl_nfree := pl_nfree p - 1\<rparr>) w'
        })"

definition FREEPOOL_DESTROY ::
  "('e \<Rightarrow> 'w \<Rightarrow> 'w option) \<Rightarrow> 'e pool \<Rightarrow> 'w \<Rightarrow> ('e pool \<times> 'w) option" where
  "FREEPOOL_DESTROY destroy p w = do {
     ASSERT (pl_initialized p);
     ASSERT (pl_nused p = 0);
     (p', w') \<leftarrow> destroy_loop destroy (STAILQ_FIRST () (pl_freeq p)) p w;
     let p'' = p'\<lparr>pl_initialized := False\<rparr>;
     ASSERT (pl_nfree p'' = 0);
     ASSERT (STAILQ_EMPTY () (pl_freeq p''));
     Some (p'', w')
   }"

function prealloc_loop ::
  "('w \<Rightarrow> ('e ptr \<times> 'w) option) \<Rightarrow> u32 \<Rightarrow> 'e pool \<Rightarrow> 'w \<Rightarrow> ('e pool \<times> 'w) option" where
  "prealloc_loop create sz p w =
     (if pl_nfree p < sz then
        (case create w of
           None \<Rightarrow> None
         | Some (Null, w') \<Rightarrow> Some (p, w')
         | Some (Ptr e, w') \<Rightarrow>
             prealloc_loop create sz
               (p\<lparr>pl_freeq := STAILQ_INSERT_HEAD () e (pl_freeq p), pl_nfree := pl_nfree p + 1\<rparr>) w')
      else Some (p, w))"
  by pat_completeness auto
termination
proof (relation "measure (\<lambda>(create, sz, p, w). unat sz - unat (pl_nfree p))")
  fix create :: "'w \<Rightarrow> ('e ptr \<times> 'w) option" and sz and p :: "'e pool" and w e w' and x :: "'e ptr \<times> 'w"
  assume "pl_nfree p < sz"
  then have "unat (pl_nfree p) < unat sz" by (simp add: word_less_nat_alt)
  moreover then have "unat (pl_nfree p + 1) = unat (pl_nfree p) + 1"
    using unat_u32_lt [of sz] by (intro unat_add1_u32) linarith
  ultimately show "((create, sz, p\<lparr>pl_freeq := STAILQ_INSERT_HEAD () e (pl_freeq p), pl_nfree := pl_nfree p + 1\<rparr>, w'),
      (create, sz, p, w)) \<in> measure (\<lambda>(create, sz, p, w). unat sz - unat (pl_nfree p))"
    by simp
qed simp

declare prealloc_loop.simps [simp del]

definition FREEPOOL_PREALLOC ::
  "('w \<Rightarrow> ('e ptr \<times> 'w) option) \<Rightarrow> u32 \<Rightarrow> 'e pool \<Rightarrow> 'w \<Rightarrow> ('e pool \<times> 'w) option" where
  "FREEPOOL_PREALLOC create sz p w = do {
     ASSERT (pl_initialized p);
     prealloc_loop create sz p w
   }"

text \<open>The object a borrow picks, and then the accounting for it.\<close>

definition borrow_pick ::
  "('w \<Rightarrow> ('e ptr \<times> 'w) option) \<Rightarrow> 'e pool \<Rightarrow> 'w \<Rightarrow> ('e ptr \<times> 'e pool \<times> 'w) option" where
  "borrow_pick create p w =
     (if \<not> STAILQ_EMPTY () (pl_freeq p) then do {
        let var = STAILQ_FIRST () (pl_freeq p);
        q \<leftarrow> STAILQ_REMOVE_HEAD () (pl_freeq p);
        Some (var, p\<lparr>pl_freeq := q, pl_nfree := pl_nfree p - 1\<rparr>, w)
      } else if pl_nfree p + pl_nused p < pl_nmax p then do {
        (var, w') \<leftarrow> create w;
        Some (var, p, w')
      } else Some (Null, p, w))"

definition FREEPOOL_BORROW ::
  "('w \<Rightarrow> ('e ptr \<times> 'w) option) \<Rightarrow> 'e pool \<Rightarrow> 'w \<Rightarrow> ('e ptr \<times> 'e pool \<times> 'w) option" where
  "FREEPOOL_BORROW create p w = do {
     ASSERT (pl_initialized p);
     (var, p1, w1) \<leftarrow> borrow_pick create p w;
     Some (case var of
             Null \<Rightarrow> (Null, p1, w1)
           | Ptr v \<Rightarrow>
               (Ptr v, p1\<lparr>pl_nused := pl_nused p1 + 1,
                         pl_freeq := set_cell (NextOf v) Null (pl_freeq p1)\<rparr>, w1))
   }"

definition FREEPOOL_RETURN :: "'e \<Rightarrow> 'e pool \<Rightarrow> 'e pool option" where
  "FREEPOOL_RETURN v p = do {
     ASSERT (pl_initialized p);
     Some (p\<lparr>pl_freeq := STAILQ_INSERT_HEAD () v (pl_freeq p), pl_nfree := pl_nfree p + 1,
             pl_nused := pl_nused p - 1\<rparr>)
   }"


section \<open>The invariant\<close>

text \<open>\<open>fr\<close>: the free objects in the order of the queue; \<open>us\<close>: those that are borrowed.\<close>

definition pool_inv :: "'e pool \<Rightarrow> 'e list \<Rightarrow> 'e set \<Rightarrow> bool" where
  "pool_inv p fr us \<longleftrightarrow>
     pl_initialized p \<and> stailq_rep (pl_freeq p) () fr \<and> finite us \<and> set fr \<inter> us = {} \<and>
     unat (pl_nfree p) = length fr \<and> unat (pl_nused p) = card us \<and>
     length fr + card us \<le> unat (pl_nmax p)"

lemma pool_invD:
  assumes "pool_inv p fr us"
  shows "pl_initialized p" "stailq_rep (pl_freeq p) () fr" "finite us" "set fr \<inter> us = {}"
    "unat (pl_nfree p) = length fr" "unat (pl_nused p) = card us" "length fr + card us \<le> unat (pl_nmax p)"
    "distinct fr"
  using assms by (auto simp: pool_inv_def stailq_rep_def slist_rep_def)

lemma FREEPOOL_CREATE_inv:
  assumes "\<not> pl_initialized p"
  obtains p' where "FREEPOOL_CREATE mx p = Some p'" "pool_inv p' [] {}" "pl_nfree p' = 0"
    "pl_nmax p' = (if mx = 0 then - 1 else mx)"
  using assms by (auto simp: FREEPOOL_CREATE_def pool_inv_def STAILQ_INIT_rep word_neq_0_conv)

lemma u32_dec: "0 < unat a \<Longrightarrow> unat (a - 1) = unat a - 1" for a :: u32
  by (simp add: unat_sub word_le_nat_alt)

lemma FREEPOOL_RETURN_inv:
  assumes inv: "pool_inv p fr us" and v: "v \<in> us"
  obtains p' where "FREEPOOL_RETURN v p = Some p'" "pool_inv p' (v # fr) (us - {v})" "pl_nmax p' = pl_nmax p"
proof -
  note pis = pool_invD [OF inv]
  have us: "0 < card us" using v pis(3) by (auto simp: card_gt_0_iff)
  have "unat (pl_nfree p) < 4294967295" using pis(5,7) us unat_u32_lt [of "pl_nmax p"] by linarith
  then have "unat (pl_nfree p + 1) = unat (pl_nfree p) + 1" by (rule unat_add1_u32)
  moreover have "unat (pl_nused p - 1) = unat (pl_nused p) - 1" using us pis(6) by (simp add: u32_dec)
  moreover have "v \<notin> set fr" using v pis(4) by auto
  ultimately show ?thesis
    using pis us v that by (simp add: FREEPOOL_RETURN_def pool_inv_def STAILQ_INSERT_HEAD_rep disjoint_iff)
qed


lemma u32_below_max: "unat a < unat (m :: u32) \<Longrightarrow> unat (a + 1) = unat a + 1" for a :: u32
  using unat_u32_lt [of m] by (intro unat_add1_u32) linarith

text \<open>A free object is taken from the front of the queue, whatever \<open>create\<close> would do.\<close>

lemma FREEPOOL_BORROW_reuses:
  assumes inv: "pool_inv p (e # fr) us"
  obtains p' where "FREEPOOL_BORROW create p w = Some (Ptr e, p', w)" "pool_inv p' fr (insert e us)"
    "pl_nmax p' = pl_nmax p"
proof -
  note pis = pool_invD [OF inv]
  obtain q where q: "STAILQ_REMOVE_HEAD () (pl_freeq p) = Some q" "stailq_rep q () fr"
    using pis(2) by (rule STAILQ_REMOVE_HEAD_rep)
  have "stailq_rep (set_cell (NextOf e) Null q) () fr"
    by (rule stailq_rep_frame [OF q(2)]) (use pis(8) in \<open>auto simp: set_cell_def\<close>)
  moreover have "unat (pl_nfree p - 1) = length fr" using pis(5) u32_dec [of "pl_nfree p"] by simp
  moreover have "unat (pl_nused p + 1) = card us + 1"
    using pis(6,7) u32_below_max [of "pl_nused p" "pl_nmax p"] by simp
  moreover have "e \<notin> us" using pis(4) by auto
  ultimately have "pool_inv (p\<lparr>pl_nfree := pl_nfree p - 1, pl_nused := pl_nused p + 1,
      pl_freeq := set_cell (NextOf e) Null q\<rparr>) fr (insert e us)"
    using pis by (simp add: pool_inv_def)
  then show ?thesis
    using that pis(1) q(1) STAILQ_EMPTY_rep [OF pis(2)] STAILQ_FIRST_rep [OF pis(2)]
    by (simp add: FREEPOOL_BORROW_def borrow_pick_def)
qed

lemma FREEPOOL_BORROW_empty:
  assumes inv: "pool_inv p [] us"
  shows "FREEPOOL_BORROW create p w =
     (if card us < unat (pl_nmax p) then
        create w \<bind> (\<lambda>(r, w'). Some (case r of Null \<Rightarrow> (Null, p, w') | Ptr v \<Rightarrow>
          (Ptr v, p\<lparr>pl_nused := pl_nused p + 1, pl_freeq := set_cell (NextOf v) Null (pl_freeq p)\<rparr>, w')))
      else Some (Null, p, w))"
proof -
  note pis = pool_invD [OF inv]
  have "STAILQ_EMPTY () (pl_freeq p)" using STAILQ_EMPTY_rep [OF pis(2)] by simp
  moreover have "pl_nfree p = 0" using pis(5) by (simp add: unat_eq_zero)
  moreover have "pl_nused p < pl_nmax p \<longleftrightarrow> card us < unat (pl_nmax p)" using pis(6) by (simp add: word_less_nat_alt)
  ultimately show ?thesis
    using pis(1) by (auto simp: FREEPOOL_BORROW_def borrow_pick_def split: bind_splits)
qed

text \<open>The links of all other objects stay as they are, and that of the borrowed one is cleared.\<close>

lemma FREEPOOL_BORROW_links:
  assumes "FREEPOOL_BORROW create p w = Some (r, p', w')"
  shows "STAILQ_NEXT x (pl_freeq p') = (if r = Ptr x then Null else STAILQ_NEXT x (pl_freeq p))"
proof -
  from assms obtain v p1 w1 where pick: "borrow_pick create p w = Some (v, p1, w1)"
    and res: "(r, p', w') = (case v of Null \<Rightarrow> (Null, p1, w1) | Ptr v \<Rightarrow>
       (Ptr v, p1\<lparr>pl_nused := pl_nused p1 + 1, pl_freeq := set_cell (NextOf v) Null (pl_freeq p1)\<rparr>, w1))"
    by (auto simp: FREEPOOL_BORROW_def bind_eq_Some_conv split: if_splits)
  have "p1 = p \<or> STAILQ_REMOVE_HEAD () (pl_freeq p) = Some (pl_freeq p1)"
    using pick by (auto simp: borrow_pick_def bind_eq_Some_conv split: if_splits)
  then have "STAILQ_NEXT x (pl_freeq p1) = STAILQ_NEXT x (pl_freeq p)"
    by (auto dest: STAILQ_REMOVE_HEAD_next)
  then show ?thesis
    using res by (cases v) (auto simp: STAILQ_NEXT_def set_cell_def)
qed

lemma pool_inv_created:
  assumes inv: "pool_inv p [] us" and room: "card us < unat (pl_nmax p)" and e: "e \<notin> us"
  shows "pool_inv (p\<lparr>pl_nused := pl_nused p + 1, pl_freeq := set_cell (NextOf e) Null (pl_freeq p)\<rparr>) [] (insert e us)"
proof -
  note pis = pool_invD [OF inv]
  have "stailq_rep (set_cell (NextOf e) Null (pl_freeq p)) () []"
    by (rule stailq_rep_frame [OF pis(2)]) (auto simp: set_cell_def)
  moreover have "unat (pl_nused p + 1) = card us + 1"
    using pis(6) room u32_below_max [of "pl_nused p" "pl_nmax p"] by simp
  ultimately show ?thesis using pis room e by (simp add: pool_inv_def)
qed


section \<open>The interface of a pool of objects\<close>

text \<open>
  A client of the pool: it borrows, and it returns only what it has borrowed (\<open>us\<close>).
\<close>

datatype 'e pool_op = PBorrow | PReturn 'e

fun pool_run ::
  "('w \<Rightarrow> ('e ptr \<times> 'w) option) \<Rightarrow> 'e pool_op list \<Rightarrow> 'e pool \<Rightarrow> 'w \<Rightarrow> 'e list \<Rightarrow>
   ('e pool \<times> 'w \<times> 'e list) option" where
  "pool_run create [] p w us = Some (p, w, us)"
| "pool_run create (PBorrow # ops) p w us = do {
     (v, p', w') \<leftarrow> FREEPOOL_BORROW create p w;
     pool_run create ops p' w' (case v of Null \<Rightarrow> us | Ptr e \<Rightarrow> e # us)
   }"
| "pool_run create (PReturn e # ops) p w us =
     (if e \<in> set us then do {
        p' \<leftarrow> FREEPOOL_RETURN e p;
        pool_run create ops p' w (remove1 e us)
      } else pool_run create ops p w us)"

text \<open>
  What the pool needs of the functions that create and destroy an object in a world \<open>w\<close>: they
  return, a created object is new, and only the named object goes away.
\<close>

locale object_pool =
  fixes create :: "'w \<Rightarrow> ('e ptr \<times> 'w) option"
    and destroy :: "'e \<Rightarrow> 'w \<Rightarrow> 'w option"
    and live :: "'w \<Rightarrow> 'e set"
    and wok :: "'w \<Rightarrow> bool"
  assumes create_ok: "wok w \<Longrightarrow> \<exists>r w'. create w = Some (r, w') \<and> wok w' \<and>
      (r = Null \<and> live w' = live w \<or> (\<exists>e. r = Ptr e \<and> e \<notin> live w \<and> live w' = insert e (live w)))"
    and destroy_ok: "wok w \<Longrightarrow> e \<in> live w \<Longrightarrow> \<exists>w'. destroy e w = Some w' \<and> wok w' \<and> live w' = live w - {e}"
begin

lemma create_cases:
  assumes "wok w"
  obtains w' where "create w = Some (Null, w')" "wok w'" "live w' = live w"
  | e w' where "create w = Some (Ptr e, w')" "wok w'" "e \<notin> live w" "live w' = insert e (live w)"
  using create_ok [OF assms] by blast

text \<open>Borrowing: an object that nobody has borrowed, or none when the limit is reached or memory is short.\<close>

lemma borrow_cases:
  assumes inv: "pool_inv p fr us" and w: "wok w" and own: "set fr \<union> us \<subseteq> live w"
  obtains (reused) e fr' p' where "FREEPOOL_BORROW create p w = Some (Ptr e, p', w)" "fr = e # fr'"
      "pool_inv p' fr' (insert e us)" "pl_nmax p' = pl_nmax p"
  | (created) e p' w' where "FREEPOOL_BORROW create p w = Some (Ptr e, p', w')" "fr = []" "e \<notin> us"
      "wok w'" "live w' = insert e (live w)" "pool_inv p' [] (insert e us)" "pl_nmax p' = pl_nmax p"
      "create w = Some (Ptr e, w')"
  | (none) w' where "FREEPOOL_BORROW create p w = Some (Null, p, w')" "fr = []" "wok w'" "live w' = live w"
      "card us = unat (pl_nmax p) \<and> w' = w \<or> create w = Some (Null, w')"
proof (cases fr)
  case (Cons e fr')
  then show ?thesis using FREEPOOL_BORROW_reuses [of p e fr' us create w] inv reused by blast
next
  case Nil
  note b = FREEPOOL_BORROW_empty [of p us create w] and pis = pool_invD [OF inv]
  show ?thesis
  proof (cases "card us < unat (pl_nmax p)")
    case True
    from w show ?thesis
    proof (cases rule: create_cases)
      case (1 w')
      then show ?thesis using none [of w'] b inv Nil True by simp
    next
      case (2 e w')
      then have "e \<notin> us" using own by auto
      then show ?thesis using created [of e _ w'] pool_inv_created [of p us e] b inv Nil True 2 by simp
    qed
  next
    case False
    then have "card us = unat (pl_nmax p)" using pis(7) by simp
    then show ?thesis using none [of w] b inv Nil w by simp
  qed
qed

text \<open>Destroying the pool destroys every free object, and its assertions hold when nothing is borrowed.\<close>

lemma destroy_loop_all:
  "pool_inv p fr us \<Longrightarrow> wok w \<Longrightarrow> set fr \<subseteq> live w \<Longrightarrow>
   \<exists>p' w'. destroy_loop destroy (STAILQ_FIRST () (pl_freeq p)) p w = Some (p', w') \<and> pool_inv p' [] us \<and>
     wok w' \<and> live w' = live w - set fr"
proof (induction fr arbitrary: p w)
  case Nil
  then show ?case
    using STAILQ_FIRST_rep [OF pool_invD(2) [OF Nil(1)]] by (simp add: destroy_loop.simps)
next
  case (Cons e fr)
  note pis = pool_invD [OF Cons.prems(1)]
  obtain q where q: "STAILQ_REMOVE_HEAD () (pl_freeq p) = Some q" "stailq_rep q () fr"
      "q_cell q = (q_cell (pl_freeq p))(FirstOf () := q_cell (pl_freeq p) (NextOf e))"
    using pis(2) by (rule STAILQ_REMOVE_HEAD_rep)
  obtain w1 where w1: "destroy e w = Some w1" "wok w1" "live w1 = live w - {e}"
    using destroy_ok [of w e] Cons.prems by auto
  let ?p = "p\<lparr>pl_freeq := q, pl_nfree := pl_nfree p - 1\<rparr>"
  have "unat (pl_nfree p - 1) = length fr" using pis(5) u32_dec [of "pl_nfree p"] by simp
  then have "pool_inv ?p fr us" using pis q(2) by (simp add: pool_inv_def)
  moreover have "set fr \<subseteq> live w1" using w1(3) Cons.prems(3) pis(8) by auto
  ultimately obtain p' w' where r: "destroy_loop destroy (STAILQ_FIRST () q) ?p w1 = Some (p', w')"
      "pool_inv p' [] us" "wok w'" "live w' = live w1 - set fr"
    using Cons.IH [of ?p w1] w1(2) by auto
  have "STAILQ_FIRST () (pl_freeq p) = Ptr e" using STAILQ_FIRST_rep [OF pis(2)] by simp
  moreover have "STAILQ_NEXT e (pl_freeq p) = STAILQ_FIRST () q" using q(3) by (simp add: STAILQ_NEXT_def STAILQ_FIRST_def)
  ultimately have "destroy_loop destroy (STAILQ_FIRST () (pl_freeq p)) p w = Some (p', w')"
    using q(1) w1(1) r(1) by (simp add: destroy_loop.simps [of destroy "Ptr e"])
  then show ?case using r w1(3) by auto
qed

lemma destroy_all:
  assumes "pool_inv p fr {}" "wok w" "set fr \<subseteq> live w"
  shows "\<exists>p' w'. FREEPOOL_DESTROY destroy p w = Some (p', w') \<and> \<not> pl_initialized p' \<and>
           wok w' \<and> live w' = live w - set fr"
proof -
  obtain p' w' where r: "destroy_loop destroy (STAILQ_FIRST () (pl_freeq p)) p w = Some (p', w')"
      "pool_inv p' [] {}" "wok w'" "live w' = live w - set fr"
    using destroy_loop_all [OF assms] by blast
  note pis = pool_invD [OF assms(1)] and pis' = pool_invD [OF r(2)]
  have "pl_nused p = 0" "pl_nfree p' = 0" "STAILQ_EMPTY () (pl_freeq p')"
    using pis(6) pis'(5) STAILQ_EMPTY_rep [OF pis'(2)] by (simp_all add: unat_eq_zero)
  then show ?thesis using r pis(1) by (simp add: FREEPOOL_DESTROY_def)
qed

text \<open>Preallocation fills the queue up to the requested size, or stops where memory does.\<close>

lemma prealloc_fills:
  assumes "pool_inv p fr us" "wok w" "set fr \<union> us \<subseteq> live w" "unat sz + card us \<le> unat (pl_nmax p)"
  shows "\<exists>p' w' fr'. prealloc_loop create sz p w = Some (p', w') \<and> pool_inv p' fr' us \<and> wok w' \<and>
           set fr' \<union> us \<subseteq> live w' \<and> pl_nmax p' = pl_nmax p"
  using assms
proof (induction "unat sz - unat (pl_nfree p)" arbitrary: p fr w)
  case 0
  then have "\<not> pl_nfree p < sz" by (simp add: word_less_nat_alt)
  then show ?case using 0 by (auto simp: prealloc_loop.simps)
next
  case (Suc n)
  note pis = pool_invD [OF Suc.prems(1)]
  have lt: "pl_nfree p < sz" using Suc.hyps(2) by (simp add: word_less_nat_alt)
  from Suc.prems(2) show ?case
  proof (cases rule: create_cases)
    case (1 w')
    then show ?thesis using lt Suc.prems by (auto simp: prealloc_loop.simps)
  next
    case (2 e w')
    let ?p = "p\<lparr>pl_freeq := STAILQ_INSERT_HEAD () e (pl_freeq p), pl_nfree := pl_nfree p + 1\<rparr>"
    have nf: "unat (pl_nfree p + 1) = unat (pl_nfree p) + 1"
      using lt by (intro u32_below_max) (simp add: word_less_nat_alt)
    have e: "e \<notin> set fr" "e \<notin> us" using 2(3) Suc.prems(3) by auto
    then have "pool_inv ?p (e # fr) us"
      using pis nf Suc.hyps(2) Suc.prems(4) by (auto simp: pool_inv_def STAILQ_INSERT_HEAD_rep)
    moreover have "n = unat sz - unat (pl_nfree ?p)" using nf Suc.hyps(2) by simp
    moreover have "set (e # fr) \<union> us \<subseteq> live w'" using 2(4) Suc.prems(3) by auto
    ultimately have "\<exists>p' w'' fr'. prealloc_loop create sz ?p w' = Some (p', w'') \<and> pool_inv p' fr' us \<and> wok w'' \<and>
        set fr' \<union> us \<subseteq> live w'' \<and> pl_nmax p' = pl_nmax p"
      using Suc.hyps(1) [of ?p "e # fr" w'] 2(2) Suc.prems(4) by simp
    then show ?thesis using 2(1) lt by (subst prealloc_loop.simps) simp
  qed
qed


text \<open>Any sequence of borrows and returns: the borrowed objects stay distinct and within the limit.\<close>

lemma run_exclusive:
  "pool_inv p fr (set us) \<Longrightarrow> wok w \<Longrightarrow> set fr \<union> set us \<subseteq> live w \<Longrightarrow> distinct us \<Longrightarrow>
   \<exists>p' w' us' fr'. pool_run create ops p w us = Some (p', w', us') \<and> pool_inv p' fr' (set us') \<and> wok w' \<and>
     set fr' \<union> set us' \<subseteq> live w' \<and> distinct us' \<and> length us' \<le> unat (pl_nmax p) \<and> pl_nmax p' = pl_nmax p"
proof (induction ops arbitrary: p w us fr)
  case Nil
  then show ?case using pool_invD(7) [OF Nil.prems(1)] by (auto simp: distinct_card)
next
  case (Cons op ops)
  show ?case
  proof (cases op)
    case PBorrow
    from Cons.prems(1,2,3) show ?thesis
    proof (cases rule: borrow_cases)
      case (reused e fr' p')
      then have "e \<notin> set us" using pool_invD(4) [OF Cons.prems(1)] by auto
      then show ?thesis using Cons.IH [of p' fr' "e # us" w] Cons.prems reused PBorrow by auto
    next
      case (created e p' w')
      then have "set [] \<union> set (e # us) \<subseteq> live w'" using Cons.prems(3) by auto
      then show ?thesis using Cons.IH [of p' "[]" "e # us" w'] Cons.prems(4) created PBorrow by auto
    next
      case (none w')
      then show ?thesis using Cons.IH [of p "[]" us w'] Cons.prems PBorrow by auto
    qed
  next
    case (PReturn e)
    show ?thesis
    proof (cases "e \<in> set us")
      case True
      from Cons.prems(1) True obtain p' where p': "FREEPOOL_RETURN e p = Some p'"
          "pool_inv p' (e # fr) (set us - {e})" "pl_nmax p' = pl_nmax p"
        by (rule FREEPOOL_RETURN_inv)
      moreover have "set (remove1 e us) = set us - {e}" using Cons.prems(4) by simp
      moreover have "set (e # fr) \<union> set (remove1 e us) \<subseteq> live w"
        using Cons.prems(3) True set_remove1_subset [of e us] by auto
      ultimately show ?thesis
        using Cons.IH [of p' "e # fr" "remove1 e us" w] Cons.prems(2,4) True PReturn by auto
    next
      case False
      then show ?thesis using Cons PReturn by simp
    qed
  qed
qed

end

end
