(* ===== verification/Cc_Metric.thy ===== *)
theory Cc_Metric
  imports Cc_Prelude Complex_Main
begin

text \<open>
  The metrics of \<^verbatim>\<open>include/cc_metric.h\<close> and \<^verbatim>\<open>src/stats/cc_metric.c\<close>. A module's
  \<^verbatim>\<open>*_metrics_st\<close> structure is a function from the module's metric names (a datatype of that
  module) to \<open>metric\<close>; the module's pointer to it may be \<^term>\<open>Null\<close>, in which case the update
  macros do nothing. A counter and a gauge share the 64 bits of the union and are updated by
  atomic, wrapping additions; a gauge is read as two's complement.
\<close>

datatype metric_type = METRIC_COUNTER | METRIC_GAUGE | METRIC_FPN

record metric =
  m_type :: metric_type
  m_bits :: u64
  m_fpn :: real

type_synonym 'm metrics = "('m \<Rightarrow> metric) ptr"

definition metric_incr_n :: "metric \<Rightarrow> u64 \<Rightarrow> metric" where
  "metric_incr_n m delta =
     (if m_type m = METRIC_COUNTER then m\<lparr>m_bits := m_bits m + delta\<rparr>
      else if m_type m = METRIC_GAUGE then m\<lparr>m_bits := m_bits m + delta\<rparr>
      else m)"

definition metric_decr_n :: "metric \<Rightarrow> u64 \<Rightarrow> metric" where
  "metric_decr_n m delta =
     (if m_type m = METRIC_GAUGE then m\<lparr>m_bits := m_bits m - delta\<rparr> else m)"

definition INCR_N :: "'m metrics \<Rightarrow> 'm \<Rightarrow> u64 \<Rightarrow> 'm metrics" where
  "INCR_N base x delta =
     (case base of Null \<Rightarrow> Null | Ptr b \<Rightarrow> Ptr (b(x := metric_incr_n (b x) delta)))"

definition INCR :: "'m metrics \<Rightarrow> 'm \<Rightarrow> 'm metrics" where
  "INCR base x = INCR_N base x 1"

definition DECR_N :: "'m metrics \<Rightarrow> 'm \<Rightarrow> u64 \<Rightarrow> 'm metrics" where
  "DECR_N base x delta =
     (case base of Null \<Rightarrow> Null | Ptr b \<Rightarrow> Ptr (b(x := metric_decr_n (b x) delta)))"

definition DECR :: "'m metrics \<Rightarrow> 'm \<Rightarrow> 'm metrics" where
  "DECR base x = DECR_N base x 1"

text \<open>
  \<^verbatim>\<open>metric_update_val\<close>: the value as the three C conversions of the macro argument deliver it.
\<close>

definition metric_update_val :: "metric \<Rightarrow> u64 \<Rightarrow> u64 \<Rightarrow> real \<Rightarrow> metric" where
  "metric_update_val m as_u64 as_i64 as_dbl =
     (case m_type m of
        METRIC_COUNTER \<Rightarrow> m\<lparr>m_bits := as_u64\<rparr>
      | METRIC_GAUGE \<Rightarrow> m\<lparr>m_bits := as_i64\<rparr>
      | METRIC_FPN \<Rightarrow> m\<lparr>m_fpn := as_dbl\<rparr>)"

definition UPDATE_VAL :: "'m metrics \<Rightarrow> 'm \<Rightarrow> u64 \<Rightarrow> u64 \<Rightarrow> real \<Rightarrow> 'm metrics" where
  "UPDATE_VAL base x as_u64 as_i64 as_dbl =
     (case base of
        Null \<Rightarrow> Null
      | Ptr b \<Rightarrow> Ptr (b(x := metric_update_val (b x) as_u64 as_i64 as_dbl)))"

text \<open>\<^verbatim>\<open>METRIC_INIT\<close> zeroes the value and fixes the type.\<close>

definition METRIC_INIT :: "metric_type \<Rightarrow> metric" where
  "METRIC_INIT ty = \<lparr>m_type = ty, m_bits = 0, m_fpn = 0\<rparr>"

definition metric_reset1 :: "metric \<Rightarrow> metric" where
  "metric_reset1 m =
     (case m_type m of
        METRIC_COUNTER \<Rightarrow> m\<lparr>m_bits := 0\<rparr>
      | METRIC_GAUGE \<Rightarrow> m\<lparr>m_bits := 0\<rparr>
      | METRIC_FPN \<Rightarrow> m\<lparr>m_fpn := 0\<rparr>)"

text \<open>\<^verbatim>\<open>metric_reset\<close> on the first \<open>n\<close> entries of an array; an index past its end is undefined.\<close>

fun metric_reset_from :: "metric list \<Rightarrow> nat \<Rightarrow> nat \<Rightarrow> metric list option" where
  "metric_reset_from sarr i 0 = Some sarr"
| "metric_reset_from sarr i (Suc k) =
     (if i < length sarr
      then metric_reset_from (sarr[i := metric_reset1 (sarr ! i)]) (Suc i) k
      else None)"

definition metric_reset :: "metric list ptr \<Rightarrow> nat \<Rightarrow> metric list ptr option" where
  "metric_reset sarr n =
     (case sarr of
        Null \<Rightarrow> Some Null
      | Ptr s \<Rightarrow> map_option Ptr (metric_reset_from s 0 n))"

definition metric_type_str :: "metric_type \<Rightarrow> string" where
  "metric_type_str ty =
     (case ty of METRIC_COUNTER \<Rightarrow> ''counter'' | METRIC_GAUGE \<Rightarrow> ''gauge''
               | METRIC_FPN \<Rightarrow> ''floating point'')"


section \<open>Facts\<close>

definition gauge :: "metric \<Rightarrow> int" where
  "gauge m = sint (m_bits m)"

lemma INCR_Null [simp]: "INCR_N Null x d = Null" "INCR Null x = Null"
  "DECR_N Null x d = Null" "DECR Null x = Null"
  by (simp_all add: INCR_N_def INCR_def DECR_N_def DECR_def)

lemma metric_type_incr [simp]: "m_type (metric_incr_n m d) = m_type m"
  "m_type (metric_decr_n m d) = m_type m"
  by (simp_all add: metric_incr_n_def metric_decr_n_def)

lemma metric_incr_decr: "m_type m = METRIC_GAUGE \<Longrightarrow> metric_decr_n (metric_incr_n m d) d = m"
  by (simp add: metric_incr_n_def metric_decr_n_def)

lemma metric_reset_from_map:
  "i + k \<le> length sarr \<Longrightarrow>
   metric_reset_from sarr i k =
     Some (take i sarr @ map metric_reset1 (window sarr i k) @ drop (i + k) sarr)"
proof (induction k arbitrary: sarr i)
  case 0
  then show ?case by simp
next
  case (Suc k)
  then have i: "i < length sarr" by simp
  then have "window sarr i (Suc k) = sarr ! i # window sarr (Suc i) k"
    by (simp add: window_def Cons_nth_drop_Suc [symmetric])
  then show ?case
    using Suc i by (simp add: take_Suc_conv_app_nth window_def)
qed

end
