(* ===== verification/Cc_Rbuf.thy ===== *)
theory Cc_Rbuf
  imports Cc_Mm Cc_Metric
begin

text \<open>
  The byte ring buffer of \<^verbatim>\<open>src/cc_rbuf.c\<close> and \<^verbatim>\<open>include/cc_rbuf.h\<close>, its metrics included,
  and the interface \<open>byte_stream\<close>: what a client that appends and takes bytes may rely on.
  The positions and sizes keep the widths of the source (\<^verbatim>\<open>uint32_t\<close> positions, \<^verbatim>\<open>size_t\<close>
  counts), with the conversions where the C code has them.
\<close>

section \<open>Data and operations\<close>

datatype rbuf_metric = M_rbuf_create | M_rbuf_create_ex | M_rbuf_destroy | M_rbuf_curr | M_rbuf_byte

record rbuf =
  rb_rpos :: u32
  rb_wpos :: u32
  rb_cap :: u32
  rb_data :: bytes

text \<open>The module's static variables.\<close>

record rbuf_module =
  rbuf_metrics :: "rbuf_metric metrics"
  rbuf_init :: bool

definition rbuf_setup :: "rbuf_metric metrics \<Rightarrow> rbuf_module \<Rightarrow> rbuf_module" where
  "rbuf_setup metrics s = s\<lparr>rbuf_metrics := metrics, rbuf_init := True\<rparr>"

definition rbuf_teardown :: "rbuf_module \<Rightarrow> rbuf_module" where
  "rbuf_teardown s = s\<lparr>rbuf_metrics := Null, rbuf_init := False\<rparr>"

definition RBUF_HDR_SIZE :: u64 where
  "RBUF_HDR_SIZE = 12"

definition rbuf_create :: "malloc_fn \<Rightarrow> u32 \<Rightarrow> rbuf_module \<Rightarrow> rbuf ptr \<times> rbuf_module" where
  "rbuf_create malloc cap s =
     (case cc_alloc malloc (RBUF_HDR_SIZE + ucast cap + 1) of
        Null \<Rightarrow> (Null, s\<lparr>rbuf_metrics := INCR (rbuf_metrics s) M_rbuf_create_ex\<rparr>)
      | Ptr blk \<Rightarrow>
          (Ptr \<lparr>rb_rpos = 0, rb_wpos = 0, rb_cap = cap, rb_data = drop (unat RBUF_HDR_SIZE) blk\<rparr>,
           s\<lparr>rbuf_metrics :=
               INCR_N (INCR (INCR (rbuf_metrics s) M_rbuf_create) M_rbuf_curr) M_rbuf_byte
                 (RBUF_HDR_SIZE + ucast cap + 1)\<rparr>))"

definition rbuf_destroy :: "rbuf ptr ptr \<Rightarrow> rbuf_module \<Rightarrow> (rbuf ptr ptr \<times> rbuf_module) option" where
  "rbuf_destroy buf s =
     (case buf of
        Null \<Rightarrow> None
      | Ptr Null \<Rightarrow> Some (Ptr Null, s)
      | Ptr (Ptr b) \<Rightarrow>
          Some (Ptr Null,
            s\<lparr>rbuf_metrics :=
                DECR_N (DECR (INCR (rbuf_metrics s) M_rbuf_destroy) M_rbuf_curr) M_rbuf_byte
                  (RBUF_HDR_SIZE + ucast (rb_cap b) + 1)\<rparr>))"

definition rbuf_rcap :: "rbuf \<Rightarrow> u64" where
  "rbuf_rcap buf =
     (if rb_wpos buf < rb_rpos buf then ucast (rb_cap buf + rb_wpos buf - rb_rpos buf + 1)
      else ucast (rb_wpos buf - rb_rpos buf))"

definition rbuf_wcap :: "rbuf \<Rightarrow> u64" where
  "rbuf_wcap buf =
     (if rb_wpos buf < rb_rpos buf then ucast (rb_rpos buf - rb_wpos buf - 1)
      else ucast (rb_cap buf - rb_wpos buf + rb_rpos buf))"

text \<open>\<^verbatim>\<open>_min\<close> takes and returns \<^verbatim>\<open>uint32_t\<close>; its callers pass and store \<^verbatim>\<open>size_t\<close>.\<close>

definition rbuf_min :: "u32 \<Rightarrow> u32 \<Rightarrow> u32" where
  "rbuf_min a b = (if a < b then a else b)"

definition rbuf_read :: "bytes \<Rightarrow> rbuf \<Rightarrow> u64 \<Rightarrow> (u64 \<times> bytes \<times> rbuf) option" where
  "rbuf_read dst src n =
     (let rpos = rb_rpos src; wpos = rb_wpos src in
      if wpos < rpos then do {
        let capacity = (ucast (rb_cap src - rpos + 1) :: u64);
        let ret = (ucast (rbuf_min (ucast capacity) (ucast n)) :: u64);
        dst1 \<leftarrow> cc_memcpy dst 0 (rb_data src) (unat rpos) (unat ret);
        if ret < n then do {
          let capacity2 = (ucast wpos :: u64);
          let remaining_bytes = (ucast (rbuf_min (ucast capacity2) (ucast (n - ret))) :: u64);
          dst2 \<leftarrow> cc_memcpy dst1 (unat ret) (rb_data src) 0 (unat remaining_bytes);
          Some (ret + remaining_bytes, dst2, src\<lparr>rb_rpos := ucast remaining_bytes\<rparr>)
        } else Some (ret, dst1, src\<lparr>rb_rpos := ucast (ucast rpos + ret)\<rparr>)
      } else do {
        let capacity = (ucast (wpos - rpos) :: u64);
        let ret = (ucast (rbuf_min (ucast capacity) (ucast n)) :: u64);
        dst1 \<leftarrow> cc_memcpy dst 0 (rb_data src) (unat rpos) (unat ret);
        Some (ret, dst1, src\<lparr>rb_rpos := ucast (ucast rpos + ret)\<rparr>)
      })"

definition rbuf_write :: "rbuf \<Rightarrow> bytes \<Rightarrow> u64 \<Rightarrow> (u64 \<times> rbuf) option" where
  "rbuf_write dst src n =
     (let rpos = rb_rpos dst; wpos = rb_wpos dst in
      if wpos < rpos then do {
        let capacity = (ucast (rpos - wpos - 1) :: u64);
        let ret = (ucast (rbuf_min (ucast capacity) (ucast n)) :: u64);
        d1 \<leftarrow> cc_memcpy (rb_data dst) (unat wpos) src 0 (unat ret);
        Some (ret, dst\<lparr>rb_data := d1, rb_wpos := ucast (ucast wpos + ret)\<rparr>)
      } else do {
        let capacity = (ucast (rb_cap dst - wpos + 1) :: u64);
        let ret = (ucast (rbuf_min (ucast capacity) (ucast n)) :: u64);
        d1 \<leftarrow> cc_memcpy (rb_data dst) (unat wpos) src 0 (unat ret);
        if ret < n then do {
          let capacity2 = (ucast (rpos - 1) :: u64);
          let remaining_bytes = (ucast (rbuf_min (ucast capacity2) (ucast (n - ret))) :: u64);
          d2 \<leftarrow> cc_memcpy d1 0 src (unat ret) (unat remaining_bytes);
          Some (ret + remaining_bytes, dst\<lparr>rb_data := d2, rb_wpos := ucast remaining_bytes\<rparr>)
        } else Some (ret, dst\<lparr>rb_data := d1, rb_wpos := ucast (ucast wpos + ret)\<rparr>)
      })"


section \<open>Invariant and contents\<close>

text \<open>
  Both positions may stand one past the last of the \<open>cap + 1\<close> bytes; the buffer is never
  completely filled, so \<open>rpos\<close> at the start and \<open>wpos\<close> past the end exclude each other.
\<close>

definition rb_wf :: "rbuf \<Rightarrow> bool" where
  "rb_wf b \<longleftrightarrow> unat (rb_cap b) < 4294967295 \<and> length (rb_data b) = unat (rb_cap b) + 1 \<and>
     unat (rb_rpos b) \<le> unat (rb_cap b) + 1 \<and> unat (rb_wpos b) \<le> unat (rb_cap b) + 1 \<and>
     \<not> (rb_rpos b = 0 \<and> unat (rb_wpos b) = unat (rb_cap b) + 1)"

definition rb_contents :: "rbuf \<Rightarrow> bytes" where
  "rb_contents b =
     (let r = unat (rb_rpos b); w = unat (rb_wpos b) in
      if w < r then drop r (rb_data b) @ take w (rb_data b) else window (rb_data b) r (w - r))"

definition rb_room :: "rbuf \<Rightarrow> nat" where
  "rb_room b = unat (rb_cap b) - length (rb_contents b)"

lemma rb_wfD:
  assumes "rb_wf b"
  shows "unat (rb_cap b) < 4294967295" "length (rb_data b) = unat (rb_cap b) + 1"
    "unat (rb_rpos b) \<le> unat (rb_cap b) + 1" "unat (rb_wpos b) \<le> unat (rb_cap b) + 1"
    "unat (rb_wpos b) \<le> unat (rb_cap b) + unat (rb_rpos b)"
proof -
  have "0 < unat (rb_rpos b) \<or> unat (rb_wpos b) \<noteq> unat (rb_cap b) + 1"
    using assms by (simp add: rb_wf_def unat_gt_0)
  then show "unat (rb_wpos b) \<le> unat (rb_cap b) + unat (rb_rpos b)"
    using assms unfolding rb_wf_def by linarith
qed (use assms in \<open>simp_all add: rb_wf_def\<close>)

lemma rb_contents_wrapped:
  "unat (rb_wpos b) < unat (rb_rpos b) \<Longrightarrow>
   rb_contents b = drop (unat (rb_rpos b)) (rb_data b) @ take (unat (rb_wpos b)) (rb_data b)"
  by (simp add: rb_contents_def)

lemma rb_contents_straight:
  "\<not> unat (rb_wpos b) < unat (rb_rpos b) \<Longrightarrow>
   rb_contents b = window (rb_data b) (unat (rb_rpos b)) (unat (rb_wpos b) - unat (rb_rpos b))"
  by (simp add: rb_contents_def Let_def)

lemma rb_contents_length:
  "rb_wf b \<Longrightarrow> length (rb_contents b) =
     (if unat (rb_wpos b) < unat (rb_rpos b)
      then unat (rb_cap b) + 1 + unat (rb_wpos b) - unat (rb_rpos b)
      else unat (rb_wpos b) - unat (rb_rpos b))"
  using rb_wfD [of b] by (auto simp: rb_contents_def Let_def window_length)

lemma rb_contents_le: "rb_wf b \<Longrightarrow> length (rb_contents b) \<le> unat (rb_cap b)"
  using rb_wfD [of b] by (auto simp: rb_contents_length)

lemma rbuf_min_nat: "unat (rbuf_min a b) = min (unat a) (unat b)"
  by (simp add: rbuf_min_def word_less_nat_alt)

lemma rbuf_min_64:
  "unat a < 4294967296 \<Longrightarrow> unat b < 4294967296 \<Longrightarrow>
   unat (ucast (rbuf_min (ucast a) (ucast b)) :: u64) = min (unat a) (unat b)" for a b :: u64
  by (simp add: rbuf_min_nat)

text \<open>Sums and differences of the 32-bit positions, read as naturals.\<close>

lemma u32_sub: "unat b \<le> unat a \<Longrightarrow> unat (a - b) = unat a - unat b" for a b :: u32
  by (simp add: unat_sub word_le_nat_alt)

lemma u32_sub_add1:
  "unat a < 4294967295 \<Longrightarrow> unat b \<le> unat a + 1 \<Longrightarrow> unat (a - b + 1) = unat a + 1 - unat b" for a b :: u32
proof -
  assume a: "unat a < 4294967295" and b: "unat b \<le> unat a + 1"
  have "a - b + 1 = a + 1 - b" by simp
  then have "unat (a - b + 1) = unat (a + 1 - b)" by (rule arg_cong)
  then show ?thesis using u32_sub [of b "a + 1"] b unat_add1_u32 [OF a] by simp
qed

lemma u32_advance:
  "unat r + unat k < 4294967296 \<Longrightarrow> unat (ucast (ucast r + k) :: u32) = unat r + unat k"
  for r :: u32 and k :: u64
  using unat_add_small [of "ucast r :: u64" k] by simp

lemma rbuf_rcap_nat: assumes "rb_wf b" shows "unat (rbuf_rcap b) = length (rb_contents b)"
proof -
  note wf = rb_wfD [OF assms]
  have "rb_cap b + rb_wpos b - rb_rpos b + 1 = (rb_cap b - (rb_rpos b - rb_wpos b)) + 1" by simp
  then have "unat (rb_cap b + rb_wpos b - rb_rpos b + 1) = unat ((rb_cap b - (rb_rpos b - rb_wpos b)) + 1)"
    by (rule arg_cong)
  moreover have "unat ((rb_cap b - (rb_rpos b - rb_wpos b)) + 1) =
      unat (rb_cap b) + 1 - (unat (rb_rpos b) - unat (rb_wpos b))" if "unat (rb_wpos b) < unat (rb_rpos b)"
    using that wf u32_sub_add1 [of "rb_cap b" "rb_rpos b - rb_wpos b"] u32_sub [of "rb_wpos b" "rb_rpos b"]
    by simp
  ultimately show ?thesis
    using wf u32_sub [of "rb_rpos b" "rb_wpos b"]
    by (simp add: rbuf_rcap_def rb_contents_length [OF assms] word_less_nat_alt)
qed

lemma rbuf_wcap_nat: assumes "rb_wf b" shows "unat (rbuf_wcap b) = rb_room b"
proof -
  note wf = rb_wfD [OF assms]
  have 1: "rb_rpos b - rb_wpos b - 1 = rb_rpos b - (rb_wpos b + 1)" by simp
  have 2: "rb_cap b - rb_wpos b + rb_rpos b = rb_cap b - (rb_wpos b - rb_rpos b)" by simp
  show ?thesis
  proof (cases "unat (rb_wpos b) < unat (rb_rpos b)")
    case True
    then have "unat (rb_wpos b + 1) = unat (rb_wpos b) + 1" using wf by (intro unat_add1_u32) simp
    then show ?thesis using True wf u32_sub [of "rb_wpos b + 1" "rb_rpos b"]
      by (simp add: rbuf_wcap_def rb_room_def rb_contents_length [OF assms] word_less_nat_alt 1)
  next
    case False
    then show ?thesis
      using wf u32_sub [of "rb_rpos b" "rb_wpos b"] u32_sub [of "rb_wpos b - rb_rpos b" "rb_cap b"]
      by (simp add: rbuf_wcap_def rb_room_def rb_contents_length [OF assms] word_less_nat_alt 2)
  qed
qed


section \<open>Reading\<close>

lemma rb_wf_rpos:
  "rb_wf b \<Longrightarrow> unat r \<le> unat (rb_cap b) + 1 \<Longrightarrow> unat (rb_wpos b) \<le> unat (rb_cap b) + unat r \<Longrightarrow>
   rb_wf (b\<lparr>rb_rpos := r\<rparr>)"
  by (auto simp: rb_wf_def)

lemma cc_memcpy_two_parts:
  "length xs = a \<Longrightarrow> m \<le> w \<Longrightarrow> w \<le> length ys \<Longrightarrow> a + m \<le> length dst \<Longrightarrow>
   cc_memcpy (take a xs @ drop a dst) a ys 0 m = Some (take (a + m) (xs @ take w ys) @ drop (a + m) dst)"
  by (subst cc_memcpy_Some) (auto simp: add.commute)

text \<open>What a read of \<open>k\<close> bytes means.\<close>

definition rb_read_ok :: "bytes \<Rightarrow> rbuf \<Rightarrow> u64 \<Rightarrow> nat \<Rightarrow> bool" where
  "rb_read_ok dst b n k \<longleftrightarrow>
     (\<exists>ret r. rbuf_read dst b n = Some (ret, take k (rb_contents b) @ drop k dst, b\<lparr>rb_rpos := r\<rparr>) \<and>
        unat ret = k \<and> rb_wf (b\<lparr>rb_rpos := r\<rparr>) \<and> rb_contents (b\<lparr>rb_rpos := r\<rparr>) = drop k (rb_contents b))"

text \<open>The first copy of the wrapped case runs to the end of the data.\<close>

lemma rb_read_first:
  fixes b :: rbuf and n :: u64
  defines "cap \<equiv> (ucast (rb_cap b - rb_rpos b + 1) :: u64)"
  defines "ret \<equiv> (ucast (rbuf_min (ucast cap) (ucast n)) :: u64)"
  assumes wf: "rb_wf b" and w: "unat (rb_wpos b) < unat (rb_rpos b)" and n: "unat n < 4294967296"
    and dst: "min (unat n) (length (rb_contents b)) \<le> length dst"
  shows "unat ret = min (unat (rb_cap b) + 1 - unat (rb_rpos b)) (unat n)"
    "cc_memcpy dst 0 (rb_data b) (unat (rb_rpos b)) (unat ret) =
      Some (take (unat ret) (drop (unat (rb_rpos b)) (rb_data b)) @ drop (unat ret) dst)"
proof -
  note wfs = rb_wfD [OF wf]
  have "unat cap = unat (rb_cap b) + 1 - unat (rb_rpos b)"
    using wfs by (simp add: cap_def u32_sub_add1)
  then show ret: "unat ret = min (unat (rb_cap b) + 1 - unat (rb_rpos b)) (unat n)"
    using n wfs rbuf_min_64 [of cap n] by (simp add: ret_def)
  then show "cc_memcpy dst 0 (rb_data b) (unat (rb_rpos b)) (unat ret) =
      Some (take (unat ret) (drop (unat (rb_rpos b)) (rb_data b)) @ drop (unat ret) dst)"
    using dst wfs w rb_contents_length [OF wf] by (subst cc_memcpy_Some) auto
qed

lemma rbuf_read_wrapped_short:
  assumes wf: "rb_wf b" and w: "unat (rb_wpos b) < unat (rb_rpos b)" and n: "unat n < 4294967296"
    and dst: "min (unat n) (length (rb_contents b)) \<le> length dst"
    and short: "unat n \<le> unat (rb_cap b) + 1 - unat (rb_rpos b)"
  shows "rb_read_ok dst b n (min (unat n) (length (rb_contents b)))"
proof -
  note wfs = rb_wfD [OF wf]
  define cap where "cap = (ucast (rb_cap b - rb_rpos b + 1) :: u64)"
  define ret where "ret = (ucast (rbuf_min (ucast cap) (ucast n)) :: u64)"
  define r' where "r' = (ucast (ucast (rb_rpos b) + ret) :: u32)"
  note first = rb_read_first [OF wf w n dst, folded cap_def, folded ret_def]
  have k: "min (unat n) (length (rb_contents b)) = unat n" and retn: "unat ret = unat n"
    using short first(1) rb_contents_length [OF wf] w wfs by simp_all
  have r': "unat r' = unat (rb_rpos b) + unat n"
    using u32_advance [of "rb_rpos b" ret] retn short wfs by (simp add: r'_def)
  note cont = rb_contents_wrapped [OF w]
  have "rbuf_read dst b n = Some (ret, take (unat n) (rb_contents b) @ drop (unat n) dst, b\<lparr>rb_rpos := r'\<rparr>)"
    unfolding rbuf_read_def Let_def cap_def [symmetric] ret_def [symmetric] r'_def [symmetric]
    using w first(2) retn short wfs by (simp add: word_less_nat_alt cont)
  moreover have "rb_wf (b\<lparr>rb_rpos := r'\<rparr>)" using r' short wfs by (intro rb_wf_rpos [OF wf]) linarith+
  moreover have "rb_contents (b\<lparr>rb_rpos := r'\<rparr>) = drop (unat n) (rb_contents b)"
    using r' w short wfs by (simp add: rb_contents_wrapped cont add.commute)
  ultimately show ?thesis unfolding rb_read_ok_def k using retn by blast
qed

lemma rbuf_read_wrapped_long:
  assumes wf: "rb_wf b" and w: "unat (rb_wpos b) < unat (rb_rpos b)" and n: "unat n < 4294967296"
    and dst: "min (unat n) (length (rb_contents b)) \<le> length dst"
    and long: "\<not> unat n \<le> unat (rb_cap b) + 1 - unat (rb_rpos b)"
  shows "rb_read_ok dst b n (min (unat n) (length (rb_contents b)))" (is "rb_read_ok dst b n ?k")
proof -
  note wfs = rb_wfD [OF wf]
  let ?r = "unat (rb_rpos b)" and ?w = "unat (rb_wpos b)" and ?c = "unat (rb_cap b)"
  define cap where "cap = (ucast (rb_cap b - rb_rpos b + 1) :: u64)"
  define ret where "ret = (ucast (rbuf_min (ucast cap) (ucast n)) :: u64)"
  define rem where "rem = (ucast (rbuf_min (ucast (ucast (rb_wpos b) :: u64)) (ucast (n - ret))) :: u64)"
  note first = rb_read_first [OF wf w n dst, folded cap_def, folded ret_def]
  have retc: "unat ret = ?c + 1 - ?r" using long first(1) by simp
  have lt: "ret < n" using long retc by (simp add: word_less_nat_alt)
  have rem: "unat rem = min ?w (unat n - (?c + 1 - ?r))"
    using rbuf_min_64 [of "ucast (rb_wpos b)" "n - ret"] n retc lt by (simp add: rem_def unat_sub)
  have len: "length (rb_contents b) = ?c + 1 + ?w - ?r" using rb_contents_length [OF wf] w by simp
  have k: "?k = unat ret + unat rem" unfolding len using rem retc long w wfs by linarith
  have rr: "unat (ret + rem) = ?k" and rp: "unat (ucast rem :: u32) = unat rem"
    unfolding k using unat_add_small [of ret rem] retc rem wfs by simp_all
  have rw: "unat rem \<le> ?w" and lr: "length (drop ?r (rb_data b)) = unat ret" using rem retc wfs by simp_all
  have "cc_memcpy (take (unat ret) (drop ?r (rb_data b)) @ drop (unat ret) dst) (unat ret) (rb_data b) 0 (unat rem)
      = Some (take ?k (rb_contents b) @ drop ?k dst)"
    using dst unfolding k unfolding rb_contents_wrapped [OF w]
    using lr rw wfs by (intro cc_memcpy_two_parts) simp_all
  then have "rbuf_read dst b n =
      Some (ret + rem, take ?k (rb_contents b) @ drop ?k dst, b\<lparr>rb_rpos := ucast rem\<rparr>)"
    unfolding rbuf_read_def Let_def cap_def [symmetric] ret_def [symmetric] rem_def [symmetric]
    using w first(2) lt by (simp add: word_less_nat_alt)
  moreover have "rb_wf (b\<lparr>rb_rpos := ucast rem\<rparr>)"
    using rp rem w wfs by (intro rb_wf_rpos [OF wf]) linarith+
  moreover have "rb_contents (b\<lparr>rb_rpos := ucast rem\<rparr>) = drop ?k (rb_contents b)"
    unfolding k using rp rw lr
    by (simp add: rb_contents_straight rb_contents_wrapped [OF w] window_def drop_take)
  ultimately show ?thesis unfolding rb_read_ok_def using rr by blast
qed

lemma rbuf_read_straight:
  assumes wf: "rb_wf b" and w: "\<not> unat (rb_wpos b) < unat (rb_rpos b)" and n: "unat n < 4294967296"
    and dst: "min (unat n) (length (rb_contents b)) \<le> length dst"
  shows "rb_read_ok dst b n (min (unat n) (length (rb_contents b)))" (is "rb_read_ok dst b n ?k")
proof -
  note wfs = rb_wfD [OF wf]
  let ?r = "unat (rb_rpos b)" and ?w = "unat (rb_wpos b)"
  define cap where "cap = (ucast (rb_wpos b - rb_rpos b) :: u64)"
  define ret where "ret = (ucast (rbuf_min (ucast cap) (ucast n)) :: u64)"
  define r' where "r' = (ucast (ucast (rb_rpos b) + ret) :: u32)"
  have len: "length (rb_contents b) = ?w - ?r" using rb_contents_length [OF wf] w by simp
  have "unat cap = ?w - ?r" using w by (simp add: cap_def u32_sub)
  then have ret: "unat ret = ?k" using n wfs rbuf_min_64 [of cap n] by (simp add: ret_def len min.commute)
  have r': "unat r' = ?r + ?k"
    using u32_advance [of "rb_rpos b" ret] ret len w wfs by (simp add: r'_def)
  note cont = rb_contents_straight [OF w]
  have "cc_memcpy dst 0 (rb_data b) ?r ?k = Some (take ?k (rb_contents b) @ drop ?k dst)"
    using dst len wfs w by (subst cc_memcpy_Some) (auto simp: cont take_window window_def)
  then have "rbuf_read dst b n = Some (ret, take ?k (rb_contents b) @ drop ?k dst, b\<lparr>rb_rpos := r'\<rparr>)"
    unfolding rbuf_read_def Let_def cap_def [symmetric] ret_def [symmetric] r'_def [symmetric]
    using w by (simp add: word_less_nat_alt ret)
  moreover have "rb_wf (b\<lparr>rb_rpos := r'\<rparr>)" using r' len w wfs by (intro rb_wf_rpos [OF wf]) linarith+
  moreover have "rb_contents (b\<lparr>rb_rpos := r'\<rparr>) = drop ?k (rb_contents b)"
  proof -
    have "\<not> ?w < ?r + ?k" using w len by simp
    then show ?thesis using r' by (simp add: rb_contents_straight cont drop_window)
  qed
  ultimately show ?thesis unfolding rb_read_ok_def using ret by blast
qed

lemma rbuf_read_spec:
  assumes "rb_wf b" "unat n < 4294967296" "min (unat n) (length (rb_contents b)) \<le> length dst"
  shows "rb_read_ok dst b n (min (unat n) (length (rb_contents b)))"
  using assms rbuf_read_wrapped_short rbuf_read_wrapped_long rbuf_read_straight by blast


section \<open>Writing\<close>

definition rb_write_ok :: "rbuf \<Rightarrow> bytes \<Rightarrow> u64 \<Rightarrow> nat \<Rightarrow> bool" where
  "rb_write_ok b src n k \<longleftrightarrow>
     (\<exists>ret b'. rbuf_write b src n = Some (ret, b') \<and> unat ret = k \<and> rb_wf b' \<and>
        rb_contents b' = rb_contents b @ take k src \<and> rb_cap b' = rb_cap b)"

lemma rb_wf_write:
  "rb_wf b \<Longrightarrow> length d = length (rb_data b) \<Longrightarrow> unat w \<le> unat (rb_cap b) + 1 \<Longrightarrow>
   unat w \<le> unat (rb_cap b) + unat (rb_rpos b) \<Longrightarrow> rb_wf (b\<lparr>rb_data := d, rb_wpos := w\<rparr>)"
  by (auto simp: rb_wf_def)

lemma rbuf_write_below:
  assumes wf: "rb_wf b" and w: "unat (rb_wpos b) < unat (rb_rpos b)" and n: "unat n < 4294967296"
    and src: "min (unat n) (rb_room b) \<le> length src"
  shows "rb_write_ok b src n (min (unat n) (rb_room b))" (is "rb_write_ok b src n ?k")
proof -
  note wfs = rb_wfD [OF wf]
  let ?r = "unat (rb_rpos b)" and ?w = "unat (rb_wpos b)"
  define cap where "cap = (ucast (rb_rpos b - rb_wpos b - 1) :: u64)"
  define ret where "ret = (ucast (rbuf_min (ucast cap) (ucast n)) :: u64)"
  define w' where "w' = (ucast (ucast (rb_wpos b) + ret) :: u32)"
  have room: "rb_room b = ?r - ?w - 1" using w wfs by (simp add: rb_room_def rb_contents_length [OF wf])
  have "unat cap = rb_room b"
    using rbuf_wcap_nat [OF wf] w by (simp add: rbuf_wcap_def word_less_nat_alt cap_def)
  then have ret: "unat ret = ?k"
    using n room wfs rbuf_min_64 [of cap n] by (simp add: ret_def min.commute)
  have w': "unat w' = ?w + ?k"
    using u32_advance [of "rb_wpos b" ret] ret room w wfs by (simp add: w'_def)
  let ?d = "take ?w (rb_data b) @ take ?k src @ drop (?w + ?k) (rb_data b)"
  have "cc_memcpy (rb_data b) ?w src 0 ?k = Some ?d"
    using src room wfs w by (subst cc_memcpy_Some) auto
  then have "rbuf_write b src n = Some (ret, b\<lparr>rb_data := ?d, rb_wpos := w'\<rparr>)"
    unfolding rbuf_write_def Let_def cap_def [symmetric] ret_def [symmetric] w'_def [symmetric]
    using w by (simp add: word_less_nat_alt ret)
  moreover have "rb_wf (b\<lparr>rb_data := ?d, rb_wpos := w'\<rparr>)"
    using w' room w wfs src by (intro rb_wf_write [OF wf]) auto
  moreover have "rb_contents (b\<lparr>rb_data := ?d, rb_wpos := w'\<rparr>) = rb_contents b @ take ?k src"
  proof -
    have k: "?w + ?k < ?r" "?k \<le> length src" using room w src by linarith+
    then show ?thesis using w' w wfs by (simp add: rb_contents_wrapped)
  qed
  ultimately show ?thesis unfolding rb_write_ok_def using ret by force
qed

text \<open>The first copy of the other case runs to the end of the data.\<close>

lemma rb_write_first:
  fixes b :: rbuf and n :: u64
  defines "cap \<equiv> (ucast (rb_cap b - rb_wpos b + 1) :: u64)"
  defines "ret \<equiv> (ucast (rbuf_min (ucast cap) (ucast n)) :: u64)"
  assumes wf: "rb_wf b" and n: "unat n < 4294967296"
    and src: "min (unat (rb_cap b) + 1 - unat (rb_wpos b)) (unat n) \<le> length src"
  shows "unat ret = min (unat (rb_cap b) + 1 - unat (rb_wpos b)) (unat n)"
    "cc_memcpy (rb_data b) (unat (rb_wpos b)) src 0 (unat ret) =
      Some (take (unat (rb_wpos b)) (rb_data b) @ take (unat ret) src @
            drop (unat (rb_wpos b) + unat ret) (rb_data b))"
proof -
  note wfs = rb_wfD [OF wf]
  have "unat cap = unat (rb_cap b) + 1 - unat (rb_wpos b)"
    using wfs by (simp add: cap_def u32_sub_add1)
  then show ret: "unat ret = min (unat (rb_cap b) + 1 - unat (rb_wpos b)) (unat n)"
    using n wfs rbuf_min_64 [of cap n] by (simp add: ret_def)
  show "cc_memcpy (rb_data b) (unat (rb_wpos b)) src 0 (unat ret) =
      Some (take (unat (rb_wpos b)) (rb_data b) @ take (unat ret) src @
            drop (unat (rb_wpos b) + unat ret) (rb_data b))"
    using src wfs ret by (subst cc_memcpy_Some) auto
qed

lemma rb_room_above:
  "rb_wf b \<Longrightarrow> \<not> unat (rb_wpos b) < unat (rb_rpos b) \<Longrightarrow>
   rb_room b = unat (rb_cap b) + unat (rb_rpos b) - unat (rb_wpos b)"
  using rb_wfD [of b] by (simp add: rb_room_def rb_contents_length)

lemma rbuf_write_above_short:
  assumes wf: "rb_wf b" and w: "\<not> unat (rb_wpos b) < unat (rb_rpos b)" and n: "unat n < 4294967296"
    and src: "min (unat n) (rb_room b) \<le> length src"
    and safe: "rb_rpos b = 0 \<longrightarrow> unat n \<le> rb_room b"
    and short: "unat n \<le> unat (rb_cap b) + 1 - unat (rb_wpos b)"
  shows "rb_write_ok b src n (min (unat n) (rb_room b))"
proof -
  note wfs = rb_wfD [OF wf]
  let ?r = "unat (rb_rpos b)" and ?w = "unat (rb_wpos b)"
  define cap where "cap = (ucast (rb_cap b - rb_wpos b + 1) :: u64)"
  define ret where "ret = (ucast (rbuf_min (ucast cap) (ucast n)) :: u64)"
  define w' where "w' = (ucast (ucast (rb_wpos b) + ret) :: u32)"
  have "0 < ?r \<or> unat n \<le> rb_room b" using safe by (auto simp: unat_gt_0)
  then have k: "min (unat n) (rb_room b) = unat n" and fits: "?w + unat n \<le> unat (rb_cap b) + ?r"
    using rb_room_above [OF wf w] short w wfs by linarith+
  then have "min (unat (rb_cap b) + 1 - ?w) (unat n) \<le> length src" using src by simp
  note first = rb_write_first [OF wf n this, folded cap_def, folded ret_def]
  have retn: "unat ret = unat n" using first(1) short by simp
  have w': "unat w' = ?w + unat n"
    using u32_advance [of "rb_wpos b" ret] retn short wfs by (simp add: w'_def)
  let ?d = "take ?w (rb_data b) @ take (unat n) src @ drop (?w + unat n) (rb_data b)"
  have "rbuf_write b src n = Some (ret, b\<lparr>rb_data := ?d, rb_wpos := w'\<rparr>)"
    unfolding rbuf_write_def Let_def cap_def [symmetric] ret_def [symmetric] w'_def [symmetric]
    using w first(2) retn by (simp add: word_less_nat_alt)
  moreover have "rb_wf (b\<lparr>rb_data := ?d, rb_wpos := w'\<rparr>)"
    using w' short fits wfs src k by (intro rb_wf_write [OF wf]) auto
  moreover have "rb_contents (b\<lparr>rb_data := ?d, rb_wpos := w'\<rparr>) = rb_contents b @ take (unat n) src"
    using w' short w wfs src k by (simp add: rb_contents_straight window_def drop_take)
  ultimately show ?thesis unfolding rb_write_ok_def k using retn by force
qed


lemma rbuf_write_above_long:
  assumes wf: "rb_wf b" and w: "\<not> unat (rb_wpos b) < unat (rb_rpos b)" and n: "unat n < 4294967296"
    and src: "min (unat n) (rb_room b) \<le> length src"
    and safe: "rb_rpos b = 0 \<longrightarrow> unat n \<le> rb_room b"
    and long: "\<not> unat n \<le> unat (rb_cap b) + 1 - unat (rb_wpos b)"
  shows "rb_write_ok b src n (min (unat n) (rb_room b))" (is "rb_write_ok b src n ?k")
proof -
  note wfs = rb_wfD [OF wf] and room = rb_room_above [OF wf w]
  let ?r = "unat (rb_rpos b)" and ?w = "unat (rb_wpos b)"
  define cap where "cap = (ucast (rb_cap b - rb_wpos b + 1) :: u64)"
  define ret where "ret = (ucast (rbuf_min (ucast cap) (ucast n)) :: u64)"
  define rem where "rem = (ucast (rbuf_min (ucast (ucast (rb_rpos b - 1) :: u64)) (ucast (n - ret))) :: u64)"
  have r: "0 < ?r" using safe long room wfs by (cases "rb_rpos b = 0") (auto simp: unat_gt_0)
  have "min (unat (rb_cap b) + 1 - ?w) (unat n) \<le> length src" using src room r long wfs by linarith
  note first = rb_write_first [OF wf n this, folded cap_def, folded ret_def]
  have retc: "unat ret = unat (rb_cap b) + 1 - ?w" using long first(1) by simp
  have lt: "ret < n" using long retc by (simp add: word_less_nat_alt)
  have r1: "unat (ucast (rb_rpos b - 1) :: u64) = ?r - 1" using r u32_sub [of 1 "rb_rpos b"] by simp
  have rem: "unat rem = min (?r - 1) (unat n - (unat (rb_cap b) + 1 - ?w))"
    using rbuf_min_64 [of "ucast (rb_rpos b - 1)" "n - ret"] n retc lt r1 by (simp add: rem_def unat_sub)
  have k: "?k = unat ret + unat rem" unfolding room using rem retc long r w wfs by linarith
  have rr: "unat (ret + rem) = ?k" and rp: "unat (ucast rem :: u32) = unat rem"
    unfolding k using unat_add_small [of ret rem] retc rem wfs by simp_all
  let ?d1 = "take ?w (rb_data b) @ take (unat ret) src"
  let ?d2 = "take (unat rem) (drop (unat ret) src) @ drop (unat rem) ?d1"
  have d1: "take ?w (rb_data b) @ take (unat ret) src @ drop (?w + unat ret) (rb_data b) = ?d1"
    and ld: "length ?d1 = unat (rb_cap b) + 1"
    using retc wfs src k by simp_all
  have rl: "unat rem < ?r" using rem r by linarith
  have "cc_memcpy ?d1 0 src (unat ret) (unat rem) = Some ?d2"
    using ld rl src k wfs by (subst cc_memcpy_Some) simp_all
  then have "rbuf_write b src n = Some (ret + rem, b\<lparr>rb_data := ?d2, rb_wpos := ucast rem\<rparr>)"
    unfolding rbuf_write_def Let_def cap_def [symmetric] ret_def [symmetric] rem_def [symmetric]
    using w first(2) lt unfolding d1 by (simp add: word_less_nat_alt)
  moreover have "rb_wf (b\<lparr>rb_data := ?d2, rb_wpos := ucast rem\<rparr>)"
    using rp rl ld wfs src k by (intro rb_wf_write [OF wf]) simp_all
  moreover have "rb_contents (b\<lparr>rb_data := ?d2, rb_wpos := ucast rem\<rparr>) = rb_contents b @ take ?k src"
    unfolding k using rp rl src k w wfs
    by (simp add: rb_contents_wrapped rb_contents_straight [OF w] window_def drop_take take_add)
  ultimately show ?thesis unfolding rb_write_ok_def using rr by force
qed

lemma rbuf_write_spec:
  assumes "rb_wf b" "unat n < 4294967296" "min (unat n) (rb_room b) \<le> length src"
    "rb_rpos b = 0 \<longrightarrow> unat n \<le> rb_room b"
  shows "rb_write_ok b src n (min (unat n) (rb_room b))"
  using assms rbuf_write_below rbuf_write_above_short rbuf_write_above_long by blast


section \<open>The interface of a byte stream\<close>

text \<open>
  What a client that stores bytes only when they all fit and takes no more than is stored may
  rely on. \<open>stream_run\<close> is such a client: it asks for the free and the stored amount before
  each operation, as \<^verbatim>\<open>src/cc_log.c\<close> does.
\<close>

datatype stream_op = SPut bytes | SGet nat

fun stream_run ::
  "(bytes \<Rightarrow> 'b \<Rightarrow> 'b option) \<Rightarrow> (nat \<Rightarrow> 'b \<Rightarrow> (bytes \<times> 'b) option) \<Rightarrow> ('b \<Rightarrow> nat) \<Rightarrow> ('b \<Rightarrow> nat) \<Rightarrow>
   stream_op list \<Rightarrow> 'b \<Rightarrow> (bytes \<times> bytes \<times> 'b) option" where
  "stream_run put get room fill [] b = Some ([], [], b)"
| "stream_run put get room fill (SPut xs # ops) b =
     (if length xs \<le> room b then do {
        b' \<leftarrow> put xs b;
        (ins, outs, b'') \<leftarrow> stream_run put get room fill ops b';
        Some (xs @ ins, outs, b'')
      } else stream_run put get room fill ops b)"
| "stream_run put get room fill (SGet n # ops) b = do {
     (ys, b') \<leftarrow> get (min n (fill b)) b;
     (ins, outs, b'') \<leftarrow> stream_run put get room fill ops b';
     Some (ins, ys @ outs, b'')
   }"

locale byte_stream =
  fixes put :: "bytes \<Rightarrow> 'b \<Rightarrow> 'b option"
    and get :: "nat \<Rightarrow> 'b \<Rightarrow> (bytes \<times> 'b) option"
    and room :: "'b \<Rightarrow> nat"
    and fill :: "'b \<Rightarrow> nat"
    and contents :: "'b \<Rightarrow> bytes"
    and inv :: "'b \<Rightarrow> bool"
  assumes fill_contents: "inv b \<Longrightarrow> fill b = length (contents b)"
    and put_fits: "inv b \<Longrightarrow> length xs \<le> room b \<Longrightarrow>
      \<exists>b'. put xs b = Some b' \<and> inv b' \<and> contents b' = contents b @ xs \<and> room b' + length xs = room b"
    and get_held: "inv b \<Longrightarrow> n \<le> length (contents b) \<Longrightarrow>
      \<exists>b'. get n b = Some (take n (contents b), b') \<and> inv b' \<and> contents b' = drop n (contents b) \<and>
           room b \<le> room b'"
begin

lemma stream_order:
  "inv b \<Longrightarrow> \<exists>ins outs b'. stream_run put get room fill ops b = Some (ins, outs, b') \<and> inv b' \<and>
     contents b @ ins = outs @ contents b'"
proof (induction ops arbitrary: b)
  case Nil
  then show ?case by simp
next
  case (Cons op ops)
  show ?case
  proof (cases op)
    case (SPut xs)
    show ?thesis
    proof (cases "length xs \<le> room b")
      case True
      from put_fits [OF Cons.prems True] obtain b1 where
        b1: "put xs b = Some b1" "inv b1" "contents b1 = contents b @ xs" by blast
      from Cons.IH [OF b1(2)] show ?thesis using SPut True b1 by fastforce
    next
      case False
      then show ?thesis using Cons SPut by simp
    qed
  next
    case (SGet n)
    let ?n = "min n (fill b)"
    have "?n \<le> length (contents b)" using fill_contents [OF Cons.prems] by simp
    from get_held [OF Cons.prems this] obtain b1 where
      b1: "get ?n b = Some (take ?n (contents b), b1)" "inv b1" "contents b1 = drop ?n (contents b)"
      by blast
    from Cons.IH [OF b1(2)] obtain ins outs b' where
      r: "stream_run put get room fill ops b1 = Some (ins, outs, b')" "inv b'" "contents b1 @ ins = outs @ contents b'"
      by blast
    have "contents b @ ins = take ?n (contents b) @ contents b1 @ ins" using b1(3) by simp
    then have "contents b @ ins = (take ?n (contents b) @ outs) @ contents b'" using r(3) by simp
    moreover have "stream_run put get room fill (op # ops) b = Some (ins, take ?n (contents b) @ outs, b')"
      using SGet b1(1) r(1) by simp
    ultimately show ?thesis using r(2) by blast
  qed
qed

end

definition rb_put :: "bytes \<Rightarrow> rbuf \<Rightarrow> rbuf option" where
  "rb_put xs b = do {
     (ret, b') \<leftarrow> rbuf_write b xs (of_nat (length xs));
     if unat ret = length xs then Some b' else None
   }"

definition rb_get :: "nat \<Rightarrow> rbuf \<Rightarrow> (bytes \<times> rbuf) option" where
  "rb_get n b = do {
     (ret, dst, b') \<leftarrow> rbuf_read (replicate n 0) b (of_nat n);
     Some (take (unat ret) dst, b')
   }"

interpretation rbs: byte_stream rb_put rb_get "\<lambda>b. unat (rbuf_wcap b)" "\<lambda>b. unat (rbuf_rcap b)"
  rb_contents rb_wf
proof unfold_locales
  fix b :: rbuf and xs :: bytes and n :: nat
  assume wf: "rb_wf b"
  note wfs = rb_wfD [OF wf] and le = rb_contents_le [OF wf]
  show "unat (rbuf_rcap b) = length (rb_contents b)" by (rule rbuf_rcap_nat [OF wf])
  show "\<exists>b'. rb_put xs b = Some b' \<and> rb_wf b' \<and> rb_contents b' = rb_contents b @ xs \<and>
      unat (rbuf_wcap b') + length xs = unat (rbuf_wcap b)" if "length xs \<le> unat (rbuf_wcap b)"
  proof -
    have fits: "length xs \<le> rb_room b" using that by (simp add: rbuf_wcap_nat [OF wf])
    then have n: "unat (of_nat (length xs) :: u64) = length xs"
      using wfs by (intro unat_of_nat_64) (simp add: rb_room_def)
    have k: "min (unat (of_nat (length xs) :: u64)) (rb_room b) = length xs" using n fits by simp
    have "rb_write_ok b xs (of_nat (length xs)) (length xs)"
      using rbuf_write_spec [OF wf, of "of_nat (length xs)" xs] n fits wfs unfolding k by (simp add: rb_room_def)
    then obtain ret b' where w: "rbuf_write b xs (of_nat (length xs)) = Some (ret, b')" "unat ret = length xs"
      "rb_wf b'" "rb_contents b' = rb_contents b @ xs" "rb_cap b' = rb_cap b"
      unfolding rb_write_ok_def by auto
    then have "rb_room b' + length xs = rb_room b" using fits by (simp add: rb_room_def)
    then show ?thesis using w wf by (simp add: rb_put_def rbuf_wcap_nat)
  qed
  show "\<exists>b'. rb_get n b = Some (take n (rb_contents b), b') \<and> rb_wf b' \<and>
      rb_contents b' = drop n (rb_contents b) \<and> unat (rbuf_wcap b) \<le> unat (rbuf_wcap b')"
    if n: "n \<le> length (rb_contents b)"
  proof -
    have u: "unat (of_nat n :: u64) = n" using n le wfs by (intro unat_of_nat_64) simp
    have k: "min (unat (of_nat n :: u64)) (length (rb_contents b)) = n" using u n by simp
    have "rb_read_ok (replicate n 0) b (of_nat n) n"
      using rbuf_read_spec [OF wf, of "of_nat n" "replicate n 0"] u n le wfs unfolding k by simp
    then obtain ret r where r: "rbuf_read (replicate n 0) b (of_nat n) =
        Some (ret, take n (rb_contents b), b\<lparr>rb_rpos := r\<rparr>)" "unat ret = n"
      "rb_wf (b\<lparr>rb_rpos := r\<rparr>)" "rb_contents (b\<lparr>rb_rpos := r\<rparr>) = drop n (rb_contents b)"
      unfolding rb_read_ok_def by auto
    then show ?thesis using wf by (simp add: rb_get_def rbuf_wcap_nat rb_room_def)
  qed
qed


section \<open>Creation\<close>

lemma rbuf_create_Ptr:
  assumes m: "malloc_spec malloc" and c: "unat cap < 4294967295"
    and r: "rbuf_create malloc cap s = (Ptr b, s')"
  shows "rb_wf b \<and> rb_contents b = [] \<and> rb_cap b = cap"
proof -
  have "RBUF_HDR_SIZE + ucast cap + 1 = 13 + ucast cap" by (simp add: RBUF_HDR_SIZE_def)
  moreover have "unat (13 + ucast cap :: u64) = 13 + unat cap"
    using c by (subst unat_add_small) simp_all
  ultimately have "unat (RBUF_HDR_SIZE + ucast cap + 1) = 13 + unat cap" by (simp only:)
  then have "length blk = 13 + unat cap" if "cc_alloc malloc (RBUF_HDR_SIZE + ucast cap + 1) = Ptr blk" for blk
    using cc_alloc_length [OF m that] by simp
  then show ?thesis
    using r c by (auto simp: rbuf_create_def rb_wf_def rb_contents_def RBUF_HDR_SIZE_def split: ptr.splits)
qed


section \<open>Properties\<close>

text \<open>C8: a byte ring buffer is a first-in first-out stream. Any sequence of writes that are made only
  when \<^verbatim>\<open>rbuf_wcap\<close> has room for them, and of reads of what \<^verbatim>\<open>rbuf_rcap\<close> says is stored, stays
  inside the buffer, keeps it well formed, and loses, repeats and reorders no byte.\<close>

theorem rbuf_fifo:
  assumes "rb_wf b"
  shows "\<exists>ins outs b'. stream_run rb_put rb_get (\<lambda>b. unat (rbuf_wcap b)) (\<lambda>b. unat (rbuf_rcap b)) ops b =
           Some (ins, outs, b') \<and> rb_wf b' \<and> rb_contents b @ ins = outs @ rb_contents b'"
  by (rule rbs.stream_order [OF assms])

definition rb_sample :: rbuf where
  "rb_sample = \<lparr>rb_rpos = 3, rb_wpos = 2, rb_cap = 4, rb_data = [11, 12, 0, 13, 14]\<rparr>"

lemma rb_sample_wf: "rb_wf rb_sample" "rb_contents rb_sample = [13, 14, 11, 12]"
  by (simp_all add: rb_sample_def rb_wf_def rb_contents_def)

theorem rbuf_fifo_witness:
  "\<exists>ins outs b'. stream_run rb_put rb_get (\<lambda>b. unat (rbuf_wcap b)) (\<lambda>b. unat (rbuf_rcap b))
       [SGet 3, SPut [1, 2], SGet 1] rb_sample = Some (ins, outs, b') \<and>
     [13, 14, 11, 12] @ ins = outs @ rb_contents b'"
  using rbuf_fifo [OF rb_sample_wf(1), of "[SGet 3, SPut [1, 2], SGet 1]"] unfolding rb_sample_wf(2) by blast





text \<open>Creating and destroying a buffer leaves the two gauges where they were.\<close>

lemma rbuf_create_destroy_gauges:
  assumes "rbuf_create malloc cap s = (Ptr b, s')" and "rbuf_destroy (Ptr (Ptr b)) s' = Some (p, s'')"
    and "rbuf_metrics s = Ptr m" and "m_type (m M_rbuf_curr) = METRIC_GAUGE"
    and "m_type (m M_rbuf_byte) = METRIC_GAUGE"
  shows "p = Ptr Null \<and> (\<exists>m''. rbuf_metrics s'' = Ptr m'' \<and> m'' M_rbuf_curr = m M_rbuf_curr \<and>
           m'' M_rbuf_byte = m M_rbuf_byte)"
  using assms
  by (auto simp: rbuf_create_def rbuf_destroy_def INCR_def DECR_def INCR_N_def DECR_N_def metric_incr_decr
      split: ptr.splits)


section \<open>Writing more than fits at read position 0\<close>

text \<open>
  With the read position at 0, \<^verbatim>\<open>rpos - 1\<close> wraps around: one byte too many is stored, so that the
  buffer claims \<open>cap + 1\<close> bytes and the free space becomes \<^verbatim>\<open>UINT32_MAX\<close>; a longer write runs past
  the end of the data.
\<close>

definition rb_empty2 :: rbuf where
  "rb_empty2 = \<lparr>rb_rpos = 0, rb_wpos = 0, rb_cap = 2, rb_data = [0, 0, 0]\<rparr>"

lemma rbuf_write_overfull:
  "rb_wf rb_empty2 \<and> rbuf_wcap rb_empty2 = 2"
  "\<exists>b. rbuf_write rb_empty2 [1, 2, 3] 3 = Some (3, b) \<and> rbuf_wcap b = 4294967295 \<and> rbuf_rcap b = 3"
  "rbuf_write rb_empty2 [1, 2, 3, 4, 5, 6, 7] 7 = None"
proof -
  show "rb_wf rb_empty2 \<and> rbuf_wcap rb_empty2 = 2"
    by (simp add: rb_empty2_def rb_wf_def rbuf_wcap_def)
  have "rbuf_write rb_empty2 [1, 2, 3] 3 = Some (3, rb_empty2\<lparr>rb_wpos := 3, rb_data := [1, 2, 3]\<rparr>)"
    by code_simp
  moreover have "rbuf_wcap (rb_empty2\<lparr>rb_wpos := 3, rb_data := [1, 2, 3]\<rparr>) = 4294967295"
    "rbuf_rcap (rb_empty2\<lparr>rb_wpos := 3, rb_data := [1, 2, 3]\<rparr>) = 3"
    by code_simp+
  ultimately show "\<exists>b. rbuf_write rb_empty2 [1, 2, 3] 3 = Some (3, b) \<and> rbuf_wcap b = 4294967295 \<and> rbuf_rcap b = 3"
    by blast
  show "rbuf_write rb_empty2 [1, 2, 3, 4, 5, 6, 7] 7 = None" by code_simp
qed

end
