(* ===== verification/Cc_Buf.thy ===== *)
theory Cc_Buf
  imports Cc_Pool Cc_Rbuf
begin

text \<open>
  The flat buffer of \<^verbatim>\<open>include/buffer/cc_buf.h\<close> and the module of \<^verbatim>\<open>src/buffer/cc_buf.c\<close> with
  its pool. The pointers \<open>rpos\<close>, \<open>wpos\<close> and \<open>end\<close> are offsets from \<open>begin\<close>; the link \<open>next\<close>
  of a pooled buffer is a cell of the pool's queue. Sizes are the \<^verbatim>\<open>uint32_t\<close> of the source.
\<close>

section \<open>One buffer\<close>

record buf =
  b_rpos :: nat
  b_wpos :: nat
  b_end :: nat
  b_free :: bool
  b_begin :: bytes

definition BUF_HDR_SIZE :: u64 where
  "BUF_HDR_SIZE = 33"

definition BUF_INIT_SIZE :: u32 where
  "BUF_INIT_SIZE = 16 * 1024"

definition BUF_POOLSIZE :: u32 where
  "BUF_POOLSIZE = 0"

definition buf_rsize :: "buf \<Rightarrow> u32 option" where
  "buf_rsize b = do { ASSERT (b_rpos b \<le> b_wpos b); Some (of_nat (b_wpos b - b_rpos b)) }"

definition buf_wsize :: "buf \<Rightarrow> u32 option" where
  "buf_wsize b = do { ASSERT (b_wpos b \<le> b_end b); Some (of_nat (b_end b - b_wpos b)) }"

definition buf_size :: "buf \<Rightarrow> u32 option" where
  "buf_size b = do { ASSERT (0 < b_end b); Some (of_nat (unat BUF_HDR_SIZE + b_end b)) }"

definition buf_capacity :: "buf \<Rightarrow> u32 option" where
  "buf_capacity b = do { ASSERT (0 < b_end b); Some (of_nat (b_end b)) }"

definition buf_new_cap :: "buf \<Rightarrow> u32 \<Rightarrow> u32 option" where
  "buf_new_cap b count = do {
     wsize \<leftarrow> buf_wsize b;
     Some (if count \<le> wsize then 0 else count - wsize)
   }"

definition buf_reset :: "buf \<Rightarrow> buf" where
  "buf_reset b = b\<lparr>b_free := False, b_rpos := 0, b_wpos := 0\<rparr>"

definition buf_read :: "bytes \<Rightarrow> buf \<Rightarrow> u32 \<Rightarrow> (u32 \<times> bytes \<times> buf) option" where
  "buf_read dst src count = do {
     rsize \<leftarrow> buf_rsize src;
     let len = min rsize count;
     dst' \<leftarrow> cc_memcpy dst 0 (b_begin src) (b_rpos src) (unat len);
     Some (len, dst', src\<lparr>b_rpos := b_rpos src + unat len\<rparr>)
   }"

definition buf_write :: "buf \<Rightarrow> bytes \<Rightarrow> u32 \<Rightarrow> (u32 \<times> buf) option" where
  "buf_write dst src count =
     (if count = 0 then Some (0, dst)
      else do {
        wsize \<leftarrow> buf_wsize dst;
        let len = min wsize count;
        d \<leftarrow> cc_memcpy (b_begin dst) (b_wpos dst) src 0 (unat len);
        Some (len, dst\<lparr>b_begin := d, b_wpos := b_wpos dst + unat len\<rparr>)
      })"

definition buf_lshift :: "buf \<Rightarrow> buf option" where
  "buf_lshift b = do {
     sz \<leftarrow> buf_rsize b;
     d \<leftarrow> (if 0 < sz then cc_memmove (b_begin b) 0 (b_rpos b) (unat sz) else Some (b_begin b));
     Some (b\<lparr>b_begin := d, b_rpos := 0, b_wpos := unat sz\<rparr>)
   }"

definition buf_rshift :: "buf \<Rightarrow> buf option" where
  "buf_rshift b = do {
     sz \<leftarrow> buf_rsize b;
     d \<leftarrow> (if 0 < sz then cc_memmove (b_begin b) (b_end b - unat sz) (b_rpos b) (unat sz)
          else Some (b_begin b));
     Some (b\<lparr>b_begin := d, b_rpos := b_end b - unat sz, b_wpos := b_end b\<rparr>)
   }"


section \<open>Invariant and contents\<close>

definition buf_wf :: "buf \<Rightarrow> bool" where
  "buf_wf b \<longleftrightarrow> b_rpos b \<le> b_wpos b \<and> b_wpos b \<le> b_end b \<and> 0 < b_end b \<and>
     length (b_begin b) = b_end b \<and> b_end b + 33 < 4294967296"

definition buf_data :: "buf \<Rightarrow> bytes" where
  "buf_data b = window (b_begin b) (b_rpos b) (b_wpos b - b_rpos b)"

lemma buf_data_length: "buf_wf b \<Longrightarrow> length (buf_data b) = b_wpos b - b_rpos b"
  by (simp add: buf_wf_def buf_data_def window_length)

lemma buf_rsize_wf:
  assumes "buf_wf b"
  shows "\<exists>n. buf_rsize b = Some n \<and> unat n = length (buf_data b)"
proof -
  have "unat (of_nat (b_wpos b - b_rpos b) :: u32) = b_wpos b - b_rpos b"
    using assms by (intro unat_of_nat_32) (auto simp: buf_wf_def)
  then show ?thesis using assms by (simp add: buf_rsize_def buf_data_length) (simp add: buf_wf_def)
qed

lemma buf_wsize_wf:
  assumes "buf_wf b"
  shows "\<exists>n. buf_wsize b = Some n \<and> unat n = b_end b - b_wpos b"
proof -
  have "unat (of_nat (b_end b - b_wpos b) :: u32) = b_end b - b_wpos b"
    using assms by (intro unat_of_nat_32) (auto simp: buf_wf_def)
  then show ?thesis using assms by (simp add: buf_wsize_def buf_wf_def)
qed

lemma buf_size_wf:
  assumes "buf_wf b"
  shows "\<exists>n. buf_size b = Some n \<and> unat n = b_end b + 33"
proof -
  have "unat (of_nat (33 + b_end b) :: u32) = b_end b + 33"
    using assms by (subst unat_of_nat_32) (auto simp: buf_wf_def)
  then show ?thesis using assms by (simp add: buf_size_def buf_wf_def BUF_HDR_SIZE_def)
qed

lemma unat_min: "unat (min a b) = min (unat a) (unat b)" for a b :: "'l::len word"
  by (simp add: min_def word_le_nat_alt)

lemma buf_reset_wf: "buf_wf b \<Longrightarrow> buf_wf (buf_reset b) \<and> buf_data (buf_reset b) = []"
  by (simp add: buf_wf_def buf_reset_def buf_data_def)

lemma buf_read_spec:
  assumes wf: "buf_wf b" and dst: "min (length (buf_data b)) (unat count) \<le> length dst"
  defines "k \<equiv> min (length (buf_data b)) (unat count)"
  obtains len b' where "buf_read dst b count = Some (len, take k (buf_data b) @ drop k dst, b')" "unat len = k"
    "buf_wf b'" "buf_data b' = drop k (buf_data b)" "b_wpos b' = b_wpos b" "b_end b' = b_end b"
proof -
  obtain n where n: "buf_rsize b = Some n" "unat n = length (buf_data b)" using buf_rsize_wf [OF wf] by blast
  have k: "unat (min n count) = k" by (simp add: unat_min n(2) k_def)
  have le: "k \<le> b_wpos b - b_rpos b" by (simp add: k_def buf_data_length [OF wf])
  have kd: "k \<le> length dst" using dst by (simp add: k_def)
  have "take k (drop (b_rpos b) (b_begin b)) = take k (buf_data b)"
    using le by (simp add: buf_data_def window_def min_absorb1)
  then have "cc_memcpy dst 0 (b_begin b) (b_rpos b) k = Some (take k (buf_data b) @ drop k dst)"
    using kd le wf by (subst cc_memcpy_Some) (auto simp: buf_wf_def)
  then have "buf_read dst b count =
      Some (min n count, take k (buf_data b) @ drop k dst, b\<lparr>b_rpos := b_rpos b + k\<rparr>)"
    by (simp add: buf_read_def n(1) k)
  moreover have "buf_wf (b\<lparr>b_rpos := b_rpos b + k\<rparr>)" using wf le by (auto simp: buf_wf_def)
  moreover have "buf_data (b\<lparr>b_rpos := b_rpos b + k\<rparr>) = drop k (buf_data b)"
    by (simp add: buf_data_def drop_window)
  ultimately show ?thesis using that k by simp
qed

lemma buf_write_spec:
  assumes wf: "buf_wf b" and src: "min (b_end b - b_wpos b) (unat count) \<le> length src"
  defines "k \<equiv> min (b_end b - b_wpos b) (unat count)"
  obtains len b' where "buf_write b src count = Some (len, b')" "unat len = k" "buf_wf b'"
    "buf_data b' = buf_data b @ take k src" "b_wpos b' = b_wpos b + k" "b_end b' = b_end b" "b_rpos b' = b_rpos b"
proof (cases "count = 0")
  case True
  show ?thesis by (rule that [of 0 b]) (use True wf in \<open>simp_all add: buf_write_def k_def\<close>)
next
  case False
  obtain n where n: "buf_wsize b = Some n" "unat n = b_end b - b_wpos b" using buf_wsize_wf [OF wf] by blast
  have k: "unat (min n count) = k" by (simp add: unat_min n(2) k_def)
  have le: "k \<le> b_end b - b_wpos b" "k \<le> length src" using src by (simp_all add: k_def)
  let ?d = "take (b_wpos b) (b_begin b) @ take k src @ drop (b_wpos b + k) (b_begin b)"
  have "cc_memcpy (b_begin b) (b_wpos b) src 0 k = Some ?d"
    using le wf by (subst cc_memcpy_Some) (auto simp: buf_wf_def)
  then have "buf_write b src count = Some (min n count, b\<lparr>b_begin := ?d, b_wpos := b_wpos b + k\<rparr>)"
    using False by (simp add: buf_write_def n(1) k)
  moreover have "buf_wf (b\<lparr>b_begin := ?d, b_wpos := b_wpos b + k\<rparr>)" using wf le by (auto simp: buf_wf_def)
  moreover have "buf_data (b\<lparr>b_begin := ?d, b_wpos := b_wpos b + k\<rparr>) = buf_data b @ take k src"
  proof -
    have w: "b_wpos b \<le> length (b_begin b)" "b_rpos b \<le> b_wpos b" using wf by (simp_all add: buf_wf_def)
    have "window ?d (b_wpos b) k = take k src"
      using window_written [of "b_wpos b" "b_begin b" "take k src"] w le by simp
    moreover have "window ?d (b_rpos b) (b_wpos b - b_rpos b) = buf_data b"
      using w by (simp add: buf_data_def window_before_write)
    ultimately show ?thesis
      using window_append [of ?d "b_rpos b" "b_wpos b - b_rpos b" k] w by (simp add: buf_data_def)
  qed
  ultimately show ?thesis
    using k by (intro that [of "min n count" "b\<lparr>b_begin := ?d, b_wpos := b_wpos b + k\<rparr>"]) simp_all
qed

lemma buf_lshift_spec:
  assumes wf: "buf_wf b"
  obtains b' where "buf_lshift b = Some b'" "buf_wf b'" "buf_data b' = buf_data b" "b_rpos b' = 0"
    "b_wpos b' = length (buf_data b)" "b_end b' = b_end b"
proof -
  obtain n where n: "buf_rsize b = Some n" "unat n = length (buf_data b)" using buf_rsize_wf [OF wf] by blast
  let ?k = "length (buf_data b)"
  let ?d = "buf_data b @ drop ?k (b_begin b)"
  have le: "?k \<le> b_end b" "b_rpos b + ?k = b_wpos b" using wf by (auto simp: buf_data_length buf_wf_def)
  have "cc_memmove (b_begin b) 0 (b_rpos b) ?k = Some ?d"
    using wf le by (subst cc_memmove_Some) (auto simp: buf_wf_def buf_data_def window_def)
  then have "buf_lshift b = Some (b\<lparr>b_begin := ?d, b_rpos := 0, b_wpos := ?k\<rparr>)"
    using n by (auto simp: buf_lshift_def word_less_nat_alt)
  moreover have "buf_wf (b\<lparr>b_begin := ?d, b_rpos := 0, b_wpos := ?k\<rparr>)" using wf le by (simp add: buf_wf_def)
  moreover have "buf_data (b\<lparr>b_begin := ?d, b_rpos := 0, b_wpos := ?k\<rparr>) = buf_data b"
    by (subst buf_data_def) (simp add: window_def)
  ultimately show ?thesis using that by simp
qed

lemma buf_rshift_spec:
  assumes wf: "buf_wf b"
  obtains b' where "buf_rshift b = Some b'" "buf_wf b'" "buf_data b' = buf_data b" "b_wpos b' = b_end b"
    "b_end b' = b_end b"
proof -
  obtain n where n: "buf_rsize b = Some n" "unat n = length (buf_data b)" using buf_rsize_wf [OF wf] by blast
  let ?k = "length (buf_data b)"
  let ?d = "take (b_end b - ?k) (b_begin b) @ buf_data b"
  have le: "?k \<le> b_end b" "b_rpos b + ?k = b_wpos b" using wf by (auto simp: buf_data_length buf_wf_def)
  have "cc_memmove (b_begin b) (b_end b - ?k) (b_rpos b) ?k = Some ?d"
    using wf le by (subst cc_memmove_Some) (auto simp: buf_wf_def buf_data_def window_def)
  then have "buf_rshift b = Some (b\<lparr>b_begin := ?d, b_rpos := b_end b - ?k, b_wpos := b_end b\<rparr>)"
    using n wf by (auto simp: buf_rshift_def word_less_nat_alt buf_wf_def)
  moreover have "buf_wf (b\<lparr>b_begin := ?d, b_rpos := b_end b - ?k, b_wpos := b_end b\<rparr>)"
    using wf le by (simp add: buf_wf_def)
  moreover have "buf_data (b\<lparr>b_begin := ?d, b_rpos := b_end b - ?k, b_wpos := b_end b\<rparr>) = buf_data b"
    using wf le by (subst buf_data_def) (simp add: buf_wf_def window_def)
  ultimately show ?thesis using that by simp
qed


text \<open>A buffer is a byte stream whose room grows again only by shifting.\<close>

definition buf_put :: "bytes \<Rightarrow> buf \<Rightarrow> buf option" where
  "buf_put xs b = do {
     (len, b') \<leftarrow> buf_write b xs (of_nat (length xs));
     if unat len = length xs then Some b' else None
   }"

definition buf_get :: "nat \<Rightarrow> buf \<Rightarrow> (bytes \<times> buf) option" where
  "buf_get n b = do {
     (len, dst, b') \<leftarrow> buf_read (replicate n 0) b (of_nat n);
     Some (take (unat len) dst, b')
   }"

definition size_of :: "u32 option \<Rightarrow> nat" where
  "size_of r = (case r of None \<Rightarrow> 0 | Some n \<Rightarrow> unat n)"

lemma size_of_rsize: "buf_wf b \<Longrightarrow> size_of (buf_rsize b) = length (buf_data b)"
  using buf_rsize_wf [of b] by (auto simp: size_of_def)

lemma size_of_wsize: "buf_wf b \<Longrightarrow> size_of (buf_wsize b) = b_end b - b_wpos b"
  using buf_wsize_wf [of b] by (auto simp: size_of_def)

interpretation bufs: byte_stream buf_put buf_get "\<lambda>b. size_of (buf_wsize b)" "\<lambda>b. size_of (buf_rsize b)"
  buf_data buf_wf
proof unfold_locales
  fix b :: buf and xs :: bytes and n :: nat
  assume wf: "buf_wf b"
  then have small: "b_end b < 4294967296" by (simp add: buf_wf_def)
  show "size_of (buf_rsize b) = length (buf_data b)" by (rule size_of_rsize [OF wf])
  show "\<exists>b'. buf_put xs b = Some b' \<and> buf_wf b' \<and> buf_data b' = buf_data b @ xs \<and>
      size_of (buf_wsize b') + length xs = size_of (buf_wsize b)" if "length xs \<le> size_of (buf_wsize b)"
  proof -
    have le: "length xs \<le> b_end b - b_wpos b" using that by (simp add: size_of_wsize [OF wf])
    then have n: "unat (of_nat (length xs) :: u32) = length xs" using small by (intro unat_of_nat_32) simp
    then have k: "min (b_end b - b_wpos b) (unat (of_nat (length xs) :: u32)) = length xs" using le by simp
    then obtain len b' where "buf_write b xs (of_nat (length xs)) = Some (len, b')" "unat len = length xs" "buf_wf b'"
        "buf_data b' = buf_data b @ xs" "b_wpos b' = b_wpos b + length xs" "b_end b' = b_end b"
      using buf_write_spec [OF wf, of "of_nat (length xs)" xs] unfolding k by (metis order_refl take_all)
    then show ?thesis using le wf by (auto simp: buf_put_def size_of_wsize)
  qed
  show "\<exists>b'. buf_get n b = Some (take n (buf_data b), b') \<and> buf_wf b' \<and> buf_data b' = drop n (buf_data b) \<and>
      size_of (buf_wsize b) \<le> size_of (buf_wsize b')" if "n \<le> length (buf_data b)"
  proof -
    have "n < 4294967296" using that small wf by (auto simp: buf_data_length buf_wf_def)
    then have "unat (of_nat n :: u32) = n" by (rule unat_of_nat_32)
    then have k: "min (length (buf_data b)) (unat (of_nat n :: u32)) = n" using that by simp
    obtain len b' where "buf_read (replicate n 0) b (of_nat n) = Some (len, take n (buf_data b), b')" "unat len = n"
        "buf_wf b'" "buf_data b' = drop n (buf_data b)" "b_wpos b' = b_wpos b" "b_end b' = b_end b"
      using buf_read_spec [OF wf, of "of_nat n" "replicate n 0"] unfolding k by auto
    then show ?thesis using wf by (auto simp: buf_get_def size_of_wsize)
  qed
qed


section \<open>The module and its pool\<close>

datatype buf_metric =
    M_buf_curr | M_buf_active | M_buf_create | M_buf_create_ex | M_buf_destroy | M_buf_borrow
  | M_buf_borrow_ex | M_buf_return | M_buf_memory

text \<open>What creating and destroying a buffer acts on: the heap of buffers, metrics, the initial size.\<close>

record buf_world =
  bw_arena :: "buf arena"
  bw_metrics :: "buf_metric metrics"
  bw_init_size :: u32

record buf_module =
  bm_pool :: "nat pool"
  bm_world :: buf_world
  bm_bufp_init :: bool
  bm_buf_init :: bool

text \<open>A block too small for the header has no defined result: the header would be written past it.\<close>

definition buf_create :: "buf_world \<Rightarrow> (nat ptr \<times> buf_world) option" where
  "buf_create w =
     (case arena_request (ucast (bw_init_size w)) (bw_arena w) of
        (Null, ar) \<Rightarrow>
          Some (Null, w\<lparr>bw_arena := ar, bw_metrics := INCR (bw_metrics w) M_buf_create_ex\<rparr>)
      | (Ptr (a, blk), ar) \<Rightarrow>
          if ucast (bw_init_size w) < BUF_HDR_SIZE then None
          else Some (Ptr a,
            w\<lparr>bw_arena := arena_put a (buf_reset
                 \<lparr>b_rpos = 0, b_wpos = 0, b_end = unat (bw_init_size w) - unat BUF_HDR_SIZE, b_free = False,
                  b_begin = drop (unat BUF_HDR_SIZE) blk\<rparr>) ar,
              bw_metrics := INCR_N (INCR (INCR (bw_metrics w) M_buf_create) M_buf_curr) M_buf_memory
                 (ucast (bw_init_size w))\<rparr>))"

definition buf_destroy :: "nat \<Rightarrow> buf_world \<Rightarrow> buf_world option" where
  "buf_destroy a w = do {
     b \<leftarrow> ar_objs (bw_arena w) a;
     cap \<leftarrow> buf_size b;
     Some (w\<lparr>bw_arena := arena_free a (bw_arena w),
             bw_metrics := DECR_N (DECR (INCR (bw_metrics w) M_buf_destroy) M_buf_curr) M_buf_memory (ucast cap)\<rparr>)
   }"

definition buf_pool_destroy :: "buf_module \<Rightarrow> buf_module option" where
  "buf_pool_destroy m =
     (if \<not> bm_bufp_init m then Some m
      else do {
        (p, w) \<leftarrow> FREEPOOL_DESTROY buf_destroy (bm_pool m) (bm_world m);
        Some (m\<lparr>bm_pool := p, bm_world := w, bm_bufp_init := False\<rparr>)
      })"

text \<open>\<^verbatim>\<open>exit\<close> when the pool cannot be filled is a result of its own: \<^term>\<open>Inl ()\<close>.\<close>

definition buf_pool_create :: "u32 \<Rightarrow> buf_module \<Rightarrow> (unit + buf_module) option" where
  "buf_pool_create mx m = do {
     m1 \<leftarrow> (if bm_bufp_init m then buf_pool_destroy m else Some m);
     p \<leftarrow> FREEPOOL_CREATE mx (bm_pool m1);
     (p', w) \<leftarrow> FREEPOOL_PREALLOC buf_create mx p (bm_world m1);
     Some (if pl_nfree p' < mx then Inl ()
           else Inr (m1\<lparr>bm_pool := p', bm_world := w, bm_bufp_init := True\<rparr>))
   }"

definition buf_borrow :: "buf_module \<Rightarrow> (nat ptr \<times> buf_module) option" where
  "buf_borrow m = do {
     (r, p, w) \<leftarrow> FREEPOOL_BORROW buf_create (bm_pool m) (bm_world m);
     (case r of
        Null \<Rightarrow> Some (Null, m\<lparr>bm_pool := p, bm_world := w\<lparr>bw_metrics := INCR (bw_metrics w) M_buf_borrow_ex\<rparr>\<rparr>)
      | Ptr a \<Rightarrow> do {
          b \<leftarrow> ar_objs (bw_arena w) a;
          Some (Ptr a, m\<lparr>bm_pool := p\<lparr>pl_freeq := set_cell (NextOf a) Null (pl_freeq p)\<rparr>,
            bm_world := w\<lparr>bw_arena := arena_put a (buf_reset b) (bw_arena w),
              bw_metrics := INCR (INCR (bw_metrics w) M_buf_borrow) M_buf_active\<rparr>\<rparr>)
        })
   }"

definition buf_return :: "nat ptr ptr \<Rightarrow> buf_module \<Rightarrow> (nat ptr ptr \<times> buf_module) option" where
  "buf_return buf m =
     (case buf of
        Null \<Rightarrow> Some (buf, m)
      | Ptr Null \<Rightarrow> Some (buf, m)
      | Ptr (Ptr a) \<Rightarrow> do {
          elm \<leftarrow> ar_objs (bw_arena (bm_world m)) a;
          if b_free elm then Some (buf, m)
          else do {
            ASSERT (STAILQ_NEXT a (pl_freeq (bm_pool m)) = Null);
            ASSERT (b_wpos elm \<le> b_end elm);
            p \<leftarrow> FREEPOOL_RETURN a (bm_pool m);
            let w = bm_world m;
            Some (Ptr Null, m\<lparr>bm_pool := p,
              bm_world := w\<lparr>bw_arena := arena_put a (elm\<lparr>b_free := True\<rparr>) (bw_arena w),
                bw_metrics := DECR (INCR (bw_metrics w) M_buf_return) M_buf_active\<rparr>\<rparr>)
          }
        })"

text \<open>The options are the values of \<^verbatim>\<open>buf_init_size\<close> and \<^verbatim>\<open>buf_poolsize\<close>, if there are options.\<close>

definition buf_setup ::
  "(u32 \<times> u32) ptr \<Rightarrow> buf_metric metrics \<Rightarrow> buf_module \<Rightarrow> (unit + buf_module) option" where
  "buf_setup options metrics m = do {
     let w = (bm_world m)\<lparr>bw_metrics := metrics\<rparr>;
     let (init_size, mx) = (case options of Null \<Rightarrow> (bw_init_size w, BUF_POOLSIZE) | Ptr (i, ps) \<Rightarrow> (i, ps));
     r \<leftarrow> buf_pool_create mx (m\<lparr>bm_world := w\<lparr>bw_init_size := init_size\<rparr>\<rparr>);
     Some (case r of Inl u \<Rightarrow> Inl u | Inr m' \<Rightarrow> Inr (m'\<lparr>bm_buf_init := True\<rparr>))
   }"

definition buf_teardown :: "buf_module \<Rightarrow> buf_module option" where
  "buf_teardown m = do {
     m' \<leftarrow> buf_pool_destroy m;
     Some (m'\<lparr>bm_world := (bm_world m')\<lparr>bw_metrics := Null\<rparr>, bm_buf_init := False\<rparr>)
   }"


section \<open>What the pool gives\<close>

definition bw_ok :: "buf_world \<Rightarrow> bool" where
  "bw_ok w \<longleftrightarrow> arena_ok (bw_arena w) \<and> 33 < unat (bw_init_size w) \<and>
     (\<forall>a b. ar_objs (bw_arena w) a = Some b \<longrightarrow> buf_wf b)"

definition bw_live :: "buf_world \<Rightarrow> nat set" where
  "bw_live w = dom (ar_objs (bw_arena w))"

lemma buf_create_ok:
  assumes ok: "bw_ok w"
  shows "\<exists>r w'. buf_create w = Some (r, w') \<and> bw_ok w' \<and>
     (r = Null \<and> bw_live w' = bw_live w \<or> (\<exists>e. r = Ptr e \<and> e \<notin> bw_live w \<and> bw_live w' = insert e (bw_live w)))"
proof -
  obtain r ar where req: "arena_request (ucast (bw_init_size w)) (bw_arena w) = (r, ar)" by fastforce
  have "arena_ok (bw_arena w)" using ok by (simp add: bw_ok_def)
  note ar = arena_request_ok [OF this req]
  show ?thesis
  proof (cases r)
    case Null
    then show ?thesis using req ok ar by (simp add: buf_create_def bw_ok_def bw_live_def)
  next
    case (Ptr x)
    then obtain a blk where x: "r = Ptr (a, blk)" by (cases x) simp
    note blk = ar(3) [OF x]
    have "\<not> ucast (bw_init_size w) < BUF_HDR_SIZE"
      using ok by (simp add: BUF_HDR_SIZE_def bw_ok_def word_less_nat_alt)
    moreover have "buf_wf \<lparr>b_rpos = 0, b_wpos = 0, b_end = unat (bw_init_size w) - 33, b_free = False, b_begin = drop 33 blk\<rparr>"
      using ok blk by (simp add: buf_wf_def bw_ok_def)
    ultimately show ?thesis
      using req x ok ar(1,2) blk
      by (auto simp: buf_create_def bw_ok_def bw_live_def BUF_HDR_SIZE_def buf_reset_def)
  qed
qed

lemma buf_destroy_ok:
  assumes ok: "bw_ok w" and e: "e \<in> bw_live w"
  shows "\<exists>w'. buf_destroy e w = Some w' \<and> bw_ok w' \<and> bw_live w' = bw_live w - {e}"
proof -
  obtain b where b: "ar_objs (bw_arena w) e = Some b" using e by (auto simp: bw_live_def)
  then have "buf_wf b" using ok by (simp add: bw_ok_def)
  then obtain n where "buf_size b = Some n" using buf_size_wf by blast
  then show ?thesis using ok b by (auto simp: buf_destroy_def bw_ok_def bw_live_def)
qed

interpretation bufp: object_pool buf_create buf_destroy bw_live bw_ok
  by unfold_locales (fact buf_create_ok buf_destroy_ok)+

text \<open>
  The invariant of the module: besides the pool's, a borrowed buffer is not marked free and its
  link is \<^verbatim>\<open>NULL\<close>, which is what \<^verbatim>\<open>buf_return\<close> tests and asserts.
\<close>

definition buf_inv :: "buf_module \<Rightarrow> nat list \<Rightarrow> nat set \<Rightarrow> bool" where
  "buf_inv m fr us \<longleftrightarrow> pool_inv (bm_pool m) fr us \<and> bw_ok (bm_world m) \<and> set fr \<union> us \<subseteq> bw_live (bm_world m) \<and>
     (\<forall>a \<in> us. STAILQ_NEXT a (pl_freeq (bm_pool m)) = Null \<and>
        (\<exists>b. ar_objs (bw_arena (bm_world m)) a = Some b \<and> \<not> b_free b))"

lemma buf_invD:
  assumes "buf_inv m fr us"
  shows "pool_inv (bm_pool m) fr us" "bw_ok (bm_world m)" "set fr \<union> us \<subseteq> bw_live (bm_world m)"
    "a \<in> us \<Longrightarrow> STAILQ_NEXT a (pl_freeq (bm_pool m)) = Null"
    "a \<in> us \<Longrightarrow> \<exists>b. ar_objs (bw_arena (bm_world m)) a = Some b \<and> \<not> b_free b"
  using assms by (auto simp: buf_inv_def)

lemma buf_return_ok:
  assumes inv: "buf_inv m fr us" and a: "a \<in> us"
  obtains m' where "buf_return (Ptr (Ptr a)) m = Some (Ptr Null, m')" "buf_inv m' (a # fr) (us - {a})"
    "pl_nmax (bm_pool m') = pl_nmax (bm_pool m)" "\<And>p. p = Ptr (Ptr a) \<Longrightarrow> buf_return p m' = Some (p, m')"
proof -
  note bis = buf_invD [OF inv]
  let ?w = "bm_world m"
  obtain b where b: "ar_objs (bw_arena ?w) a = Some b" "\<not> b_free b" using bis(5) [OF a] by blast
  have wf: "buf_wf b" using b(1) bis(2) by (simp add: bw_ok_def)
  obtain p where p: "FREEPOOL_RETURN a (bm_pool m) = Some p" "pool_inv p (a # fr) (us - {a})"
      "pl_nmax p = pl_nmax (bm_pool m)"
    using bis(1) a by (rule FREEPOOL_RETURN_inv)
  have q: "STAILQ_NEXT x (pl_freeq p) = STAILQ_NEXT x (pl_freeq (bm_pool m))" if "x \<noteq> a" for x
    using p(1) that
    by (auto simp: FREEPOOL_RETURN_def STAILQ_INSERT_HEAD_def Let_def STAILQ_NEXT_def q_updates split: if_splits)
  let ?m = "m\<lparr>bm_pool := p, bm_world := ?w\<lparr>bw_arena := arena_put a (b\<lparr>b_free := True\<rparr>) (bw_arena ?w),
      bw_metrics := DECR (INCR (bw_metrics ?w) M_buf_return) M_buf_active\<rparr>\<rparr>"
  have "buf_return (Ptr (Ptr a)) m = Some (Ptr Null, ?m)"
    using b p(1) bis(4) [OF a] wf by (simp add: buf_return_def buf_wf_def Let_def)
  moreover have "buf_inv ?m (a # fr) (us - {a})"
    using p(2) bis wf a q by (auto simp: buf_inv_def bw_ok_def bw_live_def buf_wf_def)
  moreover have "buf_return (Ptr (Ptr a)) ?m = Some (Ptr (Ptr a), ?m)" by (simp add: buf_return_def)
  ultimately show ?thesis using that [of ?m] p(3) by simp
qed


lemma buf_create_frame:
  assumes "bw_ok w" "buf_create w = Some (r, w')" "x \<in> bw_live w"
  shows "ar_objs (bw_arena w') x = ar_objs (bw_arena w) x"
proof -
  obtain q ar where req: "arena_request (ucast (bw_init_size w)) (bw_arena w) = (q, ar)" by fastforce
  have "arena_ok (bw_arena w)" using assms(1) by (simp add: bw_ok_def)
  note ar = arena_request_ok [OF this req]
  show ?thesis
    using assms(2,3) req ar
    by (auto simp: buf_create_def bw_live_def split: ptr.splits prod.splits if_splits)
qed

lemma buf_create_reset:
  assumes "bw_ok w" "buf_create w = Some (Ptr e, w')"
  shows "\<exists>b. ar_objs (bw_arena w') e = Some b"
  using assms by (auto simp: buf_create_def split: ptr.splits prod.splits if_splits)

lemma pool_inv_clear:
  assumes "pool_inv p fr us" "a \<in> us"
  shows "pool_inv (p\<lparr>pl_freeq := set_cell (NextOf a) Null (pl_freeq p)\<rparr>) fr us"
proof -
  have "stailq_rep (set_cell (NextOf a) Null (pl_freeq p)) () fr"
    by (rule stailq_rep_frame [of "pl_freeq p"]) (use assms in \<open>auto simp: pool_inv_def set_cell_def\<close>)
  then show ?thesis using assms(1) by (simp add: pool_inv_def)
qed

text \<open>After the pool has handed out \<open>a\<close> in a world \<open>w\<close>, the module resets it.\<close>

lemma buf_borrow_finish:
  assumes inv: "buf_inv m fr us" and a: "a \<notin> us"
    and b: "FREEPOOL_BORROW buf_create (bm_pool m) (bm_world m) = Some (Ptr a, p, w)"
    and p: "pool_inv p fr' (insert a us)" and w: "bw_ok w" "set fr' \<union> insert a us \<subseteq> bw_live w"
    and frame: "\<And>x. x \<in> us \<Longrightarrow> ar_objs (bw_arena w) x = ar_objs (bw_arena (bm_world m)) x"
  obtains m' b where "buf_borrow m = Some (Ptr a, m')" "buf_inv m' fr' (insert a us)" "pl_nmax (bm_pool m') = pl_nmax p"
    "ar_objs (bw_arena (bm_world m')) a = Some b" "buf_wf b" "buf_data b = []"
proof -
  note bis = buf_invD [OF inv]
  obtain c where c: "ar_objs (bw_arena w) a = Some c" using w(2) by (auto simp: bw_live_def)
  then have wf: "buf_wf c" using w(1) by (simp add: bw_ok_def)
  let ?p = "p\<lparr>pl_freeq := set_cell (NextOf a) Null (pl_freeq p)\<rparr>"
  let ?m = "m\<lparr>bm_pool := ?p, bm_world := w\<lparr>bw_arena := arena_put a (buf_reset c) (bw_arena w),
      bw_metrics := INCR (INCR (bw_metrics w) M_buf_borrow) M_buf_active\<rparr>\<rparr>"
  have "buf_borrow m = Some (Ptr a, ?m)" using b c by (simp add: buf_borrow_def)
  moreover have "buf_inv ?m fr' (insert a us)"
  proof -
    have "pool_inv ?p fr' (insert a us)" using pool_inv_clear [OF p] by simp
    moreover have "STAILQ_NEXT x (pl_freeq ?p) = Null" if "x \<in> insert a us" for x
      using that bis(4) FREEPOOL_BORROW_links [OF b, of x] by (auto simp: STAILQ_NEXT_def set_cell_def)
    moreover have "\<exists>d. ar_objs (bw_arena w) x = Some d \<and> \<not> b_free d" if "x \<in> us" for x
      using that bis(5) frame by simp
    ultimately show ?thesis
      using w buf_reset_wf [OF wf] a by (auto simp: buf_inv_def bw_ok_def bw_live_def buf_reset_def)
  qed
  ultimately show ?thesis using that [of ?m "buf_reset c"] buf_reset_wf [OF wf] by simp
qed

lemma buf_borrow_ok:
  assumes inv: "buf_inv m fr us"
  obtains (borrowed) a m' fr' b where "buf_borrow m = Some (Ptr a, m')" "a \<notin> us" "buf_inv m' fr' (insert a us)"
      "pl_nmax (bm_pool m') = pl_nmax (bm_pool m)"
      "ar_objs (bw_arena (bm_world m')) a = Some b" "buf_wf b" "buf_data b = []"
  | (refused) m' where "buf_borrow m = Some (Null, m')" "fr = []" "buf_inv m' [] us"
      "pl_nmax (bm_pool m') = pl_nmax (bm_pool m)"
      "card us = unat (pl_nmax (bm_pool m)) \<or> (\<exists>w'. buf_create (bm_world m) = Some (Null, w'))"
proof -
  note bis = buf_invD [OF inv]
  from bis(1-3) show ?thesis
  proof (cases rule: bufp.borrow_cases)
    case (reused e fr' p')
    have "e \<notin> us" using pool_invD(4) [OF bis(1)] reused(2) by auto
    have "set fr' \<union> insert e us \<subseteq> bw_live (bm_world m)" using bis(3) reused(2) by auto
    with inv \<open>e \<notin> us\<close> reused(1,3) bis(2) obtain m' b where "buf_borrow m = Some (Ptr e, m')"
        "buf_inv m' fr' (insert e us)" "pl_nmax (bm_pool m') = pl_nmax p'"
        "ar_objs (bw_arena (bm_world m')) e = Some b" "buf_wf b" "buf_data b = []"
      by (rule buf_borrow_finish) simp
    then show ?thesis using borrowed \<open>e \<notin> us\<close> reused(4) by simp
  next
    case (created e p' w')
    have frame: "ar_objs (bw_arena w') x = ar_objs (bw_arena (bm_world m)) x" if "x \<in> us" for x
      using that created(8) bis(2,3) by (auto intro: buf_create_frame)
    have "set [] \<union> insert e us \<subseteq> bw_live w'" using created(5) bis(3) by auto
    with inv created(3,1,6,4) obtain m' b where "buf_borrow m = Some (Ptr e, m')"
        "buf_inv m' [] (insert e us)" "pl_nmax (bm_pool m') = pl_nmax p'"
        "ar_objs (bw_arena (bm_world m')) e = Some b" "buf_wf b" "buf_data b = []"
      by (rule buf_borrow_finish) (rule frame)
    then show ?thesis using borrowed created(3,7) by simp
  next
    case (none w')
    have frame: "ar_objs (bw_arena w') x = ar_objs (bw_arena (bm_world m)) x" if "x \<in> us" for x
      using that none(5) bis(2,3) by (auto intro: buf_create_frame)
    let ?m = "m\<lparr>bm_world := w'\<lparr>bw_metrics := INCR (bw_metrics w') M_buf_borrow_ex\<rparr>\<rparr>"
    have "buf_inv ?m [] us"
      using bis none frame by (auto simp: buf_inv_def bw_ok_def bw_live_def)
    moreover have "buf_borrow m = Some (Null, ?m)" using none(1) by (simp add: buf_borrow_def)
    ultimately show ?thesis using none(2,5) refused [of ?m] by auto
  qed
qed


text \<open>Clients of the module: they borrow, and return what they hold.\<close>

datatype buf_op = BBorrow | BReturn nat

fun buf_run :: "buf_op list \<Rightarrow> buf_module \<Rightarrow> nat list \<Rightarrow> (buf_module \<times> nat list) option" where
  "buf_run [] m us = Some (m, us)"
| "buf_run (BBorrow # ops) m us = do {
     (r, m') \<leftarrow> buf_borrow m;
     buf_run ops m' (case r of Null \<Rightarrow> us | Ptr a \<Rightarrow> a # us)
   }"
| "buf_run (BReturn a # ops) m us =
     (if a \<in> set us then do {
        (p, m') \<leftarrow> buf_return (Ptr (Ptr a)) m;
        buf_run ops m' (remove1 a us)
      } else buf_run ops m us)"

lemma buf_run_ok:
  "buf_inv m fr (set us) \<Longrightarrow> distinct us \<Longrightarrow>
   \<exists>m' us' fr'. buf_run ops m us = Some (m', us') \<and> buf_inv m' fr' (set us') \<and> distinct us' \<and>
     length us' \<le> unat (pl_nmax (bm_pool m))"
proof (induction ops arbitrary: m us fr)
  case Nil
  then show ?case using pool_invD(7) [OF buf_invD(1) [OF Nil(1)]] by (auto simp: distinct_card)
next
  case (Cons op ops)
  show ?case
  proof (cases op)
    case BBorrow
    from Cons.prems(1) show ?thesis
    proof (cases rule: buf_borrow_ok)
      case (borrowed a m' fr' b)
      then show ?thesis using Cons.IH [of m' fr' "a # us"] Cons.prems(2) BBorrow by simp
    next
      case (refused m')
      then show ?thesis using Cons.IH [of m' "[]" us] Cons.prems(2) BBorrow by simp
    qed
  next
    case (BReturn a)
    show ?thesis
    proof (cases "a \<in> set us")
      case True
      from Cons.prems(1) True obtain m' where "buf_return (Ptr (Ptr a)) m = Some (Ptr Null, m')"
          "buf_inv m' (a # fr) (set us - {a})" "pl_nmax (bm_pool m') = pl_nmax (bm_pool m)"
        by (rule buf_return_ok)
      moreover have "set (remove1 a us) = set us - {a}" using Cons.prems(2) by simp
      ultimately show ?thesis using Cons.IH [of m' "a # fr" "remove1 a us"] Cons.prems(2) True BReturn by simp
    next
      case False
      then show ?thesis using Cons BReturn by simp
    qed
  qed
qed


section \<open>Properties\<close>

text \<open>C7: the buffer pool. From any state in which the pool's invariant holds, any sequence of
  \<^verbatim>\<open>buf_borrow\<close> and \<^verbatim>\<open>buf_return\<close> calls runs without failing an assertion, keeps the invariant
  (the free queue and the counters agree, no buffer is both free and borrowed), never hands a
  buffer that is out to a second borrower, and never has more than the configured maximum out.\<close>

theorem buf_pool_exclusive:
  assumes "buf_inv m fr (set us)" and "distinct us"
  shows "\<exists>m' us' fr'. buf_run ops m us = Some (m', us') \<and> buf_inv m' fr' (set us') \<and> distinct us' \<and>
           length us' \<le> unat (pl_nmax (bm_pool m))"
  by (rule buf_run_ok [OF assms])

definition buf_sample :: buf_module where
  "buf_sample =
     \<lparr>bm_pool = \<lparr>pl_freeq = \<lparr>q_cell = \<lambda>_. Null, q_last = FirstOf, q_prev = NextOf\<rparr>,
                 pl_nfree = 0, pl_nused = 0, pl_nmax = 2, pl_initialized = True\<rparr>,
      bm_world = \<lparr>bw_arena = \<lparr>ar_objs = Map.empty, ar_alloc = arena_next, ar_tick = 0\<rparr>,
                  bw_metrics = Null, bw_init_size = 40\<rparr>,
      bm_bufp_init = True, bm_buf_init = True\<rparr>"

lemma buf_sample_inv: "buf_inv buf_sample [] (set [])"
  by (auto simp: buf_inv_def buf_sample_def pool_inv_def stailq_rep_def slist_rep_def bw_ok_def arena_ok_def
      arena_next_def bw_live_def split: if_splits)

theorem buf_pool_exclusive_witness:
  "\<exists>m' us' fr'. buf_run [BBorrow, BBorrow, BReturn 0, BBorrow, BBorrow] buf_sample [] = Some (m', us') \<and>
     buf_inv m' fr' (set us') \<and> distinct us' \<and> length us' \<le> unat (2 :: u32)"
proof -
  have mx: "pl_nmax (bm_pool buf_sample) = 2" by (simp add: buf_sample_def)
  have "distinct ([] :: nat list)" by simp
  from buf_pool_exclusive [OF buf_sample_inv this, of "[BBorrow, BBorrow, BReturn 0, BBorrow, BBorrow]"]
  show ?thesis unfolding mx by blast
qed

text \<open>C36: returning a buffer puts it at the front of the free queue, clears the caller's pointer, and a
  second return of the same buffer through a stale copy of the pointer changes nothing.\<close>

theorem buf_double_return:
  assumes "buf_inv m fr us" and "a \<in> us"
  shows "\<exists>m'. buf_return (Ptr (Ptr a)) m = Some (Ptr Null, m') \<and> buf_inv m' (a # fr) (us - {a}) \<and>
           buf_return (Ptr (Ptr a)) m' = Some (Ptr (Ptr a), m')"
  using assms by (rule buf_return_ok) blast

definition buf_sample1 :: buf_module where
  "buf_sample1 = buf_sample
     \<lparr>bm_pool := (bm_pool buf_sample)\<lparr>pl_nused := 1\<rparr>,
      bm_world := (bm_world buf_sample)\<lparr>bw_arena := (bw_arena (bm_world buf_sample))\<lparr>ar_objs :=
        [5 \<mapsto> \<lparr>b_rpos = 1, b_wpos = 3, b_end = 7, b_free = False, b_begin = [1, 2, 3, 4, 5, 6, 7]\<rparr>]\<rparr>\<rparr>\<rparr>"

lemma buf_sample1_inv: "buf_inv buf_sample1 [] {5}"
  by (auto simp: buf_inv_def buf_sample1_def buf_sample_def pool_inv_def stailq_rep_def slist_rep_def bw_ok_def
      arena_ok_def arena_next_def bw_live_def buf_wf_def STAILQ_NEXT_def split: if_splits)

theorem buf_double_return_witness:
  "\<exists>m'. buf_return (Ptr (Ptr 5)) buf_sample1 = Some (Ptr Null, m') \<and> buf_inv m' [5] {} \<and>
     buf_return (Ptr (Ptr 5)) m' = Some (Ptr (Ptr 5), m')"
  using buf_double_return [OF buf_sample1_inv, of 5] by simp



text \<open>C38: the flat buffer is a first-in first-out byte stream: writes that fit and reads of what is held
  lose, repeat and reorder nothing and stay inside the buffer.\<close>

theorem buf_fifo:
  assumes "buf_wf b"
  shows "\<exists>ins outs b'. stream_run buf_put buf_get (\<lambda>b. size_of (buf_wsize b)) (\<lambda>b. size_of (buf_rsize b)) ops b =
           Some (ins, outs, b') \<and> buf_wf b' \<and> buf_data b @ ins = outs @ buf_data b'"
  by (rule bufs.stream_order [OF assms])

definition buf_one :: buf where
  "buf_one = \<lparr>b_rpos = 1, b_wpos = 3, b_end = 7, b_free = False, b_begin = [1, 2, 3, 4, 5, 6, 7]\<rparr>"

lemma buf_one_wf: "buf_wf buf_one" "buf_data buf_one = [2, 3]"
  by (simp_all add: buf_one_def buf_wf_def buf_data_def window_def)

theorem buf_fifo_witness:
  "\<exists>ins outs b'. stream_run buf_put buf_get (\<lambda>b. size_of (buf_wsize b)) (\<lambda>b. size_of (buf_rsize b))
      [SPut [9, 9], SGet 3] buf_one = Some (ins, outs, b') \<and> [2, 3] @ ins = outs @ buf_data b'"
  using buf_fifo [OF buf_one_wf(1), of "[SPut [9, 9], SGet 3]"] unfolding buf_one_wf(2) by blast

text \<open>Shifting. \<^verbatim>\<open>buf_lshift\<close> moves the unread bytes to the front, so that everything else is
  room for writing, and \<^verbatim>\<open>buf_rshift\<close> moves them to the end; neither changes the unread bytes.\<close>

theorem buf_shift_keeps_data:
  assumes "buf_wf b"
  shows "\<exists>l r. buf_lshift b = Some l \<and> buf_wf l \<and> buf_data l = buf_data b \<and>
           size_of (buf_wsize l) = b_end b - length (buf_data b) \<and>
           buf_rshift b = Some r \<and> buf_wf r \<and> buf_data r = buf_data b \<and> buf_wsize r = Some 0"
proof -
  obtain l where l: "buf_lshift b = Some l" "buf_wf l" "buf_data l = buf_data b" "b_wpos l = length (buf_data b)"
      "b_end l = b_end b"
    using assms by (rule buf_lshift_spec)
  obtain r where r: "buf_rshift b = Some r" "buf_wf r" "buf_data r = buf_data b" "b_wpos r = b_end b" "b_end r = b_end b"
    using assms by (rule buf_rshift_spec)
  have "buf_wsize r = Some 0" using r(4,5) by (simp add: buf_wsize_def)
  then show ?thesis using l r by (simp add: size_of_wsize)
qed

theorem buf_shift_keeps_data_witness:
  "\<exists>l r. buf_lshift buf_one = Some l \<and> buf_data l = [2, 3] \<and> size_of (buf_wsize l) = 5 \<and>
     buf_rshift buf_one = Some r \<and> buf_data r = [2, 3]"
proof -
  have "b_end buf_one - length [2, 3 :: u8] = 5" by (simp add: buf_one_def)
  then show ?thesis using buf_shift_keeps_data [OF buf_one_wf(1)] unfolding buf_one_wf(2) by auto
qed

end
