(* ===== verification/Cc_Dbuf.thy ===== *)
theory Cc_Dbuf
  imports Cc_Buf
begin

text \<open>
  The resizable buffer of \<^verbatim>\<open>src/buffer/cc_dbuf.c\<close>: doubling, fitting a capacity and shrinking,
  on the buffers of theory \<open>Cc_Buf\<close>. An operation returns its status, the buffer behind the
  caller's pointer, whether that buffer is still allocated, and the updated module state. The
  loops that search a size are \<open>partial_function\<close>s: in the C code they need not end.
\<close>

section \<open>Data and operations\<close>

datatype dbuf_metric =
  M_dbuf_double | M_dbuf_double_ex | M_dbuf_shrink | M_dbuf_shrink_ex | M_dbuf_fit | M_dbuf_fit_ex

text \<open>The module's variables, and the two variables of the buf module that it uses.\<close>

record dbuf_module =
  dm_init :: bool
  dm_max_power :: u8
  dm_max_size :: u32
  dm_metrics :: "dbuf_metric metrics"
  dm_buf_init_size :: u32
  dm_buf_metrics :: "buf_metric metrics"

definition DBUF_DEFAULT_MAX :: nat where
  "DBUF_DEFAULT_MAX = 8"

definition dbuf_default :: dbuf_module where
  "dbuf_default = \<lparr>dm_init = False, dm_max_power = of_nat DBUF_DEFAULT_MAX,
     dm_max_size = push_bit DBUF_DEFAULT_MAX BUF_INIT_SIZE, dm_metrics = Null,
     dm_buf_init_size = BUF_INIT_SIZE, dm_buf_metrics = Null\<rparr>"

text \<open>The option is a \<^verbatim>\<open>uintmax_t\<close>, stored in a \<^verbatim>\<open>uint8_t\<close>; a shift by 32 or more is undefined.\<close>

definition dbuf_setup :: "u64 ptr \<Rightarrow> dbuf_metric metrics \<Rightarrow> dbuf_module \<Rightarrow> dbuf_module option" where
  "dbuf_setup options metrics m =
     (case options of
        Null \<Rightarrow> Some (m\<lparr>dm_metrics := metrics, dm_init := True\<rparr>)
      | Ptr pw \<Rightarrow>
          (let mp = (ucast pw :: u8) in
           if 32 \<le> unat mp then None
           else Some (m\<lparr>dm_metrics := metrics, dm_max_power := mp,
                        dm_max_size := push_bit (unat mp) (dm_buf_init_size m), dm_init := True\<rparr>)))"

definition dbuf_teardown :: "dbuf_module \<Rightarrow> dbuf_module" where
  "dbuf_teardown m = m\<lparr>dm_init := False\<rparr>"

text \<open>The memory block of a buffer: its header, rewritten after the move, and its data.\<close>

definition buf_block :: "buf \<Rightarrow> bytes" where
  "buf_block b = replicate (unat BUF_HDR_SIZE) 0 @ b_begin b"

definition dbuf_resize ::
  "realloc_fn \<Rightarrow> buf \<Rightarrow> u32 \<Rightarrow> dbuf_module \<Rightarrow> (rstatus \<times> buf \<times> bool \<times> dbuf_module) option" where
  "dbuf_resize realloc b nsize m =
     (if dm_max_size m < nsize then Some (CC_ERROR, b, True, m)
      else do {
        osize \<leftarrow> buf_size b;
        let roffset = (of_nat (b_rpos b) :: u32);
        let woffset = (of_nat (b_wpos b) :: u32);
        (case cc_realloc realloc (buf_block b) (ucast nsize) of
           (Null, alive) \<Rightarrow> Some (CC_ENOMEM, b, alive, m)
         | (Ptr nblk, _) \<Rightarrow>
             if ucast nsize < BUF_HDR_SIZE then None
             else Some (CC_OK,
               b\<lparr>b_end := unat nsize - unat BUF_HDR_SIZE, b_rpos := unat roffset, b_wpos := unat woffset,
                 b_begin := drop (unat BUF_HDR_SIZE) nblk\<rparr>, True,
               m\<lparr>dm_buf_metrics :=
                   INCR_N (DECR_N (dm_buf_metrics m) M_buf_memory (ucast osize)) M_buf_memory (ucast nsize)\<rparr>))
      })"

definition dbuf_double :: "realloc_fn \<Rightarrow> buf \<Rightarrow> dbuf_module \<Rightarrow> (rstatus \<times> buf \<times> bool \<times> dbuf_module) option" where
  "dbuf_double realloc b m = do {
     osize \<leftarrow> buf_size b;
     (status, b', alive, m') \<leftarrow> dbuf_resize realloc b (osize * 2) m;
     Some (status, b', alive,
       m'\<lparr>dm_metrics := INCR (dm_metrics m') (if status = CC_OK then M_dbuf_double else M_dbuf_double_ex)\<rparr>)
   }"

text \<open>The comparison is made in \<^verbatim>\<open>size_t\<close>, the doubling in \<^verbatim>\<open>uint32_t\<close>.\<close>

partial_function (option) grow_loop :: "u32 \<Rightarrow> u64 \<Rightarrow> u32 option" where
  [code]: "grow_loop nsize need = (if ucast nsize < need then grow_loop (nsize * 2) need else Some nsize)"

definition dbuf_fit ::
  "realloc_fn \<Rightarrow> buf \<Rightarrow> u32 \<Rightarrow> dbuf_module \<Rightarrow> (rstatus \<times> buf \<times> bool \<times> dbuf_module) option" where
  "dbuf_fit realloc b cap m = do {
     rsize \<leftarrow> buf_rsize b;
     if cap < rsize then Some (CC_ERROR, b, True, m)
     else do {
       b1 \<leftarrow> buf_lshift b;
       nsize \<leftarrow> grow_loop (dm_buf_init_size m) (ucast cap + BUF_HDR_SIZE);
       sz \<leftarrow> buf_size b1;
       if nsize \<noteq> sz then do {
         (status, b2, alive, m') \<leftarrow> dbuf_resize realloc b1 nsize m;
         Some (status, b2, alive,
           m'\<lparr>dm_metrics := INCR (dm_metrics m') (if status = CC_OK then M_dbuf_fit else M_dbuf_fit_ex)\<rparr>)
       } else Some (CC_OK, b1, True, m)
     }
   }"

definition dbuf_shrink :: "realloc_fn \<Rightarrow> buf \<Rightarrow> dbuf_module \<Rightarrow> (rstatus \<times> buf \<times> bool \<times> dbuf_module) option" where
  "dbuf_shrink realloc b m = do {
     cap \<leftarrow> buf_rsize b;
     b1 \<leftarrow> buf_lshift b;
     nsize \<leftarrow> grow_loop (dm_buf_init_size m) (ucast cap + BUF_HDR_SIZE);
     sz \<leftarrow> buf_size b1;
     if nsize \<noteq> sz then do {
       (status, b2, alive, m') \<leftarrow> dbuf_resize realloc b1 nsize m;
       Some (status, b2, alive,
         m'\<lparr>dm_metrics := INCR (dm_metrics m') (if status = CC_OK then M_dbuf_shrink else M_dbuf_shrink_ex)\<rparr>)
     } else Some (CC_OK, b1, True, m)
   }"


section \<open>The size search\<close>

text \<open>
  Up to \<open>2^31\<close> bytes the search ends, in a power of two times the initial size, and never asks
  for twice as much as is needed (unless the initial size already is that large).
\<close>

lemma u32_double: "unat n < 2147483648 \<Longrightarrow> unat (n * 2) = 2 * unat n" for n :: u32
  using unat_mult_small [of n "2 :: u32"] by simp

lemma grow_loop_ends:
  assumes "0 < unat n" "unat need \<le> 2147483648"
  shows "\<exists>y k. grow_loop n need = Some y \<and> unat need \<le> unat y \<and> unat y = unat n * 2 ^ k \<and>
           (y = n \<or> unat y < 2 * unat need)"
  using assms
proof (induction "unat need - unat n" arbitrary: n rule: less_induct)
  case less
  show ?case
  proof (cases "unat n < unat need")
    case False
    then show ?thesis
      by (intro exI [of _ n] exI [of _ 0]) (simp add: grow_loop.simps word_less_nat_alt)
  next
    case True
    then have d: "unat (n * 2) = 2 * unat n" using less.prems by (intro u32_double) simp
    then obtain y k where y: "grow_loop (n * 2) need = Some y" "unat need \<le> unat y" "unat y = unat (n * 2) * 2 ^ k"
        "y = n * 2 \<or> unat y < 2 * unat need"
      using less.hyps [of "n * 2"] less.prems True by fastforce
    have "grow_loop n need = Some y" using True y(1) by (simp add: grow_loop.simps [of n] word_less_nat_alt)
    moreover have "unat y = unat n * 2 ^ Suc k" using y(3) d by simp
    moreover have "unat y < 2 * unat need" using y(4) d True by auto
    ultimately show ?thesis using y(2) by blast
  qed
qed

text \<open>Beyond that, starting from 16 KiB, the doubling wraps to 0 and the loop never ends.\<close>

lemma grow_loop_range:
  assumes "grow_loop n need = Some y"
  shows "(\<forall>k. n = of_nat (2 ^ k) \<longrightarrow> (\<exists>j. y = of_nat (2 ^ j))) \<and> \<not> ucast y < need"
proof (rule grow_loop.raw_induct [OF _ assms])
  fix f n need y
  assume IH: "\<And>n need y. f n need = Some y \<Longrightarrow>
      (\<forall>k. n = of_nat (2 ^ k) \<longrightarrow> (\<exists>j. y = of_nat (2 ^ j))) \<and> \<not> ucast y < need"
    and eq: "(if ucast n < need then f (n * 2) need else Some n) = Some y"
  show "(\<forall>k. n = of_nat (2 ^ k) \<longrightarrow> (\<exists>j. y = of_nat (2 ^ j))) \<and> \<not> ucast y < need"
  proof (cases "ucast n < need")
    case True
    then have r: "f (n * 2) need = Some y" using eq by simp
    moreover have "n * 2 = of_nat (2 ^ Suc k)" if "n = of_nat (2 ^ k)" for k
      using that by simp
    ultimately show ?thesis using IH [OF r] by blast
  next
    case False
    then show ?thesis using eq by auto
  qed
qed

lemma u32_pow2_le: "unat (of_nat (2 ^ j) :: u32) \<le> 2147483648"
proof (cases "j < 32")
  case True
  then have "(2 :: nat) ^ j \<le> 2 ^ 31" by (intro power_increasing) auto
  then show ?thesis by (simp add: unat_of_nat del: of_nat_power)
next
  case False
  then have "(2 :: nat) ^ j = 2 ^ 32 * 2 ^ (j - 32)" by (subst power_add [symmetric]) simp
  then have "(2 :: nat) ^ j mod 2 ^ 32 = 0" by simp
  moreover have "unat (of_nat (2 ^ j) :: u32) = 2 ^ j mod 2 ^ 32" by (simp add: unat_of_nat del: of_nat_power)
  ultimately show ?thesis by (simp del: of_nat_power)
qed

lemma grow_loop_diverges:
  assumes "2147483648 < unat need"
  shows "grow_loop 16384 need = None"
proof (rule ccontr)
  assume "grow_loop 16384 need \<noteq> None"
  then obtain y where "grow_loop 16384 need = Some y" by blast
  moreover have "(16384 :: u32) = of_nat (2 ^ 14)" by simp
  ultimately obtain j where "y = of_nat (2 ^ j)" "\<not> ucast y < need" using grow_loop_range by blast
  then show False using u32_pow2_le [of j] assms by (simp add: word_less_nat_alt del: of_nat_power)
qed


section \<open>Resizing\<close>

lemma take_le_eq: "take n xs = take n ys \<Longrightarrow> k \<le> n \<Longrightarrow> take k xs = take k ys"
  by (metis min.absorb1 take_take)

lemma buf_block_length: "length (buf_block b) = 33 + length (b_begin b)"
  by (simp add: buf_block_def BUF_HDR_SIZE_def)

text \<open>
  A resize whose new size still holds the data up to the write position either succeeds with the
  unread bytes unchanged, or fails and leaves the buffer as it was.
\<close>

lemma dbuf_resize_ok:
  assumes wf: "buf_wf b" and rs: "realloc_spec realloc" and fit: "b_wpos b + 33 \<le> unat nsize" and n: "33 < unat nsize"
  obtains (resized) b' m' where "dbuf_resize realloc b nsize m = Some (CC_OK, b', True, m')" "buf_wf b'"
      "buf_data b' = buf_data b" "b_end b' = unat nsize - 33" "b_rpos b' = b_rpos b" "b_wpos b' = b_wpos b"
      "unat nsize \<le> unat (dm_max_size m)"
  | (failed) st where "dbuf_resize realloc b nsize m = Some (st, b, True, m)"
      "st = CC_ERROR \<and> unat (dm_max_size m) < unat nsize \<or>
       st = CC_ENOMEM \<and> realloc (buf_block b) (ucast nsize) = Null"
proof (cases "dm_max_size m < nsize")
  case True
  then show ?thesis using failed [of CC_ERROR] by (simp add: dbuf_resize_def word_less_nat_alt)
next
  case False
  obtain osize where os: "buf_size b = Some osize" using buf_size_wf [OF wf] by blast
  have nz: "(ucast nsize :: u64) \<noteq> 0" using n unat_ucast_32_64 [of nsize] by (metis gr_implies_not0 unat_0)
  have pos: "unat (of_nat (b_rpos b) :: u32) = b_rpos b" "unat (of_nat (b_wpos b) :: u32) = b_wpos b"
    using wf by (auto simp: buf_wf_def intro!: unat_of_nat_32)
  have hdr: "\<not> ucast nsize < BUF_HDR_SIZE" using n by (simp add: BUF_HDR_SIZE_def word_less_nat_alt)
  show ?thesis
  proof (cases "realloc (buf_block b) (ucast nsize)")
    case Null
    then show ?thesis
      using failed [of CC_ENOMEM] False os nz by (simp add: dbuf_resize_def cc_realloc_def Let_def)
  next
    case (Ptr nblk)
    from realloc_specD [OF rs Ptr] have len: "length nblk = unat nsize"
      and tk: "take (min (33 + b_end b) (unat nsize)) nblk = take (min (33 + b_end b) (unat nsize)) (buf_block b)"
      using wf by (simp_all add: buf_block_length buf_wf_def)
    let ?b = "b\<lparr>b_end := unat nsize - 33, b_rpos := b_rpos b, b_wpos := b_wpos b, b_begin := drop 33 nblk\<rparr>"
    have "33 + b_wpos b \<le> min (33 + b_end b) (unat nsize)" using wf fit by (simp add: buf_wf_def)
    with tk have "take (33 + b_wpos b) nblk = take (33 + b_wpos b) (buf_block b)" by (rule take_le_eq)
    then have "drop 33 (take (33 + b_wpos b) nblk) = drop 33 (take (33 + b_wpos b) (buf_block b))" by simp
    then have "take (b_wpos b) (drop 33 nblk) = take (b_wpos b) (b_begin b)"
      by (simp add: buf_block_def BUF_HDR_SIZE_def drop_take)
    moreover have "window d (b_rpos b) (b_wpos b - b_rpos b) = drop (b_rpos b) (take (b_wpos b) d)" for d :: bytes
      by (simp add: window_def drop_take)
    ultimately have "buf_data ?b = buf_data b" by (simp add: buf_data_def)
    moreover have "buf_wf ?b" using wf n fit len by (simp add: buf_wf_def)
    ultimately show ?thesis
      using resized [of ?b] False os nz pos hdr Ptr
      by (simp add: dbuf_resize_def cc_realloc_def Let_def BUF_HDR_SIZE_def word_le_nat_alt word_less_nat_alt)
  qed
qed


lemma dbuf_resize_max:
  assumes "dbuf_resize realloc b n m = Some (st, b', alive, m')"
  shows "dm_max_size m' = dm_max_size m"
proof -
  obtain p al where c: "cc_realloc realloc (buf_block b) (ucast n) = (p, al)" by fastforce
  show ?thesis using assms c by (cases p) (auto simp: dbuf_resize_def bind_eq_Some_conv Let_def split: if_splits)
qed

lemma dbuf_double_ok:
  assumes "buf_wf b" "realloc_spec realloc" "b_end b + 33 < 2147483648"
  obtains (doubled) b' m' where "dbuf_double realloc b m = Some (CC_OK, b', True, m')" "buf_wf b'" "buf_data b' = buf_data b"
      "b_end b' + 33 = 2 * (b_end b + 33)" "b_wpos b' = b_wpos b" "b_end b' + 33 \<le> unat (dm_max_size m)"
      "dm_max_size m' = dm_max_size m"
  | (failed) st m' where "dbuf_double realloc b m = Some (st, b, True, m')" "st \<noteq> CC_OK" "dm_max_size m' = dm_max_size m"
proof -
  obtain osize where os: "buf_size b = Some osize" "unat osize = b_end b + 33" using buf_size_wf [OF assms(1)] by blast
  have n: "unat (osize * 2) = 2 * (b_end b + 33)" using u32_double [of osize] os(2) assms(3) by simp
  then have "b_wpos b + 33 \<le> unat (osize * 2)" "33 < unat (osize * 2)" using assms(1) by (simp_all add: buf_wf_def)
  with assms(1,2) show ?thesis
  proof (cases rule: dbuf_resize_ok [where m = m])
    case (resized b' m')
    moreover have "dm_max_size m' = dm_max_size m"
      by (rule dbuf_resize_max [OF resized(1)])
    ultimately show ?thesis
      using os n doubled [of b' "m'\<lparr>dm_metrics := INCR (dm_metrics m') M_dbuf_double\<rparr>"] by (simp add: dbuf_double_def)
  next
    case (failed st)
    then have "st \<noteq> CC_OK" by auto
    then show ?thesis
      using os failed that(2) [of st "m\<lparr>dm_metrics := INCR (dm_metrics m) M_dbuf_double_ex\<rparr>"] by (simp add: dbuf_double_def)
  qed
qed


text \<open>The common end of \<^verbatim>\<open>dbuf_fit\<close> and \<^verbatim>\<open>dbuf_shrink\<close>.\<close>

lemma unat_need: "unat (ucast (cap :: u32) + BUF_HDR_SIZE) = unat cap + 33"
proof -
  have h: "unat BUF_HDR_SIZE = 33" by (simp add: BUF_HDR_SIZE_def)
  then have "unat (ucast cap :: u64) + unat BUF_HDR_SIZE < 2 ^ LENGTH(64)"
    using unat_u32_lt [of cap] by (simp del: unat_u32_lt)
  then show ?thesis using h by (simp add: unat_add_small)
qed

lemma refit_ok:
  fixes cap :: u32
  assumes wf: "buf_wf b1" and rs: "realloc_spec realloc" and init: "33 < unat (dm_buf_init_size m)"
    and w: "b_wpos b1 \<le> unat cap" and cap: "unat cap + 33 \<le> 2147483648"
  shows "\<exists>n sz st b' m'. grow_loop (dm_buf_init_size m) (ucast cap + BUF_HDR_SIZE) = Some n \<and> buf_size b1 = Some sz \<and>
     (if n \<noteq> sz then dbuf_resize realloc b1 n m else Some (CC_OK, b1, True, m)) = Some (st, b', True, m') \<and>
     buf_wf b' \<and> buf_data b' = buf_data b1 \<and>
     (st = CC_OK \<longrightarrow> unat cap \<le> b_end b' \<and> (\<exists>k. b_end b' + 33 = unat (dm_buf_init_size m) * 2 ^ k))"
proof -
  obtain sz where sz: "buf_size b1 = Some sz" "unat sz = b_end b1 + 33" using buf_size_wf [OF wf] by blast
  note need = unat_need [of cap]
  have "0 < unat (dm_buf_init_size m)" "unat (ucast cap + BUF_HDR_SIZE) \<le> 2147483648"
    unfolding need using init cap by simp_all
  from grow_loop_ends [OF this] obtain n k where
      n: "grow_loop (dm_buf_init_size m) (ucast cap + BUF_HDR_SIZE) = Some n" "unat cap + 33 \<le> unat n"
      "unat n = unat (dm_buf_init_size m) * 2 ^ k"
    unfolding need by blast
  show ?thesis
  proof (cases "n = sz")
    case True
    have "unat cap \<le> b_end b1" "b_end b1 + 33 = unat (dm_buf_init_size m) * 2 ^ k"
      using n(2,3) sz(2) True by simp_all
    then show ?thesis using n(1) sz(1) True wf by auto
  next
    case False
    have "unat (dm_buf_init_size m) * 1 \<le> unat n" unfolding n(3) by (intro mult_le_mono2) simp
    then have "b_wpos b1 + 33 \<le> unat n" "33 < unat n" using n(2) init w by linarith+
    with wf rs have "\<exists>st b' m'. dbuf_resize realloc b1 n m = Some (st, b', True, m') \<and> buf_wf b' \<and>
        buf_data b' = buf_data b1 \<and> (st = CC_OK \<longrightarrow> b_end b' = unat n - 33)"
      by (cases rule: dbuf_resize_ok [where m = m]) (use wf in auto)
    then obtain st b' m' where r: "dbuf_resize realloc b1 n m = Some (st, b', True, m')" "buf_wf b'"
        "buf_data b' = buf_data b1" "st = CC_OK \<longrightarrow> b_end b' = unat n - 33"
      by blast
    have "unat cap \<le> b_end b' \<and> b_end b' + 33 = unat (dm_buf_init_size m) * 2 ^ k" if "st = CC_OK"
      using r(4) that n(2,3) by simp
    then show ?thesis using n(1) sz(1) False r(1-3) by auto
  qed
qed


section \<open>Properties\<close>


definition realloc_move :: realloc_fn where
  "realloc_move p n = Ptr (take (unat n) p @ replicate (unat n - length p) 0)"

lemma realloc_move_spec: "realloc_spec realloc_move"
  by (simp add: realloc_spec_def realloc_move_def min_def)

definition dbuf_sample :: dbuf_module where
  "dbuf_sample = dbuf_default\<lparr>dm_buf_init_size := 40, dm_max_size := 160\<rparr>"


text \<open>C21: \<^verbatim>\<open>dbuf_fit\<close> to a capacity that holds the unread bytes ends (for capacities up to \<open>2^31 - 33\<close>),
  keeps the unread bytes and the buffer, and on success the buffer has at least that capacity, in
  a size that is the initial one times a power of two.\<close>

theorem dbuf_fit_fits:
  assumes "buf_wf b" and "realloc_spec realloc" and "33 < unat (dm_buf_init_size m)"
    and "length (buf_data b) \<le> unat cap" and "unat cap + 33 \<le> 2147483648"
  shows "\<exists>st b' m'. dbuf_fit realloc b cap m = Some (st, b', True, m') \<and> buf_wf b' \<and> buf_data b' = buf_data b \<and>
           (st = CC_OK \<longrightarrow> unat cap \<le> b_end b' \<and> (\<exists>k. b_end b' + 33 = unat (dm_buf_init_size m) * 2 ^ k))"
proof -
  obtain rs where rs: "buf_rsize b = Some rs" "unat rs = length (buf_data b)" using buf_rsize_wf [OF assms(1)] by blast
  obtain b1 where b1: "buf_lshift b = Some b1" "buf_wf b1" "buf_data b1 = buf_data b" "b_wpos b1 = length (buf_data b)"
    using assms(1) by (rule buf_lshift_spec)
  have c: "\<not> cap < rs" using rs(2) assms(4) by (simp add: word_less_nat_alt)
  have "b_wpos b1 \<le> unat cap" using b1(4) assms(4) by simp
  from refit_ok [OF b1(2) assms(2,3) this assms(5)] obtain n sz st b' m' where
      n: "grow_loop (dm_buf_init_size m) (ucast cap + BUF_HDR_SIZE) = Some n" "buf_size b1 = Some sz"
      "(if n \<noteq> sz then dbuf_resize realloc b1 n m else Some (CC_OK, b1, True, m)) = Some (st, b', True, m')"
      "buf_wf b'" "buf_data b' = buf_data b1"
      "st = CC_OK \<longrightarrow> unat cap \<le> b_end b' \<and> (\<exists>k. b_end b' + 33 = unat (dm_buf_init_size m) * 2 ^ k)"
    by blast
  have "\<exists>m''. dbuf_fit realloc b cap m = Some (st, b', True, m'')"
    using rs(1) b1(1) c n(1-3) by (cases "n = sz") (simp_all add: dbuf_fit_def)
  moreover have "buf_data b' = buf_data b" using n(5) b1(3) by simp
  ultimately show ?thesis using n(4,6) by blast
qed

theorem dbuf_fit_fits_witness:
  "\<exists>st b' m'. dbuf_fit realloc_move buf_one 50 dbuf_sample = Some (st, b', True, m') \<and> buf_data b' = [2, 3] \<and>
     (st = CC_OK \<longrightarrow> unat (50 :: u32) \<le> b_end b')"
proof -
  have e: "33 < unat (dm_buf_init_size dbuf_sample)" "length [2, 3 :: u8] \<le> unat (50 :: u32)"
      "unat (50 :: u32) + 33 \<le> 2147483648"
    by (simp_all add: dbuf_sample_def)
  show ?thesis
    using dbuf_fit_fits [OF buf_one_wf(1) realloc_move_spec e(1) _ e(3), unfolded buf_one_wf(2), OF e(2)] by blast
qed

text \<open>\<^verbatim>\<open>dbuf_shrink\<close> ends, keeps the unread bytes and the buffer, and on success the buffer is the
  initial size times a power of two that holds the unread bytes: nothing is cut off.\<close>

theorem dbuf_shrink_keeps_data:
  assumes "buf_wf b" and "realloc_spec realloc" and "33 < unat (dm_buf_init_size m)"
    and "length (buf_data b) + 33 \<le> 2147483648"
  shows "\<exists>st b' m'. dbuf_shrink realloc b m = Some (st, b', True, m') \<and> buf_wf b' \<and> buf_data b' = buf_data b \<and>
           (st = CC_OK \<longrightarrow> (\<exists>k. b_end b' + 33 = unat (dm_buf_init_size m) * 2 ^ k))"
proof -
  obtain rs where rs: "buf_rsize b = Some rs" "unat rs = length (buf_data b)" using buf_rsize_wf [OF assms(1)] by blast
  obtain b1 where b1: "buf_lshift b = Some b1" "buf_wf b1" "buf_data b1 = buf_data b" "b_wpos b1 = length (buf_data b)"
    using assms(1) by (rule buf_lshift_spec)
  have "b_wpos b1 \<le> unat rs" "unat rs + 33 \<le> 2147483648" using b1(4) rs(2) assms(4) by simp_all
  from refit_ok [OF b1(2) assms(2,3) this] obtain n sz st b' m' where
      n: "grow_loop (dm_buf_init_size m) (ucast rs + BUF_HDR_SIZE) = Some n" "buf_size b1 = Some sz"
      "(if n \<noteq> sz then dbuf_resize realloc b1 n m else Some (CC_OK, b1, True, m)) = Some (st, b', True, m')"
      "buf_wf b'" "buf_data b' = buf_data b1"
      "st = CC_OK \<longrightarrow> unat rs \<le> b_end b' \<and> (\<exists>k. b_end b' + 33 = unat (dm_buf_init_size m) * 2 ^ k)"
    by blast
  have "\<exists>m''. dbuf_shrink realloc b m = Some (st, b', True, m'')"
    using rs(1) b1(1) n(1-3) by (cases "n = sz") (simp_all add: dbuf_shrink_def)
  moreover have "buf_data b' = buf_data b" using n(5) b1(3) by simp
  ultimately show ?thesis using n(4,6) by blast
qed

theorem dbuf_shrink_keeps_data_witness:
  "\<exists>st b' m'. dbuf_shrink realloc_move buf_one dbuf_sample = Some (st, b', True, m') \<and> buf_data b' = [2, 3]"
proof -
  have e: "33 < unat (dm_buf_init_size dbuf_sample)" "length [2, 3 :: u8] + 33 \<le> 2147483648"
    by (simp_all add: dbuf_sample_def)
  show ?thesis
    using dbuf_shrink_keeps_data [OF buf_one_wf(1) realloc_move_spec e(1), unfolded buf_one_wf(2), OF e(2)] by blast
qed

text \<open>
  Beyond the bounds of the properties above: a capacity over \<open>2^31 - 33\<close> makes the search for a
  size in \<^verbatim>\<open>dbuf_fit\<close> loop forever, and doubling a buffer of \<open>2^31\<close> bytes asks for a block of 0
  bytes, which frees the buffer while the caller still holds it.
\<close>

lemma dbuf_fit_diverges:
  assumes "buf_wf b" and "dm_buf_init_size m = 16384" and "2147483648 < unat cap + 33"
    and "length (buf_data b) \<le> unat cap"
  shows "dbuf_fit realloc b cap m = None"
proof -
  obtain rs where rs: "buf_rsize b = Some rs" "unat rs = length (buf_data b)" using buf_rsize_wf [OF assms(1)] by blast
  obtain b1 where "buf_lshift b = Some b1" using assms(1) by (rule buf_lshift_spec)
  moreover have "\<not> cap < rs" using rs(2) assms(4) by (simp add: word_less_nat_alt)
  ultimately show ?thesis using rs(1) assms(2,3) grow_loop_diverges unat_need [of cap] by (simp add: dbuf_fit_def)
qed

lemma dbuf_double_wraps:
  assumes "buf_wf b" and "b_end b + 33 = 2147483648"
  shows "\<exists>m'. dbuf_double realloc b m = Some (CC_ENOMEM, b, False, m')"
proof -
  obtain osize where os: "buf_size b = Some osize" "unat osize = 2147483648" using buf_size_wf [OF assms(1)] assms(2) by auto
  then have "osize = 2147483648" by (simp add: word_unat_eq_iff)
  then have "osize * 2 = 0" by simp
  then show ?thesis using os(1) by (simp add: dbuf_double_def dbuf_resize_def cc_realloc_def Let_def)
qed

end
