(* ===== verification/Cc_Timer.thy ===== *)
theory Cc_Timer
  imports Complex_Main Cc_Prelude "HOL-Library.Signed_Division"
begin

text \<open>
  Durations and timeouts of \<^verbatim>\<open>src/time/cc_timer_linux.c\<close>. The system clock is a parameter:
  \<open>ck_read\<close> gives the answer of each call of \<^verbatim>\<open>clock_gettime\<close> (\<^term>\<open>None\<close> when the call fails), and
  \<open>ck_n\<close> counts the calls. Signed arithmetic is on \<^typ>\<open>int\<close> with the range of \<^verbatim>\<open>int64_t\<close>
  checked, since an overflow there has no defined result; where the code mixes \<^verbatim>\<open>int64_t\<close> and
  \<^verbatim>\<open>uint64_t\<close> the sum is taken in \<^typ>\<open>u64\<close> and read back as signed. A \<^verbatim>\<open>double\<close> is a real, and every
  operation on it goes through a rounding function \<open>rnd\<close>.
\<close>

section \<open>The clock\<close>

datatype duration_type = DURATION_PRECISE | DURATION_FAST

record timespec =
  tv_sec :: int
  tv_nsec :: int

record clock =
  ck_read :: "duration_type \<Rightarrow> nat \<Rightarrow> timespec option"
  ck_n :: nat

definition NSEC_PER_USEC :: int where
  "NSEC_PER_USEC = 1000"

definition NSEC_PER_MSEC :: int where
  "NSEC_PER_MSEC = 1000000"

definition NSEC_PER_SEC :: int where
  "NSEC_PER_SEC = 1000000000"

lemmas nsec_defs = NSEC_PER_USEC_def NSEC_PER_MSEC_def NSEC_PER_SEC_def

text \<open>A clock that fails reads as zero.\<close>

definition gettime :: "duration_type \<Rightarrow> clock \<Rightarrow> timespec \<times> clock" where
  "gettime type c =
     (case ck_read c type (ck_n c) of None \<Rightarrow> \<lparr>tv_sec = 0, tv_nsec = 0\<rparr> | Some ts \<Rightarrow> ts,
      c\<lparr>ck_n := ck_n c + 1\<rparr>)"


section \<open>Durations\<close>

record duration =
  d_type :: duration_type
  d_started :: bool
  d_stopped :: bool
  d_start :: timespec
  d_stop :: timespec

definition duration_reset :: "duration \<Rightarrow> duration" where
  "duration_reset d = d\<lparr>d_started := False, d_stopped := False\<rparr>"

definition duration_start_type :: "duration \<Rightarrow> duration_type \<Rightarrow> clock \<Rightarrow> duration \<times> clock" where
  "duration_start_type d type c =
     (let (ts, c') = gettime type c in (d\<lparr>d_start := ts, d_type := type, d_started := True\<rparr>, c'))"

definition duration_start :: "duration \<Rightarrow> clock \<Rightarrow> duration \<times> clock" where
  "duration_start d c = duration_start_type d DURATION_PRECISE c"

definition duration_snapshot :: "duration \<Rightarrow> duration \<Rightarrow> clock \<Rightarrow> duration \<times> clock" where
  "duration_snapshot s d c =
     (let s1 = s\<lparr>d_started := True, d_start := d_start d, d_type := d_type d, d_stopped := True\<rparr>;
          (ts, c') = gettime (d_type s1) c
      in (s1\<lparr>d_stop := ts\<rparr>, c'))"

definition duration_stop :: "duration \<Rightarrow> clock \<Rightarrow> duration \<times> clock" where
  "duration_stop d c =
     (let (ts, c') = gettime (d_type d) c in (d\<lparr>d_stop := ts, d_stopped := True\<rparr>, c'))"

definition DBL_EPSILON :: real where
  "DBL_EPSILON = 1 / 2 ^ 52"

definition duration_ns :: "(real \<Rightarrow> real) \<Rightarrow> duration \<Rightarrow> real option" where
  "duration_ns rnd d = do {
     ASSERT (d_started d \<and> d_stopped d);
     secs \<leftarrow> s64 (tv_sec (d_stop d) - tv_sec (d_start d));
     let a = rnd (rnd (of_int secs) * of_int NSEC_PER_SEC);
     let b = rnd (a + rnd (of_int (tv_nsec (d_stop d))));
     let elapsed = rnd (b - rnd (of_int (tv_nsec (d_start d))));
     Some (if elapsed < 0 then DBL_EPSILON else elapsed)
   }"

definition duration_us :: "(real \<Rightarrow> real) \<Rightarrow> duration \<Rightarrow> real option" where
  "duration_us rnd d = duration_ns rnd d \<bind> (\<lambda>ns. Some (rnd (ns / of_int NSEC_PER_USEC)))"

definition duration_ms :: "(real \<Rightarrow> real) \<Rightarrow> duration \<Rightarrow> real option" where
  "duration_ms rnd d = duration_ns rnd d \<bind> (\<lambda>ns. Some (rnd (ns / of_int NSEC_PER_MSEC)))"

definition duration_sec :: "(real \<Rightarrow> real) \<Rightarrow> duration \<Rightarrow> real option" where
  "duration_sec rnd d = duration_ns rnd d \<bind> (\<lambda>ns. Some (rnd (ns / of_int NSEC_PER_SEC)))"

definition duration_compare :: "(real \<Rightarrow> real) \<Rightarrow> duration \<Rightarrow> duration \<Rightarrow> int option" where
  "duration_compare rnd lhs rhs = do {
     lns \<leftarrow> duration_ns rnd lhs;
     rns \<leftarrow> duration_ns rnd rhs;
     Some (if lns < rns then - 1 else if lns > rns then 1 else 0)
   }"


section \<open>Timeouts\<close>

record timeout =
  tp :: int
  is_set :: bool
  is_intvl :: bool

definition now_ns :: "clock \<Rightarrow> (u64 \<times> clock) option" where
  "now_ns c =
     (let (now, c') = gettime DURATION_PRECISE c in do {
        a \<leftarrow> s64 (tv_sec now * NSEC_PER_SEC);
        b \<leftarrow> s64 (a + tv_nsec now);
        Some (word_of_int b, c')
      })"

definition timeout_reset :: "timeout \<Rightarrow> timeout" where
  "timeout_reset e = e\<lparr>tp := 0, is_set := False, is_intvl := False\<rparr>"

definition timeout_add_ns :: "timeout \<Rightarrow> u64 \<Rightarrow> clock \<Rightarrow> (timeout \<times> clock) option" where
  "timeout_add_ns e ns c = do {
     (now, c') \<leftarrow> now_ns c;
     Some (e\<lparr>tp := sint (now + ns), is_set := True, is_intvl := False\<rparr>, c')
   }"

definition timeout_add_us :: "timeout \<Rightarrow> u64 \<Rightarrow> clock \<Rightarrow> (timeout \<times> clock) option" where
  "timeout_add_us e us c = timeout_add_ns e (us * word_of_int NSEC_PER_USEC) c"

definition timeout_add_ms :: "timeout \<Rightarrow> u64 \<Rightarrow> clock \<Rightarrow> (timeout \<times> clock) option" where
  "timeout_add_ms e ms c = timeout_add_ns e (ms * word_of_int NSEC_PER_MSEC) c"

definition timeout_add_sec :: "timeout \<Rightarrow> u64 \<Rightarrow> clock \<Rightarrow> (timeout \<times> clock) option" where
  "timeout_add_sec e sec c = timeout_add_ns e (sec * word_of_int NSEC_PER_SEC) c"

definition timeout_set_ns :: "timeout \<Rightarrow> u64 \<Rightarrow> timeout" where
  "timeout_set_ns e ns = e\<lparr>tp := sint ns, is_set := True, is_intvl := True\<rparr>"

definition timeout_set_us :: "timeout \<Rightarrow> u64 \<Rightarrow> timeout" where
  "timeout_set_us e us = timeout_set_ns e (us * word_of_int NSEC_PER_USEC)"

definition timeout_set_ms :: "timeout \<Rightarrow> u64 \<Rightarrow> timeout" where
  "timeout_set_ms e ms = timeout_set_ns e (ms * word_of_int NSEC_PER_MSEC)"

definition timeout_set_sec :: "timeout \<Rightarrow> u64 \<Rightarrow> timeout" where
  "timeout_set_sec e sec = timeout_set_ns e (sec * word_of_int NSEC_PER_SEC)"

definition timeout_add_intvl :: "timeout \<Rightarrow> timeout \<Rightarrow> clock \<Rightarrow> (timeout \<times> clock) option" where
  "timeout_add_intvl e t c = do {
     ASSERT (0 \<le> tp t);
     timeout_add_ns e (word_of_int (tp t)) c
   }"

definition timeout_sum_intvl :: "timeout \<Rightarrow> timeout \<Rightarrow> timeout \<Rightarrow> timeout option" where
  "timeout_sum_intvl e b t = do {
     ASSERT (is_intvl t);
     v \<leftarrow> s64 (tp b + tp t);
     Some (e\<lparr>tp := v, is_set := True, is_intvl := is_intvl b\<rparr>)
   }"

definition timeout_sub_intvl :: "timeout \<Rightarrow> timeout \<Rightarrow> timeout \<Rightarrow> timeout option" where
  "timeout_sub_intvl e b t = do {
     ASSERT (is_intvl t);
     v \<leftarrow> s64 (tp b - tp t);
     Some (e\<lparr>tp := v, is_set := True, is_intvl := is_intvl b\<rparr>)
   }"

definition timeout_ns :: "timeout \<Rightarrow> clock \<Rightarrow> (int \<times> clock) option" where
  "timeout_ns e c =
     (if is_intvl e then Some (tp e, c)
      else do {
        (now, c') \<leftarrow> now_ns c;
        Some (sint (word_of_int (tp e) - now), c')
      })"

definition timeout_us :: "timeout \<Rightarrow> clock \<Rightarrow> (int \<times> clock) option" where
  "timeout_us e c = timeout_ns e c \<bind> (\<lambda>(ns, c'). Some (ns sdiv NSEC_PER_USEC, c'))"

definition timeout_ms :: "timeout \<Rightarrow> clock \<Rightarrow> (int \<times> clock) option" where
  "timeout_ms e c = timeout_ns e c \<bind> (\<lambda>(ns, c'). Some (ns sdiv NSEC_PER_MSEC, c'))"

definition timeout_sec :: "timeout \<Rightarrow> clock \<Rightarrow> (int \<times> clock) option" where
  "timeout_sec e c = timeout_ns e c \<bind> (\<lambda>(ns, c'). Some (ns sdiv NSEC_PER_SEC, c'))"

definition timeout_timespec :: "timeout \<Rightarrow> clock \<Rightarrow> (timespec \<times> clock) option" where
  "timeout_timespec e c = do {
     (ns, c') \<leftarrow> timeout_ns e c;
     ASSERT (0 \<le> ns);
     Some (\<lparr>tv_sec = ns sdiv NSEC_PER_SEC, tv_nsec = ns smod NSEC_PER_SEC\<rparr>, c')
   }"

definition timeout_expired :: "timeout \<Rightarrow> clock \<Rightarrow> (bool \<times> clock) option" where
  "timeout_expired e c = do {
     ASSERT (\<not> is_intvl e);
     if \<not> is_set e then Some (False, c)
     else do {
       (now, c') \<leftarrow> now_ns c;
       Some (tp e \<le> sint now, c')
     }
   }"


section \<open>What the readings mean\<close>

text \<open>
  A reading of the clock in range: normalised nanoseconds and a time that \<^verbatim>\<open>int64_t\<close> nanoseconds
  can hold (with room to add an interval: 146 years of a monotonic clock).
\<close>

definition clock_ns :: "clock \<Rightarrow> int" where
  "clock_ns c = (let ts = fst (gettime DURATION_PRECISE c) in tv_sec ts * NSEC_PER_SEC + tv_nsec ts)"

definition clock_sane :: "clock \<Rightarrow> bool" where
  "clock_sane c \<longleftrightarrow> (let ts = fst (gettime DURATION_PRECISE c) in
     0 \<le> tv_sec ts \<and> tv_sec ts < 4611686018 \<and> 0 \<le> tv_nsec ts \<and> tv_nsec ts < 1000000000)"

lemma clock_sane_range:
  assumes "clock_sane c"
  shows "0 \<le> clock_ns c" "clock_ns c < 4611686018000000000"
proof -
  define ts where "ts = fst (gettime DURATION_PRECISE c)"
  have t: "0 \<le> tv_sec ts" "tv_sec ts < 4611686018" "0 \<le> tv_nsec ts" "tv_nsec ts < 1000000000"
    using assms by (simp_all add: clock_sane_def Let_def ts_def)
  have "tv_sec ts * 1000000000 \<le> 4611686017 * 1000000000" using t by linarith
  then show "0 \<le> clock_ns c" "clock_ns c < 4611686018000000000"
    using t by (simp_all add: clock_ns_def Let_def ts_def [symmetric] nsec_defs)
qed

lemma now_ns_sane:
  assumes "clock_sane c"
  shows "now_ns c = Some (word_of_int (clock_ns c), c\<lparr>ck_n := ck_n c + 1\<rparr>)"
    "sint (word_of_int (clock_ns c) :: u64) = clock_ns c"
proof -
  obtain ts c' where g: "gettime DURATION_PRECISE c = (ts, c')" by fastforce
  have c': "c' = c\<lparr>ck_n := ck_n c + 1\<rparr>" using g by (simp add: gettime_def)
  have ns: "clock_ns c = tv_sec ts * 1000000000 + tv_nsec ts" by (simp add: clock_ns_def g nsec_defs)
  have t: "0 \<le> tv_sec ts" "tv_sec ts < 4611686018" "0 \<le> tv_nsec ts" "tv_nsec ts < 1000000000"
    using assms by (simp_all add: clock_sane_def g)
  have "s64_ok (tv_sec ts * 1000000000)" "s64_ok (tv_sec ts * 1000000000 + tv_nsec ts)"
    using t by (simp_all add: s64_ok_def)
  then show "now_ns c = Some (word_of_int (clock_ns c), c\<lparr>ck_n := ck_n c + 1\<rparr>)"
    by (simp add: now_ns_def g c' ns nsec_defs s64_in)
  show "sint (word_of_int (clock_ns c) :: u64) = clock_ns c"
    using clock_sane_range [OF assms] by (intro sint_of_s64) (simp add: s64_ok_def)
qed

lemma timeout_set_tp [simp]:
  "is_set (timeout_set_ns e n)" "is_intvl (timeout_set_ns e n)" "tp (timeout_set_ns e n) = sint n"
  by (simp_all add: timeout_set_ns_def)

text \<open>An interval of \<open>k\<close> units, read back in the same unit.\<close>

lemma set_unit:
  fixes k :: u64
  assumes "unat k * u < 9223372036854775808" "u < 9223372036854775808"
  shows "sint (k * word_of_int (int u)) = int (unat k * u)"
proof -
  have "unat (k * word_of_int (int u)) = unat k * u"
    using assms by (simp add: unat_word_ariths(2) unat_of_nat)
  then show ?thesis using sint_small [of "k * word_of_int (int u)"] assms(1) by simp
qed

lemma sdiv_nonneg: "0 \<le> a \<Longrightarrow> 0 < b \<Longrightarrow> a sdiv b = a div b" for a b :: int
  by (cases "a = 0") (simp_all add: signed_divide_int_def sgn_if)

lemma smod_nonneg: "0 \<le> a \<Longrightarrow> 0 < b \<Longrightarrow> a smod b = a mod b" for a b :: int
  by (cases "a = 0") (simp_all add: signed_modulo_int_def sgn_if)



lemma timeout_add_sane:
  assumes "clock_sane c" "clock_ns c + int (unat ns) < 9223372036854775808"
  shows "timeout_add_ns e ns c =
    Some (e\<lparr>tp := clock_ns c + int (unat ns), is_set := True, is_intvl := False\<rparr>, c\<lparr>ck_n := ck_n c + 1\<rparr>)"
proof -
  have "word_of_int (clock_ns c) + ns = (word_of_int (clock_ns c + int (unat ns)) :: u64)"
    by simp
  moreover have "s64_ok (clock_ns c + int (unat ns))"
    using assms(2) clock_sane_range [OF assms(1)] unfolding s64_ok_def by linarith
  ultimately have "sint (word_of_int (clock_ns c) + ns) = clock_ns c + int (unat ns)"
    by (metis sint_of_s64)
  then show ?thesis using now_ns_sane [OF assms(1)] by (simp add: timeout_add_ns_def)
qed


text \<open>A clock that is read at second 5, then at second 7.\<close>

definition clock_sample :: clock where
  "clock_sample = \<lparr>ck_read = (\<lambda>_ n. Some \<lparr>tv_sec = 5 + 2 * int n, tv_nsec = 10\<rparr>), ck_n = 0\<rparr>"


text \<open>The interval sums keep to the signed range or are undefined; a timespec is normalised.\<close>

lemma timeout_sum_sub:
  assumes "is_intvl t" "timeout_sum_intvl e b t = Some s" "s64_ok (tp b)"
  shows "\<exists>r. timeout_sub_intvl e s t = Some r \<and> tp r = tp b \<and> is_intvl r = is_intvl b"
  using assms by (auto simp: timeout_sum_intvl_def timeout_sub_intvl_def bind_eq_Some_conv s64_in split: if_splits)

lemma timeout_timespec_normal:
  assumes "is_intvl e" "0 \<le> tp e"
  shows "\<exists>ts. timeout_timespec e c = Some (ts, c) \<and> tv_sec ts * NSEC_PER_SEC + tv_nsec ts = tp e \<and>
    0 \<le> tv_nsec ts \<and> tv_nsec ts < NSEC_PER_SEC"
  using assms by (simp add: timeout_timespec_def timeout_ns_def nsec_defs sdiv_nonneg smod_nonneg)

text \<open>
  The nanoseconds of a duration are exact as long as the clock did not go back and at most
  9007190 seconds passed (104 days): rounding only has to keep the integers up to \<open>2 ^ 53\<close>,
  as IEEE double arithmetic does.
\<close>

theorem duration_ns_exact:
  assumes rnd: "\<And>i :: int. \<bar>i\<bar> \<le> 9007199254740992 \<Longrightarrow> rnd (of_int i) = of_int i"
    and d: "d_started d" "d_stopped d"
    and norm: "0 \<le> tv_nsec (d_start d)" "tv_nsec (d_start d) < NSEC_PER_SEC"
      "0 \<le> tv_nsec (d_stop d)" "tv_nsec (d_stop d) < NSEC_PER_SEC"
    and ns: "ns = (tv_sec (d_stop d) - tv_sec (d_start d)) * NSEC_PER_SEC + tv_nsec (d_stop d) - tv_nsec (d_start d)"
    and rng: "0 \<le> ns" "ns \<le> 9007190000000000"
  shows "duration_ns rnd d = Some (of_int ns)"
proof -
  define s where "s = tv_sec (d_stop d) - tv_sec (d_start d)"
  have s: "-1 \<le> s" "s \<le> 9007191"
    using ns rng norm by (simp_all add: s_def [symmetric] nsec_defs)
  have "rnd (of_int s) = of_int s" using s by (intro rnd) simp
  moreover have "rnd (of_int (s * 1000000000)) = of_int (s * 1000000000)" using s by (intro rnd) simp
  moreover have "rnd (of_int (s * 1000000000 + tv_nsec (d_stop d))) = of_int (s * 1000000000 + tv_nsec (d_stop d))"
    using s norm by (intro rnd) (simp add: nsec_defs)
  moreover have "rnd (of_int (tv_nsec (d_stop d))) = of_int (tv_nsec (d_stop d))"
    "rnd (of_int (tv_nsec (d_start d))) = of_int (tv_nsec (d_start d))"
    using norm by (intro rnd; simp add: nsec_defs)+
  moreover have "rnd (of_int ns) = of_int ns" using rng by (intro rnd) simp
  moreover have "s64_ok s" using s by (simp add: s64_ok_def)
  ultimately show ?thesis
    using d ns rng(1) by (simp add: duration_ns_def s_def [symmetric] s64_in nsec_defs)
qed

theorem duration_ns_exact_witness:
  "duration_ns (\<lambda>x. x) \<lparr>d_type = DURATION_PRECISE, d_started = True, d_stopped = True,
     d_start = \<lparr>tv_sec = 5, tv_nsec = 999999999\<rparr>, d_stop = \<lparr>tv_sec = 7, tv_nsec = 1\<rparr>\<rparr> = Some 1000000002"
  using duration_ns_exact [of "\<lambda>x. x" "\<lparr>d_type = DURATION_PRECISE, d_started = True, d_stopped = True,
     d_start = \<lparr>tv_sec = 5, tv_nsec = 999999999\<rparr>, d_stop = \<lparr>tv_sec = 7, tv_nsec = 1\<rparr>\<rparr>" 1000000002]
  by (simp add: nsec_defs)

text \<open>Whatever the clock does, a duration that the code reports is never negative.\<close>

lemma duration_ns_nonneg: "duration_ns rnd d = Some x \<Longrightarrow> 0 \<le> x"
  by (auto simp: duration_ns_def Let_def bind_eq_Some_conv DBL_EPSILON_def split: if_splits)

lemma duration_compare_antisym:
  "duration_compare rnd a b = Some x \<Longrightarrow> duration_compare rnd b a = Some (- x)"
  by (cases "duration_ns rnd a"; cases "duration_ns rnd b") (auto simp: duration_compare_def split: if_splits)

end
