(* ===== verification/Cc_Pooled.thy ===== *)
theory Cc_Pooled
  imports Cc_Pool
begin

text \<open>
  The pattern that the timeout events, the connections and the buffered sockets share: a free
  pool of theory \<open>Cc_Pool\<close> whose objects carry a \<^verbatim>\<open>free\<close> flag. Borrowing resets the object, which
  clears the flag; returning an object whose flag is set does nothing. The interface
  \<open>pooled_objects\<close> says what a module has to provide, and its lemmas say which objects a
  client then holds. \<open>pooled_borrow\<close> and \<open>pooled_return\<close> are the common shape of the functions;
  each module has its own functions, translated from its source, and shows that they have it.
\<close>

section \<open>The common shape\<close>

record 'w pmodule =
  pm_pool :: "nat pool"
  pm_world :: 'w
  pm_pool_init :: bool
  pm_init :: bool

definition pooled_borrow ::
  "('w \<Rightarrow> ('e ptr \<times> 'w) option) \<Rightarrow> ('e \<Rightarrow> 'w \<Rightarrow> 'w) \<Rightarrow> ('w \<Rightarrow> 'w) \<Rightarrow> 'e pool \<Rightarrow> 'w \<Rightarrow>
   ('e ptr \<times> 'e pool \<times> 'w) option" where
  "pooled_borrow create claim fail p w = do {
     (r, p', w') \<leftarrow> FREEPOOL_BORROW create p w;
     Some (case r of Null \<Rightarrow> (Null, p', fail w') | Ptr a \<Rightarrow> (Ptr a, p', claim a w'))
   }"

definition pooled_return ::
  "('w \<Rightarrow> 'e \<Rightarrow> 'o option) \<Rightarrow> ('o \<Rightarrow> bool) \<Rightarrow> ('e \<Rightarrow> 'w \<Rightarrow> 'w) \<Rightarrow> 'e ptr \<Rightarrow> 'e pool \<Rightarrow> 'w \<Rightarrow>
   ('e ptr \<times> 'e pool \<times> 'w) option" where
  "pooled_return obj isfree give t p w =
     (case t of
        Null \<Rightarrow> Some (t, p, w)
      | Ptr a \<Rightarrow> do {
          x \<leftarrow> obj w a;
          if isfree x then Some (t, p, w)
          else do {
            p' \<leftarrow> FREEPOOL_RETURN a p;
            Some (Null, p', give a w)
          }
        })"

text \<open>Clearing the link of an object once more after a borrow changes nothing.\<close>

lemma FREEPOOL_BORROW_clear:
  assumes "FREEPOOL_BORROW create p w = Some (Ptr a, p', w')"
  shows "p'\<lparr>pl_freeq := set_cell (NextOf a) Null (pl_freeq p')\<rparr> = p'"
proof -
  from assms obtain v p1 w1 where "borrow_pick create p w = Some (v, p1, w1)"
    and res: "(Ptr a, p', w') = (case v of Null \<Rightarrow> (Null, p1, w1) | Ptr v \<Rightarrow>
       (Ptr v, p1\<lparr>pl_nused := pl_nused p1 + 1, pl_freeq := set_cell (NextOf v) Null (pl_freeq p1)\<rparr>, w1))"
    by (auto simp: FREEPOOL_BORROW_def bind_eq_Some_conv split: if_splits)
  then show ?thesis by (cases v; cases p1) (simp_all add: set_cell_def)
qed

definition pooled_inv ::
  "('w \<Rightarrow> 'e \<Rightarrow> 'o option) \<Rightarrow> ('o \<Rightarrow> bool) \<Rightarrow> ('w \<Rightarrow> bool) \<Rightarrow> 'e pool \<Rightarrow> 'w \<Rightarrow> 'e list \<Rightarrow> 'e set \<Rightarrow> bool" where
  "pooled_inv obj isfree wok p w fr us \<longleftrightarrow>
     pool_inv p fr us \<and> wok w \<and> set fr \<subseteq> dom (obj w) \<and> (\<forall>a \<in> us. \<exists>x. obj w a = Some x \<and> \<not> isfree x)"

lemma pooled_invD:
  assumes "pooled_inv obj isfree wok p w fr us"
  shows "pool_inv p fr us" "wok w" "set fr \<union> us \<subseteq> dom (obj w)"
    "a \<in> us \<Longrightarrow> \<exists>x. obj w a = Some x \<and> \<not> isfree x"
  using assms unfolding pooled_inv_def by blast+

text \<open>A client of a module that borrows, and returns what it holds.\<close>

fun module_run ::
  "('m \<Rightarrow> ('e ptr \<times> 'm) option) \<Rightarrow> ('e ptr \<Rightarrow> 'm \<Rightarrow> ('e ptr \<times> 'm) option) \<Rightarrow>
   'e pool_op list \<Rightarrow> 'm \<Rightarrow> 'e list \<Rightarrow> ('m \<times> 'e list) option" where
  "module_run borrow return [] m us = Some (m, us)"
| "module_run borrow return (PBorrow # ops) m us = do {
     (r, m') \<leftarrow> borrow m;
     module_run borrow return ops m' (case r of Null \<Rightarrow> us | Ptr a \<Rightarrow> a # us)
   }"
| "module_run borrow return (PReturn a # ops) m us =
     (if a \<in> set us then do {
        (_, m') \<leftarrow> return (Ptr a) m;
        module_run borrow return ops m' (remove1 a us)
      } else module_run borrow return ops m us)"


section \<open>The interface\<close>

locale pooled_objects = object_pool create destroy live wok
  for create :: "'w \<Rightarrow> ('e ptr \<times> 'w) option" and destroy live wok +
  fixes obj :: "'w \<Rightarrow> 'e \<Rightarrow> 'o option" and isfree :: "'o \<Rightarrow> bool" and reset mark :: "'o \<Rightarrow> 'o"
    and claim give :: "'e \<Rightarrow> 'w \<Rightarrow> 'w" and fail :: "'w \<Rightarrow> 'w"
  assumes live_obj: "live w = dom (obj w)"
    and create_frame: "wok w \<Longrightarrow> create w = Some (r, w') \<Longrightarrow> e \<in> live w \<Longrightarrow> obj w' e = obj w e"
    and claim_ok: "wok w \<Longrightarrow> obj w e = Some x \<Longrightarrow> wok (claim e w) \<and> obj (claim e w) = (obj w)(e \<mapsto> reset x)"
    and give_ok: "wok w \<Longrightarrow> obj w e = Some x \<Longrightarrow> wok (give e w) \<and> obj (give e w) = (obj w)(e \<mapsto> mark x)"
    and fail_ok: "wok w \<Longrightarrow> wok (fail w) \<and> obj (fail w) = obj w"
    and reset_flag: "\<not> isfree (reset x)"
    and mark_flag: "isfree (mark x)"
begin

lemma borrow_live:
  assumes "pooled_inv obj isfree wok p w fr us" "FREEPOOL_BORROW create p w = Some (Ptr a, p', w')"
  shows "\<exists>x. obj w' a = Some x"
proof -
  note pis = pooled_invD [OF assms(1)]
  have "set fr \<union> us \<subseteq> live w" using pis(3) live_obj by simp
  with pis(1,2) have "a \<in> live w'" by (cases rule: borrow_cases) (use assms(2) \<open>set fr \<union> us \<subseteq> live w\<close> in auto)
  then show ?thesis using live_obj by auto
qed

lemma borrow_ok:
  assumes inv: "pooled_inv obj isfree wok p w fr us"
  obtains (borrowed) a x p' w' fr' where "pooled_borrow create claim fail p w = Some (Ptr a, p', w')" "a \<notin> us"
      "pooled_inv obj isfree wok p' w' fr' (insert a us)" "pl_nmax p' = pl_nmax p" "obj w' a = Some (reset x)"
      "\<And>b. b \<in> us \<Longrightarrow> obj w' b = obj w b"
  | (refused) p' w' where "pooled_borrow create claim fail p w = Some (Null, p', w')" "fr = []"
      "pooled_inv obj isfree wok p' w' [] us" "pl_nmax p' = pl_nmax p" "\<And>b. b \<in> us \<Longrightarrow> obj w' b = obj w b"
      "card us = unat (pl_nmax p) \<or> (\<exists>w1. create w = Some (Null, w1))"
proof -
  note pis = pooled_invD [OF inv]
  have own: "set fr \<union> us \<subseteq> live w" using pis(3) live_obj by simp
  have taken: thesis
    if b: "FREEPOOL_BORROW create p w = Some (Ptr a, p', w')" and a: "a \<notin> us" and p': "pool_inv p' fr' (insert a us)"
      and m: "pl_nmax p' = pl_nmax p" and w': "wok w'" "set fr' \<union> insert a us \<subseteq> live w'"
      and fm: "\<And>b. b \<in> us \<Longrightarrow> obj w' b = obj w b" for a p' w' fr'
  proof -
    obtain x where x: "obj w' a = Some x" using w'(2) live_obj by auto
    note tk = claim_ok [OF w'(1) x]
    have "pooled_inv obj isfree wok p' (claim a w') fr' (insert a us)"
      using p' w'(2) tk fm pis(4) reset_flag live_obj by (auto simp: pooled_inv_def)
    moreover have "obj (claim a w') b = obj w b" if "b \<in> us" for b using that a tk fm by auto
    moreover have "pooled_borrow create claim fail p w = Some (Ptr a, p', claim a w')"
      using b by (simp add: pooled_borrow_def)
    ultimately show thesis using borrowed [of a p' "claim a w'" fr' x] a m tk by simp
  qed
  from pis(1,2) own show thesis
  proof (cases rule: borrow_cases)
    case (reused e fr' p')
    have "e \<notin> us" using pool_invD(4) [OF pis(1)] reused(2) by auto
    then show ?thesis using taken [OF reused(1) _ reused(3,4)] pis(2) own reused(2) by simp
  next
    case (created e p' w')
    have "obj w' b = obj w b" if "b \<in> us" for b using that own create_frame [OF pis(2) created(8)] by auto
    then show ?thesis using taken [OF created(1,3,6,7,4)] own created(5) by auto
  next
    case (none w')
    have fm: "obj w' b = obj w b" if "b \<in> us" for b
      using that own create_frame [OF pis(2), of Null w'] none(5) by auto
    have "pooled_inv obj isfree wok p (fail w') [] us"
      using pis fail_ok [OF none(3)] fm none(2) by (simp add: pooled_inv_def)
    moreover have "obj (fail w') b = obj w b" if "b \<in> us" for b using that fm fail_ok [OF none(3)] by simp
    moreover have "pooled_borrow create claim fail p w = Some (Null, p, fail w')"
      using none(1) by (simp add: pooled_borrow_def)
    ultimately show ?thesis using refused [of p "fail w'"] none(2,5) by auto
  qed
qed

lemma return_ok:
  assumes inv: "pooled_inv obj isfree wok p w fr us" and a: "a \<in> us"
  obtains x p' where "obj w a = Some x" "pooled_return obj isfree give (Ptr a) p w = Some (Null, p', give a w)"
    "pooled_inv obj isfree wok p' (give a w) (a # fr) (us - {a})" "pl_nmax p' = pl_nmax p"
    "obj (give a w) = (obj w)(a \<mapsto> mark x)"
proof -
  note pis = pooled_invD [OF inv]
  obtain x where x: "obj w a = Some x" "\<not> isfree x" using pis(4) [OF a] by blast
  obtain p' where p': "FREEPOOL_RETURN a p = Some p'" "pool_inv p' (a # fr) (us - {a})" "pl_nmax p' = pl_nmax p"
    using pis(1) a by (rule FREEPOOL_RETURN_inv)
  note gv = give_ok [OF pis(2) x(1)]
  have "pooled_inv obj isfree wok p' (give a w) (a # fr) (us - {a})"
    using p'(2) gv pis by (auto simp: pooled_inv_def)
  then show ?thesis using that x p' gv by (simp add: pooled_return_def)
qed

text \<open>Returning an object a second time has no effect.\<close>

lemma return_twice:
  assumes "obj w a = Some (mark x)"
  shows "pooled_return obj isfree give (Ptr a) p w = Some (Ptr a, p, w)"
  using assms mark_flag by (simp add: pooled_return_def)

text \<open>Tearing down a pool from which nothing is borrowed frees all its objects.\<close>

lemma teardown_ok:
  assumes inv: "pooled_inv obj isfree wok p w fr {}" and all: "dom (obj w) = set fr"
  shows "\<exists>p' w'. FREEPOOL_DESTROY destroy p w = Some (p', w') \<and> \<not> pl_initialized p' \<and> wok w' \<and> obj w' = Map.empty"
proof -
  note pis = pooled_invD [OF inv]
  obtain p' w' where "FREEPOOL_DESTROY destroy p w = Some (p', w')" "\<not> pl_initialized p'" "wok w'"
      "live w' = live w - set fr"
    using destroy_all [OF pis(1,2)] live_obj all by auto
  moreover then have "dom (obj w') = {}" using live_obj all by auto
  ultimately show ?thesis by auto
qed

end


section \<open>A module that keeps its objects in a pool\<close>

text \<open>
  The borrowing and returning functions of a module with state \<open>'m\<close>. \<open>borrow_code\<close> is the text of the
  borrowing functions: the reset of the object clears its link a second time.
\<close>

locale pooled_module = pooled_objects create destroy live wok obj isfree reset mark claim give fail
  for create :: "'w \<Rightarrow> ('e ptr \<times> 'w) option" and destroy live wok and obj :: "'w \<Rightarrow> 'e \<Rightarrow> 'o option"
    and isfree reset mark claim give fail +
  fixes pool :: "'m \<Rightarrow> 'e pool" and world :: "'m \<Rightarrow> 'w" and upd :: "'e pool \<Rightarrow> 'w \<Rightarrow> 'm \<Rightarrow> 'm"
    and borrow :: "'m \<Rightarrow> ('e ptr \<times> 'm) option" and return :: "'e ptr \<Rightarrow> 'm \<Rightarrow> ('e ptr \<times> 'm) option"
  assumes pool_upd: "pool (upd p w m) = p" and world_upd: "world (upd p w m) = w"
    and borrow_code: "borrow m = do {
        (r, p, w) \<leftarrow> FREEPOOL_BORROW create (pool m) (world m);
        (case r of
           Null \<Rightarrow> Some (Null, upd p (fail w) m)
         | Ptr a \<Rightarrow> do {
             x \<leftarrow> obj w a;
             Some (Ptr a, upd (p\<lparr>pl_freeq := set_cell (NextOf a) Null (pl_freeq p)\<rparr>) (claim a w) m)
           })
      }"
    and return_code: "wok (world m) \<Longrightarrow> return t m = do {
        (r, p, w) \<leftarrow> pooled_return obj isfree give t (pool m) (world m);
        Some (r, if r = t then m else upd p w m)
      }"
begin

abbreviation minv :: "'m \<Rightarrow> 'e list \<Rightarrow> 'e set \<Rightarrow> bool" where
  "minv m fr us \<equiv> pooled_inv obj isfree wok (pool m) (world m) fr us"

lemma borrow_shape:
  assumes "minv m fr us"
  shows "borrow m = do {
     (r, p, w) \<leftarrow> pooled_borrow create claim fail (pool m) (world m);
     Some (r, upd p w m)
   }"
proof (cases "FREEPOOL_BORROW create (pool m) (world m)")
  case (Some x)
  then obtain r p w where x: "x = (r, p, w)" by (cases x)
  show ?thesis
  proof (cases r)
    case (Ptr a)
    then obtain t where "obj w a = Some t" using borrow_live [OF assms] Some x by blast
    then show ?thesis
      using Some x Ptr FREEPOOL_BORROW_clear [of create "pool m" "world m" a p w]
      by (simp add: borrow_code pooled_borrow_def)
  qed (use Some x in \<open>simp add: borrow_code pooled_borrow_def\<close>)
qed (simp add: borrow_code pooled_borrow_def)

lemma module_borrow_ok:
  assumes "minv m fr us"
  obtains (borrowed) a x m' fr' where "borrow m = Some (Ptr a, m')" "a \<notin> us" "minv m' fr' (insert a us)"
      "pl_nmax (pool m') = pl_nmax (pool m)" "obj (world m') a = Some (reset x)" "\<And>b. b \<in> us \<Longrightarrow> obj (world m') b = obj (world m) b"
  | (refused) m' where "borrow m = Some (Null, m')" "fr = []" "minv m' [] us" "pl_nmax (pool m') = pl_nmax (pool m)"
      "\<And>b. b \<in> us \<Longrightarrow> obj (world m') b = obj (world m) b"
      "card us = unat (pl_nmax (pool m)) \<or> (\<exists>w1. create (world m) = Some (Null, w1))"
  using assms
proof (cases rule: borrow_ok)
  case (borrowed a x p' w' fr')
  then show ?thesis
    using that(1) [of a "upd p' w' m" fr' x] borrow_shape [OF assms] by (simp add: pool_upd world_upd)
next
  case (refused p' w')
  then show ?thesis
    using that(2) [of "upd p' w' m"] borrow_shape [OF assms] by (simp add: pool_upd world_upd)
qed

lemma module_return_ok:
  assumes inv: "minv m fr us" and a: "a \<in> us"
  obtains m' x where "return (Ptr a) m = Some (Null, m')" "minv m' (a # fr) (us - {a})"
    "pl_nmax (pool m') = pl_nmax (pool m)" "obj (world m) a = Some x" "obj (world m') = (obj (world m))(a \<mapsto> mark x)"
proof -
  obtain x p' where "obj (world m) a = Some x"
      "pooled_return obj isfree give (Ptr a) (pool m) (world m) = Some (Null, p', give a (world m))"
      "pooled_inv obj isfree wok p' (give a (world m)) (a # fr) (us - {a})" "pl_nmax p' = pl_nmax (pool m)"
      "obj (give a (world m)) = (obj (world m))(a \<mapsto> mark x)"
    using return_ok [OF inv a] by blast
  then show ?thesis
    using that [of "upd p' (give a (world m)) m" x] return_code [OF pooled_invD(2) [OF inv]]
    by (simp add: pool_upd world_upd)
qed

text \<open>Any sequence of borrows and returns; an object that is held throughout is not touched.\<close>

lemma module_run_ok:
  "minv m fr (set us) \<Longrightarrow> distinct us \<Longrightarrow>
   \<exists>m' us' fr'. module_run borrow return ops m us = Some (m', us') \<and> minv m' fr' (set us') \<and> distinct us' \<and>
     length us' \<le> unat (pl_nmax (pool m)) \<and>
     (\<forall>b \<in> set us. PReturn b \<notin> set ops \<longrightarrow> b \<in> set us' \<and> obj (world m') b = obj (world m) b)"
proof (induction ops arbitrary: m us fr)
  case Nil
  then show ?case using pool_invD(7) [OF pooled_invD(1) [OF Nil(1)]] by (auto simp: distinct_card)
next
  case (Cons op ops)
  show ?case
  proof (cases op)
    case PBorrow
    from Cons.prems(1) show ?thesis
    proof (cases rule: module_borrow_ok)
      case (borrowed a x m' fr')
      then show ?thesis using Cons.IH [of m' fr' "a # us"] Cons.prems(2) PBorrow by fastforce
    next
      case (refused m')
      then show ?thesis using Cons.IH [of m' "[]" us] Cons.prems(2) PBorrow by fastforce
    qed
  next
    case (PReturn a)
    show ?thesis
    proof (cases "a \<in> set us")
      case True
      from Cons.prems(1) True obtain m' x where "return (Ptr a) m = Some (Null, m')" "minv m' (a # fr) (set us - {a})"
          "pl_nmax (pool m') = pl_nmax (pool m)" "obj (world m') = (obj (world m))(a \<mapsto> mark x)"
        by (rule module_return_ok)
      moreover have "set (remove1 a us) = set us - {a}" using Cons.prems(2) by simp
      ultimately show ?thesis
        using Cons.IH [of m' "a # fr" "remove1 a us"] Cons.prems(2) True PReturn by fastforce
    next
      case False
      then show ?thesis using Cons.IH [OF Cons.prems] PReturn by fastforce
    qed
  qed
qed

end

end
