(* ===== verification/Cc_Wheel.thy ===== *)
theory Cc_Wheel
  imports Cc_Timer Cc_Pooled Cc_Metric
begin

text \<open>
  The timing wheel of \<^verbatim>\<open>src/time/cc_wheel.c\<close>. The table of the wheel is a heap of \<^verbatim>\<open>TAILQ\<close>s of
  theory \<open>Cc_Queue\<close>, with the slot number as the head and the address of a timeout event as the
  element; the events come from a pool of theory \<open>Cc_Pooled\<close>. A callback is external code: the
  model records each call as an entry (event, callback, argument) of \<open>we_fired\<close>, and assumes
  that a callback does not itself insert into or remove from the wheel that is being turned.
\<close>

section \<open>Timeout events\<close>

datatype wheel_metric =
    M_timeout_event_curr | M_timeout_event_active | M_timeout_event_borrow | M_timeout_event_borrow_ex
  | M_timeout_event_return | M_timing_wheel_insert | M_timing_wheel_remove | M_timing_wheel_event
  | M_timing_wheel_process | M_timing_wheel_tick | M_timing_wheel_exec

record tevent =
  te_cb :: "nat ptr"
  te_data :: nat
  te_recur :: bool
  te_delay :: timeout
  te_offset :: u64
  te_free :: bool

record tev_world =
  tv_arena :: "tevent arena"
  tv_metrics :: "wheel_metric metrics"

type_synonym tev_module = "tev_world pmodule"

definition TEVENT_SIZE :: u64 where
  "TEVENT_SIZE = 80"

definition timeout_event_reset :: "tevent \<Rightarrow> tevent" where
  "timeout_event_reset t = t\<lparr>te_cb := Null, te_data := 0, te_recur := False, te_delay := timeout_reset (te_delay t),
     te_offset := 0, te_free := False\<rparr>"

text \<open>Memory as the allocator hands it out; every field is written by the reset that follows.\<close>

definition tevent_raw :: tevent where
  "tevent_raw = \<lparr>te_cb = Null, te_data = 0, te_recur = False,
     te_delay = \<lparr>tp = 0, is_set = False, is_intvl = False\<rparr>, te_offset = 0, te_free = False\<rparr>"

definition timeout_event_create :: "tev_world \<Rightarrow> (nat ptr \<times> tev_world) option" where
  "timeout_event_create w =
     (case arena_request TEVENT_SIZE (tv_arena w) of
        (Null, ar) \<Rightarrow> Some (Null, w\<lparr>tv_arena := ar\<rparr>)
      | (Ptr (a, _), ar) \<Rightarrow>
          Some (Ptr a, w\<lparr>tv_arena := arena_put a (timeout_event_reset tevent_raw) ar,
                         tv_metrics := INCR (tv_metrics w) M_timeout_event_curr\<rparr>))"

definition timeout_event_destroy :: "nat \<Rightarrow> tev_world \<Rightarrow> tev_world option" where
  "timeout_event_destroy a w = do {
     _ \<leftarrow> ar_objs (tv_arena w) a;
     Some (w\<lparr>tv_arena := arena_free a (tv_arena w), tv_metrics := DECR (tv_metrics w) M_timeout_event_curr\<rparr>)
   }"

definition timeout_event_borrow :: "tev_module \<Rightarrow> (nat ptr \<times> tev_module) option" where
  "timeout_event_borrow m = do {
     (r, p, w) \<leftarrow> FREEPOOL_BORROW timeout_event_create (pm_pool m) (pm_world m);
     (case r of
        Null \<Rightarrow> Some (Null, m\<lparr>pm_pool := p, pm_world := w\<lparr>tv_metrics := INCR (tv_metrics w) M_timeout_event_borrow_ex\<rparr>\<rparr>)
      | Ptr a \<Rightarrow> do {
          t \<leftarrow> ar_objs (tv_arena w) a;
          Some (Ptr a, m\<lparr>pm_pool := p, pm_world := w\<lparr>tv_arena := arena_put a (timeout_event_reset t) (tv_arena w),
            tv_metrics := INCR (INCR (tv_metrics w) M_timeout_event_borrow) M_timeout_event_active\<rparr>\<rparr>)
        })
   }"

definition timeout_event_return :: "nat ptr \<Rightarrow> tev_module \<Rightarrow> (nat ptr \<times> tev_module) option" where
  "timeout_event_return t m =
     (case t of
        Null \<Rightarrow> Some (t, m)
      | Ptr a \<Rightarrow> do {
          e \<leftarrow> ar_objs (tv_arena (pm_world m)) a;
          if te_free e then Some (t, m)
          else do {
            p \<leftarrow> FREEPOOL_RETURN a (pm_pool m);
            let w = pm_world m;
            Some (Null, m\<lparr>pm_pool := p,
              pm_world := w\<lparr>tv_arena := arena_put a (e\<lparr>te_free := True\<rparr>) (tv_arena w),
                tv_metrics := DECR (INCR (tv_metrics w) M_timeout_event_return) M_timeout_event_active\<rparr>\<rparr>)
          }
        })"

text \<open>\<^verbatim>\<open>exit\<close> when the pool cannot be filled is a result of its own: \<^term>\<open>Inl ()\<close>.\<close>

definition timeout_event_pool_create :: "u32 \<Rightarrow> tev_module \<Rightarrow> (unit + tev_module) option" where
  "timeout_event_pool_create mx m =
     (if pm_pool_init m then Some (Inr m)
      else do {
        p \<leftarrow> FREEPOOL_CREATE mx (pm_pool m);
        (p', w) \<leftarrow> FREEPOOL_PREALLOC timeout_event_create mx p (pm_world m);
        Some (if pl_nfree p' < mx then Inl () else Inr (m\<lparr>pm_pool := p', pm_world := w, pm_pool_init := True\<rparr>))
      })"

definition timeout_event_pool_destroy :: "tev_module \<Rightarrow> tev_module option" where
  "timeout_event_pool_destroy m =
     (if \<not> pm_pool_init m then Some m
      else do {
        (p, w) \<leftarrow> FREEPOOL_DESTROY timeout_event_destroy (pm_pool m) (pm_world m);
        Some (m\<lparr>pm_pool := p, pm_world := w, pm_pool_init := False\<rparr>)
      })"

definition timing_wheel_setup :: "wheel_metric metrics \<Rightarrow> tev_module \<Rightarrow> (unit + tev_module) option" where
  "timing_wheel_setup metrics m = do {
     r \<leftarrow> timeout_event_pool_create 0 (m\<lparr>pm_world := (pm_world m)\<lparr>tv_metrics := metrics\<rparr>\<rparr>);
     Some (case r of Inl u \<Rightarrow> Inl u | Inr m' \<Rightarrow> Inr (m'\<lparr>pm_init := True\<rparr>))
   }"

definition timing_wheel_teardown :: "tev_module \<Rightarrow> tev_module option" where
  "timing_wheel_teardown m = do {
     m' \<leftarrow> timeout_event_pool_destroy m;
     Some (m'\<lparr>pm_world := (pm_world m')\<lparr>tv_metrics := Null\<rparr>, pm_init := False\<rparr>)
   }"


section \<open>The wheel\<close>

record timing_wheel =
  tw_tick :: timeout
  tw_cap :: u64
  tw_max_ntick :: u64
  tw_tick_ns :: u64
  tw_active :: bool
  tw_due :: timeout
  tw_curr :: u64
  tw_nevent :: u64
  tw_table :: "(nat, nat) qheap"
  tw_nprocess :: u64
  tw_nexec :: u64
  tw_ntick :: u64

text \<open>What the wheel's functions act on besides the wheel.\<close>

record wenv =
  we_mod :: tev_module
  we_clock :: clock
  we_fired :: "(nat \<times> nat \<times> nat) list"

abbreviation we_objs :: "wenv \<Rightarrow> nat \<Rightarrow> tevent option" where
  "we_objs w \<equiv> ar_objs (tv_arena (pm_world (we_mod w)))"

definition we_world_upd :: "(tev_world \<Rightarrow> tev_world) \<Rightarrow> wenv \<Rightarrow> wenv" where
  "we_world_upd f w = w\<lparr>we_mod := (we_mod w)\<lparr>pm_world := f (pm_world (we_mod w))\<rparr>\<rparr>"

definition we_incr :: "wheel_metric \<Rightarrow> wenv \<Rightarrow> wenv" where
  "we_incr x = we_world_upd (\<lambda>v. v\<lparr>tv_metrics := INCR (tv_metrics v) x\<rparr>)"

definition we_decr :: "wheel_metric \<Rightarrow> wenv \<Rightarrow> wenv" where
  "we_decr x = we_world_upd (\<lambda>v. v\<lparr>tv_metrics := DECR (tv_metrics v) x\<rparr>)"

definition we_store :: "nat \<Rightarrow> tevent \<Rightarrow> wenv \<Rightarrow> wenv" where
  "we_store a t = we_world_upd (\<lambda>v. v\<lparr>tv_arena := arena_put a t (tv_arena v)\<rparr>)"

text \<open>The loop over the table; a head outside the allocated block is undefined.\<close>

definition TQH_SIZE :: u64 where
  "TQH_SIZE = 16"

definition TW_SIZE :: u64 where
  "TW_SIZE = 112"

fun init_table :: "bytes \<Rightarrow> nat \<Rightarrow> nat \<Rightarrow> (nat, nat) qheap \<Rightarrow> (nat, nat) qheap option" where
  "init_table blk i 0 s = Some s"
| "init_table blk i (Suc k) s = do {
     ASSERT ((i + 1) * unat TQH_SIZE \<le> length blk);
     init_table blk (i + 1) k (TAILQ_INIT i s)
   }"

text \<open>\<open>malloc1\<close> and \<open>malloc2\<close> answer the two requests, and \<open>tbl\<close> is what the memory held.\<close>

definition timing_wheel_create ::
  "(u64 \<Rightarrow> bytes ptr) \<Rightarrow> (u64 \<Rightarrow> bytes ptr) \<Rightarrow> (nat, nat) qheap \<Rightarrow> timeout \<Rightarrow> u64 \<Rightarrow> u64 \<Rightarrow> clock \<Rightarrow>
   (timing_wheel ptr \<times> clock) option" where
  "timing_wheel_create malloc1 malloc2 tbl tick cap ntick c = do {
     ASSERT (0 < cap);
     case cc_alloc malloc1 TW_SIZE of
       Null \<Rightarrow> Some (Null, c)
     | Ptr _ \<Rightarrow> do {
         (ns, c') \<leftarrow> timeout_ns tick c;
         case cc_alloc malloc2 (cap * TQH_SIZE) of
           Null \<Rightarrow> Some (Null, c')
         | Ptr blk \<Rightarrow> do {
             table \<leftarrow> init_table blk 0 (unat cap) tbl;
             Some (Ptr \<lparr>tw_tick = tick, tw_cap = cap, tw_max_ntick = ntick, tw_tick_ns = word_of_int ns,
               tw_active = False, tw_due = \<lparr>tp = 0, is_set = False, is_intvl = False\<rparr>, tw_curr = 0, tw_nevent = 0,
               tw_table = table, tw_nprocess = 0, tw_nexec = 0, tw_ntick = 0\<rparr>, c')
           }
       }
   }"

text \<open>The memory of the wheel is given back; events still on it are not returned to their pool.\<close>

definition timing_wheel_destroy :: "timing_wheel ptr \<Rightarrow> timing_wheel ptr option" where
  "timing_wheel_destroy tw = (case tw of Null \<Rightarrow> None | Ptr _ \<Rightarrow> Some Null)"

definition wheel_offset :: "timing_wheel \<Rightarrow> timeout \<Rightarrow> clock \<Rightarrow> (u64 \<times> clock) option" where
  "wheel_offset tw delay c = do {
     (ns, c') \<leftarrow> timeout_ns delay c;
     let delay_ns = (word_of_int ns :: u64);
     if delay_ns = 0 then Some (0, c')
     else do {
       q \<leftarrow> c_udiv (delay_ns - 1) (tw_tick_ns tw);
       Some (q + 1, c')
     }
   }"

definition timing_wheel_insert_raw :: "nat \<Rightarrow> timing_wheel \<times> wenv \<Rightarrow> (timing_wheel \<times> wenv) option" where
  "timing_wheel_insert_raw tev = (\<lambda>(tw, w). do {
     t \<leftarrow> we_objs w tev;
     ASSERT (te_offset t < tw_cap tw);
     Some (tw\<lparr>tw_table := TAILQ_INSERT_TAIL (unat (te_offset t)) tev (tw_table tw), tw_nevent := tw_nevent tw + 1\<rparr>,
           we_incr M_timing_wheel_event (we_incr M_timing_wheel_insert w))
   })"

definition we_return :: "nat ptr \<Rightarrow> wenv \<Rightarrow> (nat ptr \<times> wenv) option" where
  "we_return t w = do {
     (t', m) \<leftarrow> timeout_event_return t (we_mod w);
     Some (t', w\<lparr>we_mod := m\<rparr>)
   }"

definition timing_wheel_insert ::
  "timeout \<Rightarrow> bool \<Rightarrow> nat ptr \<Rightarrow> nat \<Rightarrow> timing_wheel \<times> wenv \<Rightarrow> (nat ptr \<times> timing_wheel \<times> wenv) option" where
  "timing_wheel_insert delay recur cb arg = (\<lambda>(tw, w). do {
     ASSERT (cb \<noteq> Null);
     ASSERT (is_intvl delay);
     (tev, m) \<leftarrow> timeout_event_borrow (we_mod w);
     let w1 = w\<lparr>we_mod := m\<rparr>;
     case tev of
       Null \<Rightarrow> do {
         (_, w2) \<leftarrow> we_return tev w1;
         Some (Null, tw, w2)
       }
     | Ptr a \<Rightarrow> do {
         t \<leftarrow> we_objs w1 a;
         let t1 = t\<lparr>te_cb := cb, te_data := arg, te_recur := recur, te_delay := delay\<rparr>;
         let w2 = we_store a t1 w1;
         (offset, c) \<leftarrow> wheel_offset tw delay (we_clock w2);
         let w3 = w2\<lparr>we_clock := c\<rparr>;
         if tw_cap tw \<le> offset \<or> recur \<and> offset = 0 then do {
           (_, w4) \<leftarrow> we_return tev w3;
           Some (Null, tw, w4)
         } else do {
           o' \<leftarrow> c_umod (tw_curr tw + offset) (tw_cap tw);
           (tw', w4) \<leftarrow> timing_wheel_insert_raw a (tw, we_store a (t1\<lparr>te_offset := o'\<rparr>) w3);
           Some (tev, tw', w4)
         }
       }
   })"

definition timing_wheel_remove_raw :: "nat \<Rightarrow> timing_wheel \<times> wenv \<Rightarrow> (timing_wheel \<times> wenv) option" where
  "timing_wheel_remove_raw tev = (\<lambda>(tw, w). do {
     t \<leftarrow> we_objs w tev;
     ASSERT (te_offset t < tw_cap tw);
     Some (tw\<lparr>tw_table := TAILQ_REMOVE (unat (te_offset t)) tev (tw_table tw), tw_nevent := tw_nevent tw - 1\<rparr>,
           we_decr M_timing_wheel_event (we_incr M_timing_wheel_remove w))
   })"

definition timing_wheel_remove :: "nat ptr \<Rightarrow> timing_wheel \<times> wenv \<Rightarrow> (nat ptr \<times> timing_wheel \<times> wenv) option" where
  "timing_wheel_remove tev s = do {
     ASSERT (tev \<noteq> Null);
     (tw, w) \<leftarrow> timing_wheel_remove_raw (deref tev) s;
     (t', w') \<leftarrow> we_return tev w;
     Some (t', tw, w')
   }"

definition timing_wheel_start :: "timing_wheel \<times> wenv \<Rightarrow> (timing_wheel \<times> wenv) option" where
  "timing_wheel_start = (\<lambda>(tw, w). do {
     (due, c) \<leftarrow> timeout_add_intvl (tw_due tw) (tw_tick tw) (we_clock w);
     Some (tw\<lparr>tw_active := True, tw_due := due\<rparr>, w\<lparr>we_clock := c\<rparr>)
   })"

definition timing_wheel_stop :: "timing_wheel \<Rightarrow> timing_wheel" where
  "timing_wheel_stop tw = tw\<lparr>tw_active := False, tw_due := timeout_reset (tw_due tw)\<rparr>"

definition advance_curr :: "timing_wheel \<times> wenv \<Rightarrow> (timing_wheel \<times> wenv) option" where
  "advance_curr = (\<lambda>(tw, w). do {
     c \<leftarrow> c_umod (tw_curr tw + 1) (tw_cap tw);
     Some (tw\<lparr>tw_curr := c, tw_ntick := tw_ntick tw + 1\<rparr>, we_incr M_timing_wheel_tick w)
   })"

text \<open>The body of the loop of \<^verbatim>\<open>_process_tick\<close> for the event \<open>t\<close>.\<close>

definition process_event :: "bool \<Rightarrow> nat \<Rightarrow> timing_wheel \<times> wenv \<Rightarrow> (timing_wheel \<times> wenv) option" where
  "process_event endmode t = (\<lambda>(tw, w). do {
     (tw1, w1) \<leftarrow> timing_wheel_remove_raw t
        (tw\<lparr>tw_nprocess := tw_nprocess tw + 1\<rparr>, we_incr M_timing_wheel_process w);
     e \<leftarrow> we_objs w1 t;
     let w2 = (case te_cb e of Null \<Rightarrow> w1 | Ptr cb \<Rightarrow> w1\<lparr>we_fired := we_fired w1 @ [(t, cb, te_data e)]\<rparr>);
     if \<not> endmode \<and> te_recur e then do {
       (off, c) \<leftarrow> wheel_offset tw1 (te_delay e) (we_clock w2);
       o' \<leftarrow> c_umod (tw_curr tw1 + off) (tw_cap tw1);
       timing_wheel_insert_raw t (tw1, we_store t (e\<lparr>te_offset := o'\<rparr>) (w2\<lparr>we_clock := c\<rparr>))
     } else do {
       (_, w3) \<leftarrow> we_return (Ptr t) w2;
       Some (tw1, w3)
     }
   })"

partial_function (option) process_loop ::
  "bool \<Rightarrow> nat ptr \<Rightarrow> timing_wheel \<times> wenv \<Rightarrow> (timing_wheel \<times> wenv) option" where
  [code]: "process_loop endmode t s =
     (case t of
        Null \<Rightarrow> Some s
      | Ptr a \<Rightarrow> do {
          let tt = TAILQ_NEXT a (tw_table (fst s));
          s' \<leftarrow> process_event endmode a s;
          process_loop endmode tt s'
        })"

definition process_tick :: "bool \<Rightarrow> timing_wheel \<times> wenv \<Rightarrow> (timing_wheel \<times> wenv) option" where
  "process_tick endmode s = do {
     ASSERT (tw_curr (fst s) < tw_cap (fst s));
     process_loop endmode (TAILQ_FIRST (unat (tw_curr (fst s))) (tw_table (fst s))) s
   }"

definition tick_allowed :: "timing_wheel \<Rightarrow> u64 \<Rightarrow> bool" where
  "tick_allowed tw ntick \<longleftrightarrow> tw_max_ntick tw = 0 \<or> ntick < tw_max_ntick tw"

text \<open>The conversion of a \<^verbatim>\<open>double\<close> to \<^verbatim>\<open>uint64_t\<close>, undefined out of range.\<close>

definition dbl_to_u64 :: "real \<Rightarrow> u64 option" where
  "dbl_to_u64 x = (if 0 \<le> x \<and> x < 18446744073709551616 then Some (word_of_int \<lfloor>x\<rfloor>) else None)"

definition duration_raw :: duration where
  "duration_raw = \<lparr>d_type = DURATION_PRECISE, d_started = False, d_stopped = False,
     d_start = \<lparr>tv_sec = 0, tv_nsec = 0\<rparr>, d_stop = \<lparr>tv_sec = 0, tv_nsec = 0\<rparr>\<rparr>"

definition wheel_due_next :: "timeout \<Rightarrow> timing_wheel \<Rightarrow> timing_wheel option" where
  "wheel_due_next to tw =
     (if tp to < tp (tw_tick tw) then do {
        due1 \<leftarrow> timeout_sum_intvl (tw_due tw) (tw_due tw) (tw_tick tw);
        due2 \<leftarrow> timeout_sub_intvl due1 due1 to;
        Some (tw\<lparr>tw_due := due2\<rparr>)
      } else Some tw)"

text \<open>One round of the loop of \<^verbatim>\<open>timing_wheel_execute\<close>; the sum of the elapsed times only feeds a log line.\<close>

definition execute_round :: "(real \<Rightarrow> real) \<Rightarrow> timing_wheel \<times> wenv \<Rightarrow> (timing_wheel \<times> wenv) option" where
  "execute_round rnd = (\<lambda>(tw, w). do {
     let (d, c) = duration_start duration_raw (we_clock w);
     s1 \<leftarrow> process_tick False (tw, w\<lparr>we_clock := c\<rparr>);
     (tw2, w2) \<leftarrow> advance_curr s1;
     let (d', c') = duration_stop d (we_clock w2);
     ns \<leftarrow> duration_ns rnd d';
     u \<leftarrow> dbl_to_u64 ns;
     tw3 \<leftarrow> wheel_due_next (timeout_set_ns \<lparr>tp = 0, is_set = False, is_intvl = False\<rparr> u) tw2;
     Some (tw3, w2\<lparr>we_clock := c'\<rparr>)
   })"

partial_function (option) execute_loop ::
  "(real \<Rightarrow> real) \<Rightarrow> u64 \<Rightarrow> timing_wheel \<times> wenv \<Rightarrow> (u64 \<times> timing_wheel \<times> wenv) option" where
  [code]: "execute_loop rnd ntick s =
     (if \<not> tick_allowed (fst s) ntick then Some (ntick, s)
      else do {
        (expired, c) \<leftarrow> timeout_expired (tw_due (fst s)) (we_clock (snd s));
        let s1 = (fst s, (snd s)\<lparr>we_clock := c\<rparr>);
        if \<not> expired then Some (ntick, s1)
        else do {
          s2 \<leftarrow> execute_round rnd s1;
          execute_loop rnd (ntick + 1) s2
        }
      })"

definition timing_wheel_execute :: "(real \<Rightarrow> real) \<Rightarrow> timing_wheel \<times> wenv \<Rightarrow> (timing_wheel \<times> wenv) option" where
  "timing_wheel_execute rnd s = do {
     (_, tw, w) \<leftarrow> execute_loop rnd 0 s;
     Some (tw\<lparr>tw_nexec := tw_nexec tw + 1\<rparr>, we_incr M_timing_wheel_exec w)
   }"

definition wheel_turn :: "bool \<Rightarrow> timing_wheel \<times> wenv \<Rightarrow> (timing_wheel \<times> wenv) option" where
  "wheel_turn endmode s = process_tick endmode s \<bind> advance_curr"

partial_function (option) flush_loop :: "u64 \<Rightarrow> timing_wheel \<times> wenv \<Rightarrow> (timing_wheel \<times> wenv) option" where
  [code]: "flush_loop start s = do {
     s' \<leftarrow> wheel_turn True s;
     if tw_curr (fst s') \<noteq> start then flush_loop start s' else Some s'
   }"

definition timing_wheel_flush :: "timing_wheel \<times> wenv \<Rightarrow> (timing_wheel \<times> wenv) option" where
  "timing_wheel_flush s = flush_loop (tw_curr (fst s)) s"

end
