(* ===== verification/Cc_Wheel_Facts.thy ===== *)
theory Cc_Wheel_Facts
  imports Cc_Wheel
begin

text \<open>
  What the timing wheel of theory \<open>Cc_Wheel\<close> does. \<open>wheel_inv tw w L fr us\<close> relates a wheel to
  the lists \<open>L i\<close> of the events in its slots. The lemmas give the effect of each operation on
  \<open>L\<close>; the properties say when an event fires.
\<close>

section \<open>The pool of events\<close>

definition tv_ok :: "tev_world \<Rightarrow> bool" where
  "tv_ok w \<longleftrightarrow> arena_ok (tv_arena w)"

definition tv_objs :: "tev_world \<Rightarrow> nat \<Rightarrow> tevent option" where
  "tv_objs w = ar_objs (tv_arena w)"

definition tev_claim :: "nat \<Rightarrow> tev_world \<Rightarrow> tev_world" where
  "tev_claim a w = w\<lparr>tv_arena := arena_put a (timeout_event_reset (the (tv_objs w a))) (tv_arena w),
     tv_metrics := INCR (INCR (tv_metrics w) M_timeout_event_borrow) M_timeout_event_active\<rparr>"

definition tev_give :: "nat \<Rightarrow> tev_world \<Rightarrow> tev_world" where
  "tev_give a w = w\<lparr>tv_arena := arena_put a ((the (tv_objs w a))\<lparr>te_free := True\<rparr>) (tv_arena w),
     tv_metrics := DECR (INCR (tv_metrics w) M_timeout_event_return) M_timeout_event_active\<rparr>"

definition tev_fail :: "tev_world \<Rightarrow> tev_world" where
  "tev_fail w = w\<lparr>tv_metrics := INCR (tv_metrics w) M_timeout_event_borrow_ex\<rparr>"

lemma timeout_event_create_cases:
  assumes ok: "tv_ok w"
  shows "\<exists>r w'. timeout_event_create w = Some (r, w') \<and> tv_ok w' \<and>
     (r = Null \<and> tv_objs w' = tv_objs w \<or>
      (\<exists>e t. r = Ptr e \<and> e \<notin> dom (tv_objs w) \<and> tv_objs w' = (tv_objs w)(e \<mapsto> t)))"
proof -
  obtain r ar where req: "arena_request TEVENT_SIZE (tv_arena w) = (r, ar)" by fastforce
  have "arena_ok (tv_arena w)" using ok by (simp add: tv_ok_def)
  note ar = arena_request_ok [OF this req]
  show ?thesis
  proof (cases r)
    case Null
    then show ?thesis using req ar by (simp add: timeout_event_create_def tv_ok_def tv_objs_def)
  next
    case (Ptr x)
    then obtain a blk where x: "r = Ptr (a, blk)" by (cases x) simp
    show ?thesis using req x ar(1,2) ar(3) [OF x] by (simp add: timeout_event_create_def tv_ok_def tv_objs_def) blast
  qed
qed

interpretation tevp: pooled_objects timeout_event_create timeout_event_destroy "\<lambda>w. dom (tv_objs w)" tv_ok
  tv_objs te_free timeout_event_reset "\<lambda>e. e\<lparr>te_free := True\<rparr>" tev_claim tev_give tev_fail
proof unfold_locales
  show "\<exists>r w'. timeout_event_create w = Some (r, w') \<and> tv_ok w' \<and> (r = Null \<and> dom (tv_objs w') = dom (tv_objs w) \<or>
      (\<exists>e. r = Ptr e \<and> e \<notin> dom (tv_objs w) \<and> dom (tv_objs w') = insert e (dom (tv_objs w))))" if "tv_ok w" for w
    using timeout_event_create_cases [OF that] by fastforce
  show "\<exists>w'. timeout_event_destroy e w = Some w' \<and> tv_ok w' \<and> dom (tv_objs w') = dom (tv_objs w) - {e}"
    if "tv_ok w" "e \<in> dom (tv_objs w)" for w e
    using that by (auto simp: timeout_event_destroy_def tv_ok_def tv_objs_def)
  show "tv_objs w' e = tv_objs w e"
    if "tv_ok w" "timeout_event_create w = Some (r, w')" "e \<in> dom (tv_objs w)" for w r w' e
    using timeout_event_create_cases [OF that(1)] that(2,3) by (auto split: if_splits)
qed (simp_all add: tv_ok_def tv_objs_def tev_claim_def tev_give_def tev_fail_def timeout_event_reset_def)

definition tev_inv :: "tev_module \<Rightarrow> nat list \<Rightarrow> nat set \<Rightarrow> bool" where
  "tev_inv m fr us \<longleftrightarrow> pooled_inv tv_objs te_free tv_ok (pm_pool m) (pm_world m) fr us"

lemma timeout_event_borrow_shape:
  assumes "tev_inv m fr us"
  shows "timeout_event_borrow m = do {
     (r, p, w) \<leftarrow> pooled_borrow timeout_event_create tev_claim tev_fail (pm_pool m) (pm_world m);
     Some (r, m\<lparr>pm_pool := p, pm_world := w\<rparr>)
   }"
proof -
  note live = tevp.borrow_live [OF assms [unfolded tev_inv_def]]
  show ?thesis
  proof (cases "FREEPOOL_BORROW timeout_event_create (pm_pool m) (pm_world m)")
    case (Some x)
    then obtain r p w where x: "x = (r, p, w)" by (cases x)
    show ?thesis
    proof (cases r)
      case (Ptr a)
      then obtain t where "tv_objs w a = Some t" using live Some x by blast
      then show ?thesis
        using Some x Ptr by (simp add: timeout_event_borrow_def pooled_borrow_def tev_claim_def tv_objs_def)
    qed (use Some x in \<open>simp add: timeout_event_borrow_def pooled_borrow_def tev_fail_def\<close>)
  qed (simp add: timeout_event_borrow_def pooled_borrow_def)
qed

lemma timeout_event_return_shape:
  "timeout_event_return t m = do {
     (r, p, w) \<leftarrow> pooled_return tv_objs te_free tev_give t (pm_pool m) (pm_world m);
     Some (r, m\<lparr>pm_pool := p, pm_world := w\<rparr>)
   }"
  by (auto simp: timeout_event_return_def pooled_return_def tev_give_def tv_objs_def Let_def
      split: ptr.splits bind_splits)

lemma timeout_event_borrow_ok:
  assumes inv: "tev_inv m fr us"
  obtains (borrowed) a x m' fr' where "timeout_event_borrow m = Some (Ptr a, m')" "a \<notin> us" "tev_inv m' fr' (insert a us)"
      "tv_objs (pm_world m') a = Some (timeout_event_reset x)"
      "\<And>b. b \<in> us \<Longrightarrow> tv_objs (pm_world m') b = tv_objs (pm_world m) b"
  | (refused) m' where "timeout_event_borrow m = Some (Null, m')" "tev_inv m' [] us"
      "\<And>b. b \<in> us \<Longrightarrow> tv_objs (pm_world m') b = tv_objs (pm_world m) b"
proof -
  note shape = timeout_event_borrow_shape [OF inv]
  from inv [unfolded tev_inv_def] show ?thesis
  proof (cases rule: tevp.borrow_ok)
    case (borrowed a x p' w' fr')
    then show ?thesis
      using that(1) [of a "m\<lparr>pm_pool := p', pm_world := w'\<rparr>" fr' x] shape by (simp add: tev_inv_def)
  next
    case (refused p' w')
    then show ?thesis
      using that(2) [of "m\<lparr>pm_pool := p', pm_world := w'\<rparr>"] shape by (simp add: tev_inv_def)
  qed
qed

lemma timeout_event_return_ok:
  assumes inv: "tev_inv m fr us" and a: "a \<in> us"
  obtains m' x where "timeout_event_return (Ptr a) m = Some (Null, m')" "tev_inv m' (a # fr) (us - {a})"
    "tv_objs (pm_world m) a = Some x" "tv_objs (pm_world m') = (tv_objs (pm_world m))(a \<mapsto> x\<lparr>te_free := True\<rparr>)"
proof -
  from inv [unfolded tev_inv_def] a obtain x p' where
    r: "tv_objs (pm_world m) a = Some x"
      "pooled_return tv_objs te_free tev_give (Ptr a) (pm_pool m) (pm_world m) = Some (Null, p', tev_give a (pm_world m))"
      "pooled_inv tv_objs te_free tv_ok p' (tev_give a (pm_world m)) (a # fr) (us - {a})"
      "tv_objs (tev_give a (pm_world m)) = (tv_objs (pm_world m))(a \<mapsto> x\<lparr>te_free := True\<rparr>)"
    by (rule tevp.return_ok)
  then show ?thesis
    using that [of "m\<lparr>pm_pool := p', pm_world := tev_give a (pm_world m)\<rparr>" x]
    by (simp add: tev_inv_def timeout_event_return_shape)
qed

lemma timeout_event_return_Null [simp]: "timeout_event_return Null m = Some (Null, m)"
  by (simp add: timeout_event_return_def)


section \<open>The invariant of the wheel\<close>

text \<open>The number of ticks after which an event with a delay of \<open>d\<close> nanoseconds is due.\<close>

definition offset_ns :: "u64 \<Rightarrow> u64 \<Rightarrow> u64" where
  "offset_ns tick d = (if d = 0 then 0 else (d - 1) div tick + 1)"

lemma offset_ns_nat:
  assumes "tick \<noteq> 0" "d \<noteq> 0"
  shows "unat (offset_ns tick d) = (unat d - 1) div unat tick + 1"
proof -
  have "0 < unat d" using assms(2) by (simp add: unat_gt_0)
  then have d: "unat (d - 1) = unat d - 1" by (simp add: unat_sub word_le_nat_alt)
  have "unat (d - 1) div unat tick \<le> unat (d - 1)" by simp
  then have "unat ((d - 1) div tick) + 1 < 18446744073709551616"
    using d \<open>0 < unat d\<close> unat_u64_lt [of d] unfolding unat_div by linarith
  then have "unat ((d - 1) div tick + 1) = unat ((d - 1) div tick) + 1"
    using unat_add_small [of "(d - 1) div tick" 1] by simp
  then show ?thesis using assms(2) d by (simp add: offset_ns_def unat_div)
qed

text \<open>The offset is the delay in ticks, rounded up.\<close>

lemma offset_ns_ceil:
  assumes "tick \<noteq> 0"
  shows "unat d \<le> unat (offset_ns tick d) * unat tick"
    "0 < unat (offset_ns tick d) \<Longrightarrow> (unat (offset_ns tick d) - 1) * unat tick < unat d"
proof -
  have t: "0 < unat tick" using assms by (simp add: unat_gt_0)
  have "unat d \<le> unat (offset_ns tick d) * unat tick \<and>
    (0 < unat (offset_ns tick d) \<longrightarrow> (unat (offset_ns tick d) - 1) * unat tick < unat d)"
  proof (cases "d = 0")
    case False
    then have "0 < unat d" by (simp add: unat_gt_0)
    have "(unat d - 1) div unat tick * unat tick \<le> unat d - 1"
      "unat d - 1 < ((unat d - 1) div unat tick + 1) * unat tick"
      using t dividend_less_div_times [of "unat tick" "unat d - 1"] by (simp_all add: algebra_simps)
    then show ?thesis
      unfolding offset_ns_nat [OF assms False] add_diff_cancel_right' using \<open>0 < unat d\<close> by linarith
  qed (simp add: offset_ns_def)
  then show "unat d \<le> unat (offset_ns tick d) * unat tick"
    "0 < unat (offset_ns tick d) \<Longrightarrow> (unat (offset_ns tick d) - 1) * unat tick < unat d" by simp_all
qed

lemma wheel_offset_intvl:
  assumes "is_intvl d" "tw_tick_ns tw \<noteq> 0"
  shows "wheel_offset tw d c = Some (offset_ns (tw_tick_ns tw) (word_of_int (tp d)), c)"
  using assms by (simp add: wheel_offset_def timeout_ns_def offset_ns_def c_udiv_def)

definition delay_ticks :: "timing_wheel \<Rightarrow> tevent \<Rightarrow> nat" where
  "delay_ticks tw e = unat (offset_ns (tw_tick_ns tw) (word_of_int (tp (te_delay e))))"

definition slot_ok :: "timing_wheel \<Rightarrow> wenv \<Rightarrow> nat set \<Rightarrow> nat \<Rightarrow> nat \<Rightarrow> bool" where
  "slot_ok tw w us i a \<longleftrightarrow> a \<in> us \<and> (\<exists>e. we_objs w a = Some e \<and> unat (te_offset e) = i \<and> is_intvl (te_delay e) \<and>
     (te_recur e \<longrightarrow> 0 < delay_ticks tw e \<and> delay_ticks tw e < unat (tw_cap tw)))"

definition wheel_shape :: "timing_wheel \<Rightarrow> bool" where
  "wheel_shape tw \<longleftrightarrow> unat (tw_cap tw) < 9223372036854775808 \<and> unat (tw_curr tw) < unat (tw_cap tw) \<and> tw_tick_ns tw \<noteq> 0"

definition wheel_inv :: "timing_wheel \<Rightarrow> wenv \<Rightarrow> (nat \<Rightarrow> nat list) \<Rightarrow> nat list \<Rightarrow> nat set \<Rightarrow> bool" where
  "wheel_inv tw w L fr us \<longleftrightarrow>
     tev_inv (we_mod w) fr us \<and> wheel_shape tw \<and>
     (\<forall>i < unat (tw_cap tw). tailq_rep (tw_table tw) i (L i)) \<and>
     (\<forall>i < unat (tw_cap tw). \<forall>j < unat (tw_cap tw). i \<noteq> j \<longrightarrow> set (L i) \<inter> set (L j) = {}) \<and>
     (\<forall>i < unat (tw_cap tw). \<forall>a \<in> set (L i). slot_ok tw w us i a) \<and>
     tw_nevent tw = of_nat (\<Sum>i < unat (tw_cap tw). length (L i))"

lemma wheel_invD:
  assumes "wheel_inv tw w L fr us"
  shows "tev_inv (we_mod w) fr us" "wheel_shape tw"
    "i < unat (tw_cap tw) \<Longrightarrow> tailq_rep (tw_table tw) i (L i)"
    "i < unat (tw_cap tw) \<Longrightarrow> j < unat (tw_cap tw) \<Longrightarrow> i \<noteq> j \<Longrightarrow> set (L i) \<inter> set (L j) = {}"
    "i < unat (tw_cap tw) \<Longrightarrow> a \<in> set (L i) \<Longrightarrow> slot_ok tw w us i a"
    "tw_nevent tw = of_nat (\<Sum>i < unat (tw_cap tw). length (L i))"
  using assms unfolding wheel_inv_def by blast+

lemma wheel_invI:
  assumes "tev_inv (we_mod w) fr us" "wheel_shape tw"
    "\<And>i. i < unat (tw_cap tw) \<Longrightarrow> tailq_rep (tw_table tw) i (L i)"
    "\<And>i j. i < unat (tw_cap tw) \<Longrightarrow> j < unat (tw_cap tw) \<Longrightarrow> i \<noteq> j \<Longrightarrow> set (L i) \<inter> set (L j) = {}"
    "\<And>i a. i < unat (tw_cap tw) \<Longrightarrow> a \<in> set (L i) \<Longrightarrow> slot_ok tw w us i a"
    "tw_nevent tw = of_nat (\<Sum>i < unat (tw_cap tw). length (L i))"
  shows "wheel_inv tw w L fr us"
  using assms unfolding wheel_inv_def by blast


section \<open>Inserting and removing one event\<close>

lemma we_upd_simps [simp]:
  "we_objs (we_incr x w) = we_objs w" "we_objs (we_decr x w) = we_objs w"
  "we_objs (we_store a t w) = (we_objs w)(a \<mapsto> t)"
  "we_fired (we_incr x w) = we_fired w" "we_fired (we_decr x w) = we_fired w" "we_fired (we_store a t w) = we_fired w"
  "we_clock (we_incr x w) = we_clock w" "we_clock (we_decr x w) = we_clock w" "we_clock (we_store a t w) = we_clock w"
  by (simp_all add: we_incr_def we_decr_def we_store_def we_world_upd_def)

lemma tev_inv_upd [simp]:
  "tev_inv (we_mod (we_incr x w)) fr us = tev_inv (we_mod w) fr us"
  "tev_inv (we_mod (we_decr x w)) fr us = tev_inv (we_mod w) fr us"
  by (simp_all add: we_incr_def we_decr_def we_world_upd_def tev_inv_def pooled_inv_def tv_ok_def tv_objs_def)

lemma tev_inv_store:
  "tev_inv (we_mod w) fr us \<Longrightarrow> a \<in> us \<Longrightarrow> \<not> te_free t \<Longrightarrow> tev_inv (we_mod (we_store a t w)) fr us"
  by (auto simp: we_store_def we_world_upd_def tev_inv_def pooled_inv_def tv_ok_def tv_objs_def)

lemma tev_inv_live:
  assumes "tev_inv (we_mod w) fr us" "a \<in> us"
  shows "\<exists>e. we_objs w a = Some e \<and> \<not> te_free e"
  using assms by (auto simp: tev_inv_def pooled_inv_def tv_objs_def)

text \<open>The parts of a wheel that turning it does not change, and the slot numbers.\<close>

definition wheel_same :: "timing_wheel \<Rightarrow> timing_wheel \<Rightarrow> bool" where
  "wheel_same tw tw' \<longleftrightarrow> tw_tick tw' = tw_tick tw \<and> tw_cap tw' = tw_cap tw \<and> tw_max_ntick tw' = tw_max_ntick tw \<and>
     tw_tick_ns tw' = tw_tick_ns tw \<and> tw_active tw' = tw_active tw \<and> tw_due tw' = tw_due tw"

lemma wheel_same_refl [simp]: "wheel_same tw tw"
  by (simp add: wheel_same_def)

lemma wheel_same_trans: "wheel_same a b \<Longrightarrow> wheel_same b c \<Longrightarrow> wheel_same a c"
  by (simp add: wheel_same_def)

lemma sum_slot:
  fixes L :: "nat \<Rightarrow> 'a list"
  assumes "i < n"
  shows "(\<Sum>j < n. length ((L(i := xs)) j)) + length (L i) = (\<Sum>j < n. length (L j)) + length xs"
proof -
  have "(\<Sum>j < n. length (M j)) = length (M i) + (\<Sum>j \<in> {..<n} - {i}. length (M j))" for M :: "nat \<Rightarrow> 'a list"
    using assms by (intro sum.remove) auto
  moreover have "(\<Sum>j \<in> {..<n} - {i}. length ((L(i := xs)) j)) = (\<Sum>j \<in> {..<n} - {i}. length (L j))"
    by (intro sum.cong) auto
  ultimately show ?thesis by (simp add: ac_simps)
qed

lemma of_nat_pred: "m + 1 = n \<Longrightarrow> (of_nat n :: u64) - 1 = of_nat m"
  by auto

lemma timing_wheel_insert_raw_ok:
  assumes inv: "wheel_inv tw w L fr us" and a: "a \<in> us" and i: "i < unat (tw_cap tw)"
    and new: "\<And>j. j < unat (tw_cap tw) \<Longrightarrow> a \<notin> set (L j)" and ok: "slot_ok tw w us i a"
  obtains tw' w' where "timing_wheel_insert_raw a (tw, w) = Some (tw', w')"
    "wheel_inv tw' w' (L(i := L i @ [a])) fr us" "wheel_same tw tw'" "tw_curr tw' = tw_curr tw"
    "we_objs w' = we_objs w" "we_fired w' = we_fired w" "we_clock w' = we_clock w"
proof -
  note wis = wheel_invD [OF inv]
  obtain e where e: "we_objs w a = Some e" "unat (te_offset e) = i" using ok by (auto simp: slot_ok_def)
  let ?tw = "tw\<lparr>tw_table := TAILQ_INSERT_TAIL i a (tw_table tw), tw_nevent := tw_nevent tw + 1\<rparr>"
  let ?w = "we_incr M_timing_wheel_event (we_incr M_timing_wheel_insert w)" and ?L = "L(i := L i @ [a])"
  have "timing_wheel_insert_raw a (tw, w) = Some (?tw, ?w)"
    using e i by (simp add: timing_wheel_insert_raw_def word_less_nat_alt)
  moreover have "wheel_inv ?tw ?w ?L fr us"
  proof (rule wheel_invI)
    fix j assume j: "j < unat (tw_cap ?tw)"
    then have j': "j < unat (tw_cap tw)" by simp
    show "tailq_rep (tw_table ?tw) j (?L j)"
      using TAILQ_INSERT_TAIL_rep [OF wis(3) [OF i] new [OF i]]
        TAILQ_INSERT_TAIL_frame [OF wis(3) [OF i] wis(3) [OF j'] _ wis(4) [OF i j'] new [OF j']] by auto
    show "slot_ok ?tw ?w us j x" if "x \<in> set (?L j)" for x
    proof -
      have "slot_ok tw w us j x" using that wis(5) [OF j'] ok by (auto split: if_splits)
      then show ?thesis by (simp add: slot_ok_def delay_ticks_def)
    qed
    show "set (?L j) \<inter> set (?L k) = {}" if "k < unat (tw_cap ?tw)" "j \<noteq> k" for k
      using wis(4) [OF j', of k] new [OF j'] new [of k] that by auto
  next
    show "tw_nevent ?tw = of_nat (\<Sum>j < unat (tw_cap ?tw). length (?L j))"
      using sum_slot [OF i, of L "L i @ [a]"] wis(6) by (simp del: fun_upd_apply)
  qed (use wis(1,2) in \<open>simp_all add: wheel_shape_def\<close>)
  ultimately show ?thesis using that [of ?tw ?w] by (simp add: wheel_same_def)
qed

lemma timing_wheel_remove_raw_ok:
  assumes inv: "wheel_inv tw w L fr us" and i: "i < unat (tw_cap tw)" and L: "L i = xs @ a # ys"
  obtains tw' w' where "timing_wheel_remove_raw a (tw, w) = Some (tw', w')"
    "wheel_inv tw' w' (L(i := xs @ ys)) fr us" "wheel_same tw tw'" "tw_curr tw' = tw_curr tw"
    "we_objs w' = we_objs w" "we_fired w' = we_fired w" "we_clock w' = we_clock w"
    "\<forall>j < unat (tw_cap tw). a \<notin> set ((L(i := xs @ ys)) j)"
proof -
  note wis = wheel_invD [OF inv]
  have rep: "tailq_rep (tw_table tw) i (xs @ a # ys)" using wis(3) [OF i] L by simp
  obtain e where e: "we_objs w a = Some e" "unat (te_offset e) = i"
    using wis(5) [OF i, of a] L by (auto simp: slot_ok_def)
  let ?tw = "tw\<lparr>tw_table := TAILQ_REMOVE i a (tw_table tw), tw_nevent := tw_nevent tw - 1\<rparr>"
  let ?w = "we_decr M_timing_wheel_event (we_incr M_timing_wheel_remove w)" and ?L = "L(i := xs @ ys)"
  have "timing_wheel_remove_raw a (tw, w) = Some (?tw, ?w)"
    using e i by (simp add: timing_wheel_remove_raw_def word_less_nat_alt)
  moreover have "wheel_inv ?tw ?w ?L fr us"
  proof (rule wheel_invI)
    have sub: "set (?L j) \<subseteq> set (L j)" for j using L by auto
    fix j assume j: "j < unat (tw_cap ?tw)"
    then have j': "j < unat (tw_cap tw)" by simp
    show "tailq_rep (tw_table ?tw) j (?L j)"
      using TAILQ_REMOVE_rep [OF rep] TAILQ_REMOVE_frame [OF rep wis(3) [OF j']] wis(4) [OF i j'] L by auto
    show "slot_ok ?tw ?w us j x" if "x \<in> set (?L j)" for x
    proof -
      have "slot_ok tw w us j x" using that wis(5) [OF j'] sub by blast
      then show ?thesis by (simp add: slot_ok_def delay_ticks_def)
    qed
    show "set (?L j) \<inter> set (?L k) = {}" if "k < unat (tw_cap ?tw)" "j \<noteq> k" for k
      using wis(4) [OF j', of k] that sub [of j] sub [of k] by auto
  next
    have "(\<Sum>j < unat (tw_cap tw). length (?L j)) + 1 = (\<Sum>j < unat (tw_cap tw). length (L j))"
      using sum_slot [OF i, of L "xs @ ys"] L by (simp del: fun_upd_apply)
    then have "tw_nevent tw - 1 = of_nat (\<Sum>j < unat (tw_cap tw). length (?L j))"
      unfolding wis(6) by (rule of_nat_pred)
    then show "tw_nevent ?tw = of_nat (\<Sum>j < unat (tw_cap ?tw). length (?L j))" by (simp del: fun_upd_apply)
  qed (use wis(1,2) in \<open>simp_all add: wheel_shape_def\<close>)
  moreover have "a \<notin> set (?L j)" if j: "j < unat (tw_cap tw)" for j
  proof (cases "j = i")
    case True
    then show ?thesis using rep by (simp add: tailq_rep_def stailq_rep_def slist_rep_def)
  next
    case False
    then show ?thesis using wis(4) [OF i j] L by auto
  qed
  ultimately show ?thesis using that [of ?tw ?w] by (simp add: wheel_same_def)
qed

text \<open>Changes that the slots do not see.\<close>

lemma slot_ok_cong:
  assumes "slot_ok tw w us i a" "tw_tick_ns tw' = tw_tick_ns tw" "tw_cap tw' = tw_cap tw" "we_objs w' a = we_objs w a" "a \<in> us'"
  shows "slot_ok tw' w' us' i a"
  using assms by (simp add: slot_ok_def delay_ticks_def)

lemma wheel_inv_cong:
  assumes inv: "wheel_inv tw w L fr us" and tw: "tw_tick_ns tw' = tw_tick_ns tw" "tw_cap tw' = tw_cap tw"
      "unat (tw_curr tw') < unat (tw_cap tw')" "tw_table tw' = tw_table tw" "tw_nevent tw' = tw_nevent tw"
    and m: "tev_inv (we_mod w') fr' us'"
    and a: "\<And>i a. i < unat (tw_cap tw) \<Longrightarrow> a \<in> set (L i) \<Longrightarrow> a \<in> us' \<and> we_objs w' a = we_objs w a"
  shows "wheel_inv tw' w' L fr' us'"
proof (rule wheel_invI)
  note wis = wheel_invD [OF inv]
  fix i assume "i < unat (tw_cap tw')"
  then have i: "i < unat (tw_cap tw)" using tw by simp
  show "tailq_rep (tw_table tw') i (L i)" using wis(3) [OF i] tw by simp
  show "slot_ok tw' w' us' i x" if "x \<in> set (L i)" for x
    using slot_ok_cong [OF wis(5) [OF i that]] tw a [OF i that] by simp
  show "set (L i) \<inter> set (L j) = {}" if "j < unat (tw_cap tw')" "i \<noteq> j" for j
    using wis(4) [OF i, of j] that tw by simp
next
  show "wheel_shape tw'" using wheel_invD(2) [OF inv] tw by (simp add: wheel_shape_def)
  show "tw_nevent tw' = of_nat (\<Sum>i < unat (tw_cap tw'). length (L i))"
    using wheel_invD(6) [OF inv] tw by simp
qed (fact m)

lemma wheel_inv_env: "we_mod w' = we_mod w \<Longrightarrow> wheel_inv tw w' L fr us = wheel_inv tw w L fr us"
  by (simp add: wheel_inv_def slot_ok_def)

lemma wheel_inv_own:
  assumes "wheel_inv tw w L fr us" "i < unat (tw_cap tw)" "a \<in> set (L i)"
  shows "a \<in> us"
  using wheel_invD(5) [OF assms] by (simp add: slot_ok_def)

lemma wheel_curr_lt: "wheel_inv tw w L fr us \<Longrightarrow> unat (tw_curr tw) < unat (tw_cap tw)"
  using wheel_invD(2) [of tw w L fr us] by (simp add: wheel_shape_def)

lemma wheel_store_ok:
  assumes inv: "wheel_inv tw w L fr us" and a: "a \<in> us" "\<not> te_free t"
    and out: "\<And>j. j < unat (tw_cap tw) \<Longrightarrow> a \<notin> set (L j)"
  shows "wheel_inv tw (we_store a t w) L fr us"
proof (rule wheel_inv_cong [OF inv])
  show "tev_inv (we_mod (we_store a t w)) fr us" using tev_inv_store [OF wheel_invD(1) [OF inv] a] .
  show "x \<in> us \<and> we_objs (we_store a t w) x = we_objs w x" if "i < unat (tw_cap tw)" "x \<in> set (L i)" for i x
    using that out wheel_inv_own [OF inv] by auto
qed (use wheel_curr_lt [OF inv] in simp_all)

lemma wheel_return_ok:
  assumes inv: "wheel_inv tw w L fr us" and a: "a \<in> us"
    and out: "\<And>j. j < unat (tw_cap tw) \<Longrightarrow> a \<notin> set (L j)"
  obtains w' where "we_return (Ptr a) w = Some (Null, w')" "wheel_inv tw w' L (a # fr) (us - {a})"
    "we_fired w' = we_fired w" "we_clock w' = we_clock w" "\<forall>b. b \<noteq> a \<longrightarrow> we_objs w' b = we_objs w b"
proof -
  from wheel_invD(1) [OF inv] a obtain m' x where
    m: "timeout_event_return (Ptr a) (we_mod w) = Some (Null, m')" "tev_inv m' (a # fr) (us - {a})"
      "tv_objs (pm_world m') = (tv_objs (pm_world (we_mod w)))(a \<mapsto> x\<lparr>te_free := True\<rparr>)"
    by (rule timeout_event_return_ok)
  let ?w = "w\<lparr>we_mod := m'\<rparr>"
  have objs: "we_objs ?w b = we_objs w b" if "b \<noteq> a" for b using m(3) that by (simp add: tv_objs_def)
  have "wheel_inv tw ?w L (a # fr) (us - {a})"
  proof (rule wheel_inv_cong [OF inv])
    show "x \<in> us - {a} \<and> we_objs ?w x = we_objs w x" if "i < unat (tw_cap tw)" "x \<in> set (L i)" for i x
    proof -
      have "x \<noteq> a" using that out by auto
      then show ?thesis using wheel_inv_own [OF inv that] objs by simp
    qed
  qed (use m(2) wheel_curr_lt [OF inv] in simp_all)
  then show ?thesis using that [of ?w] m(1) objs by (simp add: we_return_def)
qed

lemma slot_index:
  assumes "wheel_shape tw" "unat k < unat (tw_cap tw)"
  shows "\<exists>s. c_umod (tw_curr tw + k) (tw_cap tw) = Some s \<and> unat s = (unat (tw_curr tw) + unat k) mod unat (tw_cap tw)"
proof -
  have "unat (tw_curr tw + k) = unat (tw_curr tw) + unat k"
    using assms by (intro unat_add_small) (simp add: wheel_shape_def)
  moreover have "tw_cap tw \<noteq> 0" using assms(2) by auto
  ultimately show ?thesis by (simp add: c_umod_def unat_mod)
qed

lemma slot_moves:
  assumes "c < (n :: nat)" "0 < k" "k < n"
  shows "(c + k) mod n \<noteq> c"
  using assms by (cases "c + k < n") (auto simp: mod_if)


section \<open>Processing one tick\<close>

text \<open>What one event does to the slots and to the record of calls.\<close>

definition fire :: "nat \<Rightarrow> tevent \<Rightarrow> (nat \<times> nat \<times> nat) list" where
  "fire a e = (case te_cb e of Null \<Rightarrow> [] | Ptr cb \<Rightarrow> [(a, cb, te_data e)])"

definition next_slot :: "bool \<Rightarrow> timing_wheel \<Rightarrow> tevent \<Rightarrow> nat option" where
  "next_slot endmode tw e =
     (if \<not> endmode \<and> te_recur e then Some ((unat (tw_curr tw) + delay_ticks tw e) mod unat (tw_cap tw)) else None)"

definition place :: "nat option \<Rightarrow> 'a \<Rightarrow> (nat \<Rightarrow> 'a list) \<Rightarrow> nat \<Rightarrow> 'a list" where
  "place dest a L = (case dest of None \<Rightarrow> L | Some j \<Rightarrow> L(j := L j @ [a]))"

lemma next_slot_same: "wheel_same tw tw' \<Longrightarrow> tw_curr tw' = tw_curr tw \<Longrightarrow> next_slot m tw' e = next_slot m tw e"
  by (simp add: next_slot_def wheel_same_def delay_ticks_def)

lemma next_slot_neq:
  assumes inv: "wheel_inv tw w L fr us" and a: "i < unat (tw_cap tw)" "a \<in> set (L i)"
    and e: "we_objs w a = Some e" "next_slot endmode tw e = Some j"
  shows "j \<noteq> unat (tw_curr tw)" "j < unat (tw_cap tw)" "delay_ticks tw e < unat (tw_cap tw)"
proof -
  have "te_recur e" and j: "j = (unat (tw_curr tw) + delay_ticks tw e) mod unat (tw_cap tw)"
    using e(2) by (auto simp: next_slot_def split: if_splits)
  then have d: "0 < delay_ticks tw e" "delay_ticks tw e < unat (tw_cap tw)"
    using wheel_invD(5) [OF inv a] e(1) by (auto simp: slot_ok_def)
  then show "j \<noteq> unat (tw_curr tw)" "j < unat (tw_cap tw)" "delay_ticks tw e < unat (tw_cap tw)"
    using slot_moves wheel_curr_lt [OF inv] j by simp_all
qed

text \<open>The event is taken out of its slot and its callback called; what is left depends on \<open>recur\<close>.\<close>

definition process_rest :: "bool \<Rightarrow> nat \<Rightarrow> tevent \<Rightarrow> timing_wheel \<times> wenv \<Rightarrow> (timing_wheel \<times> wenv) option" where
  "process_rest endmode a e = (\<lambda>(tw, w).
     if \<not> endmode \<and> te_recur e then do {
       (off, c) \<leftarrow> wheel_offset tw (te_delay e) (we_clock w);
       o' \<leftarrow> c_umod (tw_curr tw + off) (tw_cap tw);
       timing_wheel_insert_raw a (tw, we_store a (e\<lparr>te_offset := o'\<rparr>) (w\<lparr>we_clock := c\<rparr>))
     } else do { (_, w') \<leftarrow> we_return (Ptr a) w; Some (tw, w') })"

lemma process_event_begin:
  assumes inv: "wheel_inv tw w L fr us" and c: "c = unat (tw_curr tw)" and L: "L c = a # xs"
    and e: "we_objs w a = Some e"
  obtains tw1 w2 where "process_event endmode a (tw, w) = process_rest endmode a e (tw1, w2)"
    "wheel_inv tw1 w2 (L(c := xs)) fr us" "wheel_same tw tw1" "tw_curr tw1 = tw_curr tw" "we_objs w2 = we_objs w"
    "we_fired w2 = we_fired w @ fire a e" "we_clock w2 = we_clock w"
    "\<forall>j < unat (tw_cap tw1). a \<notin> set ((L(c := xs)) j)"
proof -
  have cc: "c < unat (tw_cap tw)" using wheel_curr_lt [OF inv] c by simp
  let ?tw0 = "tw\<lparr>tw_nprocess := tw_nprocess tw + 1\<rparr>" and ?w0 = "we_incr M_timing_wheel_process w"
  have "wheel_inv ?tw0 ?w0 L fr us"
    by (rule wheel_inv_cong [OF inv]) (use wheel_invD(1) [OF inv] wheel_curr_lt [OF inv] wheel_inv_own [OF inv] in auto)
  moreover have "c < unat (tw_cap ?tw0)" "L c = [] @ a # xs" using cc L by simp_all
  ultimately obtain tw1 w1 where r: "timing_wheel_remove_raw a (?tw0, ?w0) = Some (tw1, w1)"
      "wheel_inv tw1 w1 (L(c := [] @ xs)) fr us" "wheel_same ?tw0 tw1" "tw_curr tw1 = tw_curr ?tw0"
      "we_objs w1 = we_objs ?w0" "we_fired w1 = we_fired ?w0" "we_clock w1 = we_clock ?w0"
      "\<forall>j < unat (tw_cap ?tw0). a \<notin> set ((L(c := [] @ xs)) j)"
    by (rule timing_wheel_remove_raw_ok)
  have same: "wheel_same tw tw1" "tw_curr tw1 = tw_curr tw" using r(3,4) by (simp_all add: wheel_same_def)
  define w2 where "w2 = (case te_cb e of Null \<Rightarrow> w1 | Ptr cb \<Rightarrow> w1\<lparr>we_fired := we_fired w1 @ [(a, cb, te_data e)]\<rparr>)"
  have w2: "we_mod w2 = we_mod w1" "we_fired w2 = we_fired w @ fire a e" "we_clock w2 = we_clock w"
    using r(6,7) by (simp_all add: w2_def fire_def split: ptr.splits)
  have "wheel_inv tw1 w2 (L(c := xs)) fr us" using r(2) wheel_inv_env [OF w2(1)] by simp
  moreover have "process_event endmode a (tw, w) = process_rest endmode a e (tw1, w2)"
    using r(1,5) e by (simp add: process_event_def process_rest_def w2_def Let_def)
  ultimately show ?thesis using that [of tw1 w2] same w2 r(5,8) by (simp add: wheel_same_def)
qed

lemma process_event_ok:
  assumes inv: "wheel_inv tw w L fr us" and c: "c = unat (tw_curr tw)" and L: "L c = a # xs"
    and e: "we_objs w a = Some e"
  obtains tw' w' fr' where "process_event endmode a (tw, w) = Some (tw', w')"
    "wheel_inv tw' w' (place (next_slot endmode tw e) a (L(c := xs))) fr' (if next_slot endmode tw e = None then us - {a} else us)"
    "wheel_same tw tw'" "tw_curr tw' = tw_curr tw" "we_fired w' = we_fired w @ fire a e" "we_clock w' = we_clock w"
    "\<forall>b. b \<noteq> a \<longrightarrow> we_objs w' b = we_objs w b"
proof -
  have cc: "c < unat (tw_cap tw)" and a_in: "a \<in> set (L c)" using wheel_curr_lt [OF inv] c L by simp_all
  note au = wheel_inv_own [OF inv cc a_in]
  let ?L = "L(c := xs)"
  obtain tw1 w2 where pe: "process_event endmode a (tw, w) = process_rest endmode a e (tw1, w2)"
    and inv2: "wheel_inv tw1 w2 ?L fr us" and same: "wheel_same tw tw1" "tw_curr tw1 = tw_curr tw"
    and w2: "we_objs w2 = we_objs w" "we_fired w2 = we_fired w @ fire a e" "we_clock w2 = we_clock w"
    and out: "\<forall>j < unat (tw_cap tw1). a \<notin> set (?L j)"
    using inv c L e by (rule process_event_begin)
  show ?thesis
  proof (cases "next_slot endmode tw e")
    case None
    obtain w3 where w3: "we_return (Ptr a) w2 = Some (Null, w3)" "wheel_inv tw1 w3 ?L (a # fr) (us - {a})"
        "we_fired w3 = we_fired w2" "we_clock w3 = we_clock w2" "\<forall>b. b \<noteq> a \<longrightarrow> we_objs w3 b = we_objs w2 b"
      using wheel_return_ok [OF inv2 au] out by blast
    then show ?thesis
      using that [of tw1 w3 "a # fr"] None pe same w2
      by (simp add: place_def next_slot_def process_rest_def split: if_splits)
  next
    case (Some j)
    have ns: "j < unat (tw_cap tw)" "delay_ticks tw e < unat (tw_cap tw)"
      using next_slot_neq [OF inv cc a_in e Some] by simp_all
    have recur: "\<not> endmode \<and> te_recur e" and j: "j = (unat (tw_curr tw1) + delay_ticks tw1 e) mod unat (tw_cap tw1)"
      using Some same by (auto simp: next_slot_def wheel_same_def delay_ticks_def split: if_splits)
    have ok: "is_intvl (te_delay e)" "\<not> te_free e"
      using wheel_invD(5) [OF inv cc a_in] e tev_inv_live [OF wheel_invD(1) [OF inv] au] by (auto simp: slot_ok_def)
    let ?k = "offset_ns (tw_tick_ns tw1) (word_of_int (tp (te_delay e)))"
    have k: "unat ?k = delay_ticks tw1 e" "unat ?k < unat (tw_cap tw1)"
      using ns(2) same by (simp_all add: delay_ticks_def wheel_same_def)
    obtain s where s: "c_umod (tw_curr tw1 + ?k) (tw_cap tw1) = Some s" "unat s = j"
      using slot_index [OF wheel_invD(2) [OF inv2] k(2)] j k(1) by auto
    let ?w3 = "we_store a (e\<lparr>te_offset := s\<rparr>) w2"
    have inv3: "wheel_inv tw1 ?w3 ?L fr us" using inv2 au ok(2) out by (intro wheel_store_ok) auto
    have "slot_ok tw1 ?w3 us j a"
      using wheel_invD(5) [OF inv cc a_in] e s(2) same by (auto simp: slot_ok_def delay_ticks_def wheel_same_def)
    moreover have "j < unat (tw_cap tw1)" using ns(1) same by (simp add: wheel_same_def)
    ultimately obtain tw4 w4 where r4: "timing_wheel_insert_raw a (tw1, ?w3) = Some (tw4, w4)"
        "wheel_inv tw4 w4 (?L(j := ?L j @ [a])) fr us" "wheel_same tw1 tw4" "tw_curr tw4 = tw_curr tw1"
        "we_objs w4 = we_objs ?w3" "we_fired w4 = we_fired ?w3" "we_clock w4 = we_clock ?w3"
      using timing_wheel_insert_raw_ok [OF inv3 au] out by metis
    have "process_event endmode a (tw, w) = Some (tw4, w4)"
      using pe recur r4(1) s(1) wheel_offset_intvl [OF ok(1)] wheel_invD(2) [OF inv2]
      by (simp add: process_rest_def wheel_shape_def)
    then show ?thesis using that [of tw4 w4 fr] Some r4 same w2 by (simp add: place_def wheel_same_def)
  qed
qed

text \<open>The whole slot: the list of its events, each rescheduled or returned, in order.\<close>

fun reschedule :: "(nat \<Rightarrow> nat option) \<Rightarrow> nat list \<Rightarrow> (nat \<Rightarrow> nat list) \<Rightarrow> nat \<Rightarrow> nat list" where
  "reschedule f [] L = L"
| "reschedule f (a # xs) L = reschedule f xs (place (f a) a L)"

definition fires :: "wenv \<Rightarrow> nat list \<Rightarrow> (nat \<times> nat \<times> nat) list" where
  "fires w xs = concat (map (\<lambda>a. fire a (the (we_objs w a))) xs)"

definition dest :: "bool \<Rightarrow> timing_wheel \<Rightarrow> wenv \<Rightarrow> nat \<Rightarrow> nat option" where
  "dest endmode tw w a = next_slot endmode tw (the (we_objs w a))"

lemma fires_cong: "(\<And>a. a \<in> set xs \<Longrightarrow> we_objs w' a = we_objs w a) \<Longrightarrow> fires w' xs = fires w xs"
  unfolding fires_def by (intro arg_cong [of _ _ concat] map_cong) auto

lemma reschedule_cong: "(\<And>a. a \<in> set xs \<Longrightarrow> f a = g a) \<Longrightarrow> reschedule f xs L = reschedule g xs L"
  by (induction xs arbitrary: L) auto

lemma place_other: "d \<noteq> Some c \<Longrightarrow> (place d a L)(c := xs) = place d a (L(c := xs))"
  by (auto simp: place_def fun_upd_twist split: option.splits)

lemma wheel_slot_distinct: "wheel_inv tw w L fr us \<Longrightarrow> i < unat (tw_cap tw) \<Longrightarrow> distinct (L i)"
  using wheel_invD(3) [of tw w L fr us i] by (simp add: tailq_rep_def stailq_rep_def slist_rep_def)

lemma process_loop_ok:
  assumes "wheel_inv tw w L fr us" "c = unat (tw_curr tw)" "L c = xs"
  shows "\<exists>tw' w' fr'. process_loop endmode (TAILQ_FIRST c (tw_table tw)) (tw, w) = Some (tw', w') \<and>
    wheel_inv tw' w' (reschedule (dest endmode tw w) xs (L(c := []))) fr' (us - {a \<in> set xs. dest endmode tw w a = None}) \<and>
    wheel_same tw tw' \<and> tw_curr tw' = tw_curr tw \<and> we_fired w' = we_fired w @ fires w xs \<and> we_clock w' = we_clock w \<and>
    (\<forall>b. b \<notin> set xs \<longrightarrow> we_objs w' b = we_objs w b)"
  using assms
proof (induction xs arbitrary: tw w L fr us)
  case Nil
  then have "TAILQ_FIRST c (tw_table tw) = Null" "L(c := []) = L"
    using TAILQ_FIRST_rep [OF wheel_invD(3) [OF Nil.prems(1), of c]] wheel_curr_lt [OF Nil.prems(1)] by auto
  then show ?case using Nil by (simp add: process_loop.simps fires_def) blast
next
  case (Cons a xs)
  note inv = Cons.prems(1)
  have cc: "c < unat (tw_cap tw)" using wheel_curr_lt [OF inv] Cons.prems(2) by simp
  have a_in: "a \<in> set (L c)" and d: "a \<notin> set xs"
    using wheel_slot_distinct [OF inv cc] Cons.prems(3) by simp_all
  obtain e where e: "we_objs w a = Some e" using wheel_invD(5) [OF inv cc a_in] by (auto simp: slot_ok_def)
  have nx: "dest endmode tw w a = next_slot endmode tw e" using e by (simp add: dest_def)
  obtain tw1 w1 fr1 where r: "process_event endmode a (tw, w) = Some (tw1, w1)"
      "wheel_inv tw1 w1 (place (next_slot endmode tw e) a (L(c := xs))) fr1 (if next_slot endmode tw e = None then us - {a} else us)"
      "wheel_same tw tw1" "tw_curr tw1 = tw_curr tw" "we_fired w1 = we_fired w @ fire a e" "we_clock w1 = we_clock w"
      "\<forall>b. b \<noteq> a \<longrightarrow> we_objs w1 b = we_objs w b"
    using inv Cons.prems(2,3) e by (rule process_event_ok)
  let ?L = "place (next_slot endmode tw e) a (L(c := xs))"
  have nc: "next_slot endmode tw e \<noteq> Some c" using next_slot_neq [OF inv cc a_in e] Cons.prems(2) by auto
  then have Lc: "?L c = xs" by (auto simp: place_def split: option.splits)
  have c1: "c = unat (tw_curr tw1)" "c < unat (tw_cap tw1)" using r(3,4) Cons.prems(2) cc by (simp_all add: wheel_same_def)
  have obj: "we_objs w1 b = we_objs w b" if "b \<in> set xs" for b using that d r(7) by metis
  have dst: "dest endmode tw1 w1 b = dest endmode tw w b" if "b \<in> set xs" for b
    using obj [OF that] next_slot_same [OF r(3,4)] by (simp add: dest_def)
  obtain tw2 w2 fr2 where i: "process_loop endmode (TAILQ_FIRST c (tw_table tw1)) (tw1, w1) = Some (tw2, w2)"
      "wheel_inv tw2 w2 (reschedule (dest endmode tw1 w1) xs (?L(c := []))) fr2
         ((if next_slot endmode tw e = None then us - {a} else us) - {a \<in> set xs. dest endmode tw1 w1 a = None})"
      "wheel_same tw1 tw2" "tw_curr tw2 = tw_curr tw1" "we_fired w2 = we_fired w1 @ fires w1 xs" "we_clock w2 = we_clock w1"
      "\<forall>b. b \<notin> set xs \<longrightarrow> we_objs w2 b = we_objs w1 b"
    using Cons.IH [OF r(2) c1(1) Lc] by blast
  have "TAILQ_FIRST c (tw_table tw) = Ptr a" "TAILQ_NEXT a (tw_table tw) = TAILQ_FIRST c (tw_table tw1)"
    using TAILQ_FIRST_rep [OF wheel_invD(3) [OF inv cc]] TAILQ_NEXT_rep [of "tw_table tw" c "[]" a xs]
      wheel_invD(3) [OF inv cc] TAILQ_FIRST_rep [OF wheel_invD(3) [OF r(2) c1(2)]] Cons.prems(3) Lc by simp_all
  then have pl: "process_loop endmode (TAILQ_FIRST c (tw_table tw)) (tw, w) = Some (tw2, w2)"
    using r(1) i(1) by (simp add: process_loop.simps [of endmode "Ptr a"])
  have "?L(c := []) = place (next_slot endmode tw e) a (L(c := []))"
    using place_other [OF nc, of a "L(c := xs)" "[]"] by simp
  then have L': "reschedule (dest endmode tw1 w1) xs (?L(c := [])) = reschedule (dest endmode tw w) (a # xs) (L(c := []))"
    using reschedule_cong [OF dst] nx by simp
  have us': "(if next_slot endmode tw e = None then us - {a} else us) - {a \<in> set xs. dest endmode tw1 w1 a = None} =
      us - {b \<in> set (a # xs). dest endmode tw w b = None}"
    using dst nx by auto
  have fd: "we_fired w2 = we_fired w @ fires w (a # xs)"
    using i(5) r(5) fires_cong [OF obj] e by (simp add: fires_def)
  have "\<forall>b. b \<notin> set (a # xs) \<longrightarrow> we_objs w2 b = we_objs w b" using i(7) r(7) by simp
  then show ?case
    using pl i(2) [unfolded L' us'] wheel_same_trans [OF r(3) i(3)] i(4,6) r(4,6) fd
    by (intro exI [of _ tw2] exI [of _ w2] exI [of _ fr2] conjI) (simp_all del: fun_upd_apply)
qed

lemma process_tick_ok:
  assumes inv: "wheel_inv tw w L fr us" and c: "c = unat (tw_curr tw)"
  obtains tw' w' fr' where "process_tick endmode (tw, w) = Some (tw', w')"
    "wheel_inv tw' w' (reschedule (dest endmode tw w) (L c) (L(c := []))) fr' (us - {a \<in> set (L c). dest endmode tw w a = None})"
    "wheel_same tw tw'" "tw_curr tw' = tw_curr tw" "we_fired w' = we_fired w @ fires w (L c)"
    "we_clock w' = we_clock w" "\<forall>b. b \<notin> set (L c) \<longrightarrow> we_objs w' b = we_objs w b"
proof -
  have "process_tick endmode (tw, w) = process_loop endmode (TAILQ_FIRST c (tw_table tw)) (tw, w)"
    using wheel_curr_lt [OF inv] c by (simp add: process_tick_def word_less_nat_alt)
  then show ?thesis using process_loop_ok [OF inv c refl, of endmode] that by auto
qed

text \<open>Processing a slot and moving on to the next one.\<close>

lemma advance_curr_ok:
  assumes inv: "wheel_inv tw w L fr us"
  obtains tw' w' where "advance_curr (tw, w) = Some (tw', w')" "wheel_inv tw' w' L fr us" "wheel_same tw tw'"
    "unat (tw_curr tw') = (unat (tw_curr tw) + 1) mod unat (tw_cap tw)" "we_fired w' = we_fired w"
    "we_clock w' = we_clock w" "we_objs w' = we_objs w"
proof -
  note curr = wheel_curr_lt [OF inv]
  have cap: "0 < unat (tw_cap tw)" using curr by linarith
  have "unat (tw_curr tw + 1) = unat (tw_curr tw) + 1"
    using curr wheel_invD(2) [OF inv] unat_add_small [of "tw_curr tw" 1] by (simp add: wheel_shape_def)
  then obtain s where s: "c_umod (tw_curr tw + 1) (tw_cap tw) = Some s"
      "unat s = (unat (tw_curr tw) + 1) mod unat (tw_cap tw)"
    using cap by (cases "tw_cap tw = 0") (simp_all add: c_umod_def unat_mod)
  let ?tw = "tw\<lparr>tw_curr := s, tw_ntick := tw_ntick tw + 1\<rparr>" and ?w = "we_incr M_timing_wheel_tick w"
  have "unat s < unat (tw_cap tw)" using s(2) cap by simp
  then have "wheel_inv ?tw ?w L fr us"
    by (intro wheel_inv_cong [OF inv]) (use wheel_invD(1) [OF inv] wheel_inv_own [OF inv] in auto)
  then show ?thesis using that [of ?tw ?w] s by (simp add: advance_curr_def wheel_same_def)
qed

lemma wheel_turn_ok:
  assumes inv: "wheel_inv tw w L fr us" and c: "c = unat (tw_curr tw)"
  obtains tw' w' fr' where "wheel_turn endmode (tw, w) = Some (tw', w')"
    "wheel_inv tw' w' (reschedule (dest endmode tw w) (L c) (L(c := []))) fr' (us - {a \<in> set (L c). dest endmode tw w a = None})"
    "wheel_same tw tw'" "unat (tw_curr tw') = (c + 1) mod unat (tw_cap tw)" "we_fired w' = we_fired w @ fires w (L c)"
    "we_clock w' = we_clock w" "\<forall>b. b \<notin> set (L c) \<longrightarrow> we_objs w' b = we_objs w b"
proof -
  from inv c obtain tw1 w1 fr1 where r: "process_tick endmode (tw, w) = Some (tw1, w1)"
    "wheel_inv tw1 w1 (reschedule (dest endmode tw w) (L c) (L(c := []))) fr1 (us - {a \<in> set (L c). dest endmode tw w a = None})"
    "wheel_same tw tw1" "tw_curr tw1 = tw_curr tw" "we_fired w1 = we_fired w @ fires w (L c)"
    "we_clock w1 = we_clock w" "\<forall>b. b \<notin> set (L c) \<longrightarrow> we_objs w1 b = we_objs w b"
    by (rule process_tick_ok)
  from r(2) obtain tw2 w2 where a: "advance_curr (tw1, w1) = Some (tw2, w2)"
    "wheel_inv tw2 w2 (reschedule (dest endmode tw w) (L c) (L(c := []))) fr1 (us - {a \<in> set (L c). dest endmode tw w a = None})"
    "wheel_same tw1 tw2" "unat (tw_curr tw2) = (unat (tw_curr tw1) + 1) mod unat (tw_cap tw1)" "we_fired w2 = we_fired w1"
    "we_clock w2 = we_clock w1" "we_objs w2 = we_objs w1"
    by (rule advance_curr_ok)
  have "wheel_turn endmode (tw, w) = Some (tw2, w2)" using r(1) a(1) by (simp add: wheel_turn_def)
  then show ?thesis
    using that [of tw2 w2 fr1] r a c wheel_same_trans [OF r(3) a(3)] by (simp add: wheel_same_def)
qed


section \<open>When an event fires\<close>

fun wheel_turns :: "nat \<Rightarrow> timing_wheel \<times> wenv \<Rightarrow> (timing_wheel \<times> wenv) option" where
  "wheel_turns 0 s = Some s"
| "wheel_turns (Suc n) s = wheel_turn False s \<bind> wheel_turns n"

text \<open>Event \<open>a\<close> is \<open>r\<close> slots ahead of the current one.\<close>

definition ahead :: "nat \<Rightarrow> nat \<Rightarrow> timing_wheel \<Rightarrow> (nat \<Rightarrow> nat list) \<Rightarrow> bool" where
  "ahead a r tw L \<longleftrightarrow> r < unat (tw_cap tw) \<and> a \<in> set (L ((unat (tw_curr tw) + r) mod unat (tw_cap tw)))"

lemma reschedule_keeps: "a \<in> set (L i) \<Longrightarrow> a \<in> set (reschedule f xs L i)"
  by (induction xs arbitrary: L) (auto simp: place_def split: option.splits)

lemma fires_addr: "(a, cb, x) \<in> set (fires w xs) \<Longrightarrow> a \<in> set xs"
  by (auto simp: fires_def fire_def split: ptr.splits)

lemma slot_next:
  assumes "c < (n :: nat)" "0 < r" "r < n"
  shows "((c + 1) mod n + (r - 1)) mod n = (c + r) mod n"
proof -
  have "((c + 1) mod n + (r - 1)) mod n = (c + 1 + (r - 1)) mod n" by (simp add: mod_add_left_eq)
  then show ?thesis using assms(2) by simp
qed

lemma turn_before:
  assumes inv: "wheel_inv tw w L fr us" and a: "ahead a r tw L" "0 < r"
  obtains tw' w' L' fr' us' where "wheel_turn False (tw, w) = Some (tw', w')" "wheel_inv tw' w' L' fr' us'"
    "ahead a (r - 1) tw' L'" "wheel_same tw tw'" "we_objs w' a = we_objs w a"
    "we_fired w' = we_fired w @ fires w (L (unat (tw_curr tw)))" "a \<notin> set (L (unat (tw_curr tw)))"
proof -
  let ?c = "unat (tw_curr tw)" and ?n = "unat (tw_cap tw)"
  note cc = wheel_curr_lt [OF inv]
  have r: "r < ?n" "a \<in> set (L ((?c + r) mod ?n))" using a(1) by (simp_all add: ahead_def)
  have neq: "(?c + r) mod ?n \<noteq> ?c" using slot_moves [OF cc a(2) r(1)] .
  have lt: "(?c + r) mod ?n < ?n" using cc by simp
  have out: "a \<notin> set (L ?c)" using wheel_invD(4) [OF inv lt cc neq] r(2) by auto
  from inv refl obtain tw' w' fr' where t: "wheel_turn False (tw, w) = Some (tw', w')"
      "wheel_inv tw' w' (reschedule (dest False tw w) (L ?c) (L(?c := []))) fr' (us - {a \<in> set (L ?c). dest False tw w a = None})"
      "wheel_same tw tw'" "unat (tw_curr tw') = (?c + 1) mod ?n" "we_fired w' = we_fired w @ fires w (L ?c)"
      "\<forall>b. b \<notin> set (L ?c) \<longrightarrow> we_objs w' b = we_objs w b"
    by (rule wheel_turn_ok)
  have "ahead a (r - 1) tw' (reschedule (dest False tw w) (L ?c) (L(?c := [])))"
    using t(3,4) r slot_next [OF cc a(2) r(1)] neq by (auto simp: ahead_def wheel_same_def intro: reschedule_keeps)
  then show ?thesis using that t out by blast
qed

lemma turns_before:
  assumes "wheel_inv tw w L fr us" "ahead a r tw L"
  shows "\<exists>tw' w' L' fr' us' fs. wheel_turns r (tw, w) = Some (tw', w') \<and> wheel_inv tw' w' L' fr' us' \<and>
    ahead a 0 tw' L' \<and> we_objs w' a = we_objs w a \<and> we_fired w' = we_fired w @ fs \<and> a \<notin> fst ` set fs"
  using assms
proof (induction r arbitrary: tw w L fr us)
  case 0
  then show ?case by auto
next
  case (Suc r)
  from Suc.prems obtain tw1 w1 L1 fr1 us1 where t: "wheel_turn False (tw, w) = Some (tw1, w1)"
      "wheel_inv tw1 w1 L1 fr1 us1" "ahead a (Suc r - 1) tw1 L1" "wheel_same tw tw1" "we_objs w1 a = we_objs w a"
      "we_fired w1 = we_fired w @ fires w (L (unat (tw_curr tw)))" "a \<notin> set (L (unat (tw_curr tw)))"
    by (rule turn_before) simp
  have "ahead a r tw1 L1" using t(3) by simp
  from Suc.IH [OF t(2) this] obtain tw' w' L' fr' us' fs where i: "wheel_turns r (tw1, w1) = Some (tw', w')"
      "wheel_inv tw' w' L' fr' us'" "ahead a 0 tw' L'" "we_objs w' a = we_objs w1 a" "we_fired w' = we_fired w1 @ fs"
      "a \<notin> fst ` set fs"
    by blast
  let ?fs = "fires w (L (unat (tw_curr tw))) @ fs"
  have "a \<notin> fst ` set ?fs" using i(6) t(7) fires_addr [of a _ _ w "L (unat (tw_curr tw))"] by auto
  then show ?case
    using i(1-5) t(1,5,6) by (intro exI [of _ tw'] exI [of _ w'] exI [of _ L'] exI [of _ fr'] exI [of _ us'] exI [of _ ?fs]) simp
qed

text \<open>In the slot that is processed, the callback of each event is called once.\<close>

lemma fires_once:
  assumes "distinct xs" "a \<in> set xs" "we_objs w a = Some e"
  shows "filter (\<lambda>f. fst f = a) (fires w xs) = fire a e"
proof -
  have none: "filter (\<lambda>f. fst f = a) (fires w ys) = []" if "a \<notin> set ys" for ys
    using that fires_addr [of a _ _ w ys] by (auto simp: filter_empty_conv)
  obtain ys zs where xs: "xs = ys @ a # zs" using assms(2) by (auto simp: in_set_conv_decomp)
  then have "a \<notin> set ys" "a \<notin> set zs" using assms(1) by auto
  moreover have "fires w xs = fires w ys @ fire a e @ fires w zs" using xs assms(3) by (simp add: fires_def)
  moreover have "filter (\<lambda>f. fst f = a) (fire a e) = fire a e" by (simp add: fire_def split: ptr.splits)
  ultimately show ?thesis using none by simp
qed

lemma turn_at:
  assumes inv: "wheel_inv tw w L fr us" and a: "ahead a 0 tw L" and e: "we_objs w a = Some e"
  shows "\<exists>tw' w' fs. wheel_turn False (tw, w) = Some (tw', w') \<and> we_fired w' = we_fired w @ fs \<and>
    filter (\<lambda>f. fst f = a) fs = fire a e"
proof -
  let ?c = "unat (tw_curr tw)"
  have "a \<in> set (L ?c)" using a wheel_curr_lt [OF inv] by (simp add: ahead_def)
  then have "filter (\<lambda>f. fst f = a) (fires w (L ?c)) = fire a e"
    using fires_once wheel_slot_distinct [OF inv wheel_curr_lt [OF inv]] e by blast
  moreover from inv refl obtain tw' w' where "wheel_turn False (tw, w) = Some (tw', w')"
      "we_fired w' = we_fired w @ fires w (L ?c)"
    by (rule wheel_turn_ok)
  ultimately show ?thesis by blast
qed

section \<open>Scheduling an event\<close>

text \<open>The steps of \<^verbatim>\<open>timing_wheel_insert\<close> after the event has been borrowed and filled in.\<close>

lemma timing_wheel_insert_borrowed:
  assumes args: "cb \<noteq> Null" "is_intvl delay" and tick: "tw_tick_ns tw \<noteq> 0"
    and k: "k = offset_ns (tw_tick_ns tw) (word_of_int (tp delay))"
    and b: "timeout_event_borrow (we_mod w) = Some (Ptr a, m)" "we_objs (w\<lparr>we_mod := m\<rparr>) a = Some t"
    and t1: "t1 = t\<lparr>te_cb := cb, te_data := arg, te_recur := recur, te_delay := delay\<rparr>"
    and w2: "w2 = we_store a t1 (w\<lparr>we_mod := m\<rparr>)"
  shows "timing_wheel_insert delay recur cb arg (tw, w) =
    (if tw_cap tw \<le> k \<or> recur \<and> k = 0 then do { (_, w4) \<leftarrow> we_return (Ptr a) w2; Some (Null, tw, w4) }
     else do {
       o' \<leftarrow> c_umod (tw_curr tw + k) (tw_cap tw);
       (tw', w4) \<leftarrow> timing_wheel_insert_raw a (tw, we_store a (t1\<lparr>te_offset := o'\<rparr>) w2);
       Some (Ptr a, tw', w4)
     })"
proof -
  have c: "(we_store a t' (w\<lparr>we_mod := m\<rparr>))\<lparr>we_clock := we_clock w\<rparr> = we_store a t' (w\<lparr>we_mod := m\<rparr>)" for t'
    by (simp add: we_store_def we_world_upd_def)
  have "wheel_offset tw delay (we_clock w) = Some (k, we_clock w)"
    using wheel_offset_intvl [OF args(2) tick] k by simp
  then show ?thesis
    using args b by (simp add: timing_wheel_insert_def Let_def t1 w2 c)
qed

lemma timing_wheel_insert_cases:
  assumes inv: "wheel_inv tw w L fr us" and args: "cb \<noteq> Null" "is_intvl delay"
    and k: "k = offset_ns (tw_tick_ns tw) (word_of_int (tp delay))"
  obtains (refused) w' fr' where "timing_wheel_insert delay recur cb arg (tw, w) = Some (Null, tw, w')"
      "wheel_inv tw w' L fr' us" "we_fired w' = we_fired w"
      "fst (the (timeout_event_borrow (we_mod w))) = Null \<or> unat (tw_cap tw) \<le> unat k \<or> recur \<and> k = 0"
  | (inserted) a e tw' w' fr' s where "timing_wheel_insert delay recur cb arg (tw, w) = Some (Ptr a, tw', w')"
      "unat k < unat (tw_cap tw)" "\<not> (recur \<and> k = 0)" "a \<notin> us" "s = (unat (tw_curr tw) + unat k) mod unat (tw_cap tw)"
      "wheel_inv tw' w' (L(s := L s @ [a])) fr' (insert a us)" "wheel_same tw tw'" "tw_curr tw' = tw_curr tw"
      "we_fired w' = we_fired w" "we_objs w' a = Some e" "te_cb e = cb" "te_data e = arg" "te_recur e = recur"
proof -
  note wis = wheel_invD [OF inv]
  have tick: "tw_tick_ns tw \<noteq> 0" using wis(2) by (simp add: wheel_shape_def)
  from wis(1) show ?thesis
  proof (cases rule: timeout_event_borrow_ok)
    case (refused m')
    let ?w = "w\<lparr>we_mod := m'\<rparr>"
    have "wheel_inv tw ?w L [] us"
      by (rule wheel_inv_cong [OF inv])
         (use refused wheel_inv_own [OF inv] wheel_curr_lt [OF inv] in \<open>simp_all add: tv_objs_def\<close>)
    moreover have "timing_wheel_insert delay recur cb arg (tw, w) = Some (Null, tw, ?w)"
      using args refused(1) by (simp add: timing_wheel_insert_def we_return_def Let_def)
    ultimately show ?thesis using that(1) [of ?w "[]"] refused(1) by simp
  next
    case (borrowed a x m' fr')
    let ?w1 = "w\<lparr>we_mod := m'\<rparr>" and ?t = "timeout_event_reset x"
    let ?t1 = "?t\<lparr>te_cb := cb, te_data := arg, te_recur := recur, te_delay := delay\<rparr>"
    let ?w2 = "we_store a ?t1 ?w1"
    have out: "a \<notin> set (L j)" if "j < unat (tw_cap tw)" for j using wheel_inv_own [OF inv that] borrowed(2) by blast
    have "wheel_inv tw ?w1 L fr' (insert a us)"
      by (rule wheel_inv_cong [OF inv])
         (use borrowed wheel_inv_own [OF inv] wheel_curr_lt [OF inv] in \<open>simp_all add: tv_objs_def\<close>)
    then have inv2: "wheel_inv tw ?w2 L fr' (insert a us)"
      using out by (intro wheel_store_ok) (auto simp: timeout_event_reset_def)
    have obj: "we_objs ?w1 a = Some ?t" using borrowed(4) by (simp add: tv_objs_def)
    note eq = timing_wheel_insert_borrowed [OF args tick k borrowed(1) obj refl refl, where arg = arg and recur = recur]
    show ?thesis
    proof (cases "tw_cap tw \<le> k \<or> recur \<and> k = 0")
      case True
      obtain w4 where w4: "we_return (Ptr a) ?w2 = Some (Null, w4)" "wheel_inv tw w4 L (a # fr') (insert a us - {a})"
          "we_fired w4 = we_fired ?w2"
        using wheel_return_ok [OF inv2 insertI1] out by blast
      have "insert a us - {a} = us" using borrowed(2) by auto
      then show ?thesis using that(1) [of w4 "a # fr'"] w4 eq True by (auto simp: word_le_nat_alt)
    next
      case False
      then have lt: "unat k < unat (tw_cap tw)" by (simp add: word_le_nat_alt)
      define s where "s = (unat (tw_curr tw) + unat k) mod unat (tw_cap tw)"
      obtain o' where o': "c_umod (tw_curr tw + k) (tw_cap tw) = Some o'" "unat o' = s"
        using slot_index [OF wis(2) lt] by (auto simp: s_def)
      let ?e = "?t1\<lparr>te_offset := o'\<rparr>" and ?w3 = "we_store a (?t1\<lparr>te_offset := o'\<rparr>) ?w2"
      have inv3: "wheel_inv tw ?w3 L fr' (insert a us)"
        using out by (intro wheel_store_ok [OF inv2]) (auto simp: timeout_event_reset_def)
      have "s < unat (tw_cap tw)" using lt by (simp add: s_def)
      moreover have "slot_ok tw ?w3 (insert a us) s a"
        using o'(2) args(2) lt False k by (auto simp: slot_ok_def delay_ticks_def unat_gt_0)
      ultimately obtain tw' w' where r: "timing_wheel_insert_raw a (tw, ?w3) = Some (tw', w')"
          "wheel_inv tw' w' (L(s := L s @ [a])) fr' (insert a us)" "wheel_same tw tw'" "tw_curr tw' = tw_curr tw"
          "we_objs w' = we_objs ?w3" "we_fired w' = we_fired ?w3"
        using timing_wheel_insert_raw_ok [OF inv3 insertI1] out by metis
      have "timing_wheel_insert delay recur cb arg (tw, w) = Some (Ptr a, tw', w')"
        using eq False o'(1) r(1) by simp
      then show ?thesis
        using that(2) [of a tw' w' s fr' ?e] lt False borrowed(2) s_def r by simp
    qed
  qed
qed

section \<open>Flushing the wheel\<close>

lemma reschedule_none: "(\<And>a. a \<in> set xs \<Longrightarrow> f a = None) \<Longrightarrow> reschedule f xs L = L"
  by (induction xs arbitrary: L) (simp_all add: place_def)

lemma turn_end_ok:
  assumes inv: "wheel_inv tw w L fr us" and c: "c = unat (tw_curr tw)"
  obtains tw' w' fr' where "wheel_turn True (tw, w) = Some (tw', w')" "wheel_inv tw' w' (L(c := [])) fr' (us - set (L c))"
    "tw_cap tw' = tw_cap tw" "unat (tw_curr tw') = (c + 1) mod unat (tw_cap tw)"
    "we_fired w' = we_fired w @ fires w (L c)" "\<forall>b. b \<notin> set (L c) \<longrightarrow> we_objs w' b = we_objs w b"
proof -
  have d: "dest True tw w a = None" for a by (simp add: dest_def next_slot_def)
  from inv c obtain tw' w' fr' where "wheel_turn True (tw, w) = Some (tw', w')"
    "wheel_inv tw' w' (reschedule (dest True tw w) (L c) (L(c := []))) fr' (us - {a \<in> set (L c). dest True tw w a = None})"
    "wheel_same tw tw'" "unat (tw_curr tw') = (c + 1) mod unat (tw_cap tw)" "we_fired w' = we_fired w @ fires w (L c)"
    "\<forall>b. b \<notin> set (L c) \<longrightarrow> we_objs w' b = we_objs w b"
    by (rule wheel_turn_ok)
  then show ?thesis using that [of tw' w' fr'] reschedule_none [of "L c" "dest True tw w"] d by (simp add: wheel_same_def)
qed

text \<open>The slots that \<open>m\<close> turns from slot \<open>c\<close> visit in a wheel of \<open>n\<close> slots.\<close>

fun visited :: "nat \<Rightarrow> nat \<Rightarrow> nat \<Rightarrow> nat list" where
  "visited n c 0 = []"
| "visited n c (Suc m) = c # visited n ((c + 1) mod n) m"

lemma visited_set: "c < n \<Longrightarrow> i \<in> set (visited n c m) \<longleftrightarrow> (\<exists>j < m. i = (c + j) mod n)"
proof (induction m arbitrary: c)
  case (Suc m)
  have "i \<in> set (visited n ((c + 1) mod n) m) \<longleftrightarrow> (\<exists>j < m. i = (c + Suc j) mod n)"
    using Suc.IH [of "(c + 1) mod n"] Suc.prems by (simp add: mod_add_left_eq)
  then show ?case using Suc.prems by (auto simp: less_Suc_eq_0_disj)
qed simp

lemma visited_other:
  assumes "c < n" "m < n"
  shows "c \<notin> set (visited n ((c + 1) mod n) m)"
proof
  assume "c \<in> set (visited n ((c + 1) mod n) m)"
  then obtain j where j: "j < m" "c = ((c + 1) mod n + j) mod n" using visited_set [of "(c + 1) mod n" n c m] assms by auto
  then have "c = (c + (j + 1)) mod n" by (simp add: mod_add_left_eq)
  then show False using slot_moves [of c n "j + 1"] assms j(1) by simp
qed

lemma visited_all:
  assumes "c < n" "i < n"
  shows "i \<in> set (visited n c n)"
proof -
  have "(c + (i + n - c) mod n) mod n = (c + (i + n - c)) mod n" by (simp add: mod_add_right_eq)
  also have "\<dots> = i" using assms by simp
  finally have "i = (c + (i + n - c) mod n) mod n" by simp
  moreover have "(i + n - c) mod n < n" using assms by simp
  ultimately show ?thesis using visited_set [OF assms(1), of i n] by blast
qed

lemma flush_loop_ok:
  assumes "wheel_inv tw w L fr us" "n = unat (tw_cap tw)" "c = unat (tw_curr tw)" "m < n"
    "(c + Suc m) mod n = unat start"
  shows "\<exists>tw' w' L' fr'. flush_loop start (tw, w) = Some (tw', w') \<and>
    wheel_inv tw' w' L' fr' (us - (\<Union>i \<in> set (visited n c (Suc m)). set (L i))) \<and>
    (\<forall>i. L' i = (if i \<in> set (visited n c (Suc m)) then [] else L i)) \<and> tw_cap tw' = tw_cap tw \<and>
    we_fired w' = we_fired w @ concat (map (\<lambda>i. fires w (L i)) (visited n c (Suc m)))"
  using assms
proof (induction m arbitrary: tw w L fr us c)
  case (0 tw w L fr us c)
  from "0.prems"(1,3) obtain tw1 w1 fr1 where t: "wheel_turn True (tw, w) = Some (tw1, w1)"
    "wheel_inv tw1 w1 (L(c := [])) fr1 (us - set (L c))" "tw_cap tw1 = tw_cap tw"
    "unat (tw_curr tw1) = (c + 1) mod unat (tw_cap tw)" "we_fired w1 = we_fired w @ fires w (L c)"
    by (rule turn_end_ok)
  have cn: "c < n" using wheel_curr_lt [OF "0.prems"(1)] "0.prems"(2,3) by simp
  have "tw_curr tw1 = start" using t(4) "0.prems"(2,5) by (simp add: word_unat_eq_iff)
  then have "flush_loop start (tw, w) = Some (tw1, w1)" using t(1) by (simp add: flush_loop.simps)
  moreover define L' where "L' = L(c := [])"
  then have "wheel_inv tw1 w1 L' fr1 (us - (\<Union>i \<in> set (visited n c (Suc 0)). set (L i)))"
    "\<forall>i. L' i = (if i \<in> set (visited n c (Suc 0)) then [] else L i)" using t(2) by simp_all
  moreover have "we_fired w1 = we_fired w @ concat (map (\<lambda>i. fires w (L i)) (visited n c (Suc 0)))" using t(5) by simp
  ultimately show ?case using t(3) by blast
next
  case (Suc m tw w L fr us c)
  from Suc.prems(1,3) obtain tw1 w1 fr1 where t: "wheel_turn True (tw, w) = Some (tw1, w1)"
    "wheel_inv tw1 w1 (L(c := [])) fr1 (us - set (L c))" "tw_cap tw1 = tw_cap tw"
    "unat (tw_curr tw1) = (c + 1) mod unat (tw_cap tw)" "we_fired w1 = we_fired w @ fires w (L c)"
    "\<forall>b. b \<notin> set (L c) \<longrightarrow> we_objs w1 b = we_objs w b"
    by (rule turn_end_ok)
  let ?c = "(c + 1) mod n" and ?L = "L(c := [])"
  have cn: "c < n" using wheel_curr_lt [OF Suc.prems(1)] Suc.prems(2,3) by simp
  have "(?c + Suc m) mod n = (c + 1 + Suc m) mod n" by (rule mod_add_left_eq)
  then have e: "(?c + Suc m) mod n = unat start" using Suc.prems(5) by simp
  have c1: "?c = unat (tw_curr tw1)" and n1: "n = unat (tw_cap tw1)" using t(3,4) Suc.prems(2) by simp_all
  have "m < n" using Suc.prems(4) by simp
  from Suc.IH [OF t(2) n1 c1 this e] obtain tw' w' L' fr' where i: "flush_loop start (tw1, w1) = Some (tw', w')"
    "wheel_inv tw' w' L' fr' (us - set (L c) - (\<Union>i \<in> set (visited n ?c (Suc m)). set (?L i)))"
    "\<forall>i. L' i = (if i \<in> set (visited n ?c (Suc m)) then [] else ?L i)" "tw_cap tw' = tw_cap tw1"
    "we_fired w' = we_fired w1 @ concat (map (\<lambda>i. fires w1 (?L i)) (visited n ?c (Suc m)))"
    by blast
  have "(?c + Suc m) mod n \<noteq> ?c" using cn Suc.prems(4) by (intro slot_moves) auto
  then have "unat (tw_curr tw1) \<noteq> unat start" using e c1 by simp
  then have fl: "flush_loop start (tw, w) = Some (tw', w')" using t(1) i(1) by (auto simp: flush_loop.simps [of start "(tw, w)"])
  have vs: "visited n c (Suc (Suc m)) = c # visited n ?c (Suc m)" by simp
  have nc: "c \<notin> set (visited n ?c (Suc m))" using visited_other [OF cn Suc.prems(4)] .
  have eqs: "fires w1 (?L i) = fires w (L i)" "?L i = L i" if "i \<in> set (visited n ?c (Suc m))" for i
  proof -
    have i: "i \<noteq> c" using that nc by blast
    have "i < n" using that visited_set [of ?c n i "Suc m"] cn by auto
    show "?L i = L i" using i by simp
    have "we_objs w1 b = we_objs w b" if "b \<in> set (L i)" for b
      using that t(6) wheel_invD(4) [OF Suc.prems(1), of i c] i \<open>i < n\<close> cn Suc.prems(2) by auto
    then show "fires w1 (?L i) = fires w (L i)" using fires_cong [of "L i" w1 w] i by simp
  qed
  have fd: "concat (map (\<lambda>i. fires w1 (?L i)) (visited n ?c (Suc m))) = concat (map (\<lambda>i. fires w (L i)) (visited n ?c (Suc m)))"
    using eqs(1) by (intro arg_cong [of _ _ concat] map_cong) auto
  have us': "us - set (L c) - (\<Union>i \<in> set (visited n ?c (Suc m)). set (?L i)) =
      us - (\<Union>i \<in> set (visited n c (Suc (Suc m))). set (L i))"
    unfolding vs using eqs(2) by auto
  have "\<forall>i. L' i = (if i \<in> set (visited n c (Suc (Suc m))) then [] else L i)"
    unfolding vs using i(3) by simp
  moreover have "we_fired w' = we_fired w @ concat (map (\<lambda>i. fires w (L i)) (visited n c (Suc (Suc m))))"
    unfolding vs using i(5) [unfolded fd] t(5) by simp
  moreover have "tw_cap tw' = tw_cap tw" using i(4) t(3) by simp
  ultimately show ?case using fl i(2) [unfolded us'] by blast
qed

section \<open>Turning the wheel by the clock\<close>

text \<open>
  The clock answers in range whenever it is asked, and rounding is off by at most one part in a
  thousand (IEEE double arithmetic: one part in \<open>2 ^ 53\<close>).
\<close>

definition clock_runs :: "clock \<Rightarrow> bool" where
  "clock_runs c \<longleftrightarrow> (\<forall>n. clock_sane (c\<lparr>ck_n := n\<rparr>))"

definition rnd_close :: "(real \<Rightarrow> real) \<Rightarrow> bool" where
  "rnd_close rnd \<longleftrightarrow> (\<forall>x. \<bar>rnd x - x\<bar> \<le> \<bar>x\<bar> / 1000)"

lemma clock_runs_now: "clock_runs c \<Longrightarrow> clock_sane c"
  unfolding clock_runs_def by (drule spec [of _ "ck_n c"]) simp

lemma clock_runs_tick [simp]: "clock_runs (c\<lparr>ck_n := n\<rparr>) = clock_runs c"
  by (simp add: clock_runs_def)

lemma rnd_close_bound:
  assumes "rnd_close rnd" "\<bar>x\<bar> \<le> b"
  shows "\<bar>rnd x\<bar> \<le> b + b / 1000"
proof -
  have "\<bar>rnd x - x\<bar> \<le> \<bar>x\<bar> / 1000" using assms(1) by (simp add: rnd_close_def)
  moreover have "\<bar>rnd x\<bar> \<le> \<bar>x\<bar> + \<bar>rnd x - x\<bar>" by linarith
  ultimately show ?thesis using assms(2) by linarith
qed

definition ts_sane :: "timespec \<Rightarrow> bool" where
  "ts_sane ts \<longleftrightarrow> 0 \<le> tv_sec ts \<and> tv_sec ts < 4611686018 \<and> 0 \<le> tv_nsec ts \<and> tv_nsec ts < 1000000000"

lemma clock_sane_ts: "clock_sane c = ts_sane (fst (gettime DURATION_PRECISE c))"
  by (simp add: clock_sane_def ts_sane_def Let_def)

lemma duration_ns_range:
  assumes rnd: "rnd_close rnd" and d: "d_started d" "d_stopped d" "ts_sane (d_start d)" "ts_sane (d_stop d)"
  obtains x where "duration_ns rnd d = Some x" "0 \<le> x" "x < 9223372036854775808"
proof -
  define s where "s = tv_sec (d_stop d) - tv_sec (d_start d)"
  have "\<bar>s\<bar> \<le> 4611686018" using d(3,4) by (auto simp: s_def ts_sane_def)
  then have "\<bar>real_of_int s\<bar> \<le> 4611686018" by linarith
  from rnd_close_bound [OF rnd this] have "\<bar>rnd (real_of_int s) * 1000000000\<bar> \<le> 4620000000000000000" by (simp add: abs_mult)
  from rnd_close_bound [OF rnd this] have a: "\<bar>rnd (rnd (real_of_int s) * 1000000000)\<bar> \<le> 4630000000000000000" by simp
  have "\<bar>real_of_int (tv_nsec (d_stop d))\<bar> \<le> 1000000000" "\<bar>real_of_int (tv_nsec (d_start d))\<bar> \<le> 1000000000"
    using d(3,4) by (simp_all add: ts_sane_def)
  note n = this [THEN rnd_close_bound [OF rnd]]
  let ?b = "rnd (rnd (real_of_int s) * 1000000000) + rnd (real_of_int (tv_nsec (d_stop d)))"
  have "\<bar>?b\<bar> \<le> 4640000000000000000" using a n(1) by linarith
  from rnd_close_bound [OF rnd this] have "\<bar>rnd ?b - rnd (real_of_int (tv_nsec (d_start d)))\<bar> \<le> 4650000000000000000"
    using n(2) by linarith
  from rnd_close_bound [OF rnd this] have e: "\<bar>rnd (rnd ?b - rnd (real_of_int (tv_nsec (d_start d))))\<bar> \<le> 4660000000000000000" by simp
  define el where "el = rnd (rnd ?b - rnd (real_of_int (tv_nsec (d_start d))))"
  have "s64_ok s" using \<open>\<bar>s\<bar> \<le> 4611686018\<close> by (simp add: s64_ok_def abs_le_iff)
  then have "duration_ns rnd d = Some (if el < 0 then DBL_EPSILON else el)"
    using d(1,2) by (simp add: duration_ns_def s_def [symmetric] s64_in nsec_defs el_def)
  moreover have "el \<le> 4660000000000000000" using e unfolding el_def [symmetric] by linarith
  ultimately show ?thesis
    using that [of "if el < 0 then DBL_EPSILON else el"] by (simp add: DBL_EPSILON_def split: if_splits)
qed

text \<open>The due time after a round: later than before, by at most a tick.\<close>

lemma wheel_due_next_ok:
  assumes to: "is_intvl to" "0 \<le> tp to" and tick: "is_intvl (tw_tick tw)" "tp (tw_tick tw) < 4611686018427387904"
    and due: "0 \<le> tp (tw_due tw)" "tp (tw_due tw) < 4611686018000000000"
  shows "\<exists>d. wheel_due_next to tw = Some (tw\<lparr>tw_due := d\<rparr>) \<and> tp (tw_due tw) \<le> tp d \<and> is_set d = (is_set (tw_due tw) \<or> tp to < tp (tw_tick tw)) \<and>
    is_intvl d = is_intvl (tw_due tw)"
proof (cases "tp to < tp (tw_tick tw)")
  case True
  then have "s64_ok (tp (tw_due tw) + tp (tw_tick tw))" "s64_ok (tp (tw_due tw) + tp (tw_tick tw) - tp to)"
    using assms by (simp_all add: s64_ok_def)
  then show ?thesis
    using True to(1) tick(1)
    by (intro exI [of _ "(tw_due tw)\<lparr>tp := tp (tw_due tw) + tp (tw_tick tw) - tp to, is_set := True\<rparr>"])
       (simp add: wheel_due_next_def timeout_sum_intvl_def timeout_sub_intvl_def s64_in)
next
  case False
  then show ?thesis by (intro exI [of _ "tw_due tw"]) (simp add: wheel_due_next_def)
qed

lemma execute_round_ok:
  assumes inv: "wheel_inv tw w L fr us" and rnd: "rnd_close rnd" and ck: "clock_runs (we_clock w)"
    and tick: "is_intvl (tw_tick tw)" "tp (tw_tick tw) < 4611686018427387904"
    and due: "0 \<le> tp (tw_due tw)" "tp (tw_due tw) < 4611686018000000000"
  obtains tw' w' L' fr' us' where "execute_round rnd (tw, w) = Some (tw', w')" "wheel_inv tw' w' L' fr' us'"
    "clock_runs (we_clock w')" "tw_tick tw' = tw_tick tw" "tw_max_ntick tw' = tw_max_ntick tw" "tw_cap tw' = tw_cap tw"
    "unat (tw_curr tw') = (unat (tw_curr tw) + 1) mod unat (tw_cap tw)" "tp (tw_due tw) \<le> tp (tw_due tw')"
    "is_intvl (tw_due tw') = is_intvl (tw_due tw)" "we_fired w' = we_fired w @ fires w (L (unat (tw_curr tw)))"
proof -
  obtain d c where d: "duration_start duration_raw (we_clock w) = (d, c)" by fastforce
  have c: "c = (we_clock w)\<lparr>ck_n := ck_n (we_clock w) + 1\<rparr>" and dd: "d_started d" "ts_sane (d_start d)" "d_type d = DURATION_PRECISE"
    using d clock_runs_now [OF ck]
    by (auto simp: duration_start_def duration_start_type_def gettime_def clock_sane_ts split: prod.splits)
  let ?w = "w\<lparr>we_clock := c\<rparr>" and ?c = "unat (tw_curr tw)"
  have "wheel_inv tw ?w L fr us" using inv wheel_inv_env [of ?w w] by simp
  from this refl obtain tw2 w2 fr2 where t: "wheel_turn False (tw, ?w) = Some (tw2, w2)"
    "wheel_inv tw2 w2 (reschedule (dest False tw ?w) (L ?c) (L(?c := []))) fr2 (us - {a \<in> set (L ?c). dest False tw ?w a = None})"
    "wheel_same tw tw2" "unat (tw_curr tw2) = (?c + 1) mod unat (tw_cap tw)" "we_fired w2 = we_fired ?w @ fires ?w (L ?c)"
    "we_clock w2 = we_clock ?w" "\<forall>b. b \<notin> set (L ?c) \<longrightarrow> we_objs w2 b = we_objs ?w b"
    by (rule wheel_turn_ok)
  obtain d' c' where d': "duration_stop d (we_clock w2) = (d', c')" by fastforce
  have c': "clock_runs c'" and dd': "d_started d'" "d_stopped d'" "ts_sane (d_start d')" "ts_sane (d_stop d')"
    using d' dd t(6) c ck clock_runs_now [of c]
    by (auto simp: duration_stop_def gettime_def clock_sane_ts split: prod.splits)
  obtain x where x: "duration_ns rnd d' = Some x" "0 \<le> x" "x < 9223372036854775808"
    using duration_ns_range [OF rnd dd'] by blast
  define u where "u = (word_of_int \<lfloor>x\<rfloor> :: u64)"
  have "0 \<le> \<lfloor>x\<rfloor>" "\<lfloor>x\<rfloor> < 9223372036854775808" using x(2,3) by linarith+
  then have u: "dbl_to_u64 x = Some u" "0 \<le> sint u"
    using x(2,3) sint_of_s64 [of "\<lfloor>x\<rfloor>"] by (simp_all add: dbl_to_u64_def u_def s64_ok_def)
  let ?to = "timeout_set_ns \<lparr>tp = 0, is_set = False, is_intvl = False\<rparr> u"
  obtain due' where n: "wheel_due_next ?to tw2 = Some (tw2\<lparr>tw_due := due'\<rparr>)" "tp (tw_due tw2) \<le> tp due'"
      "is_intvl due' = is_intvl (tw_due tw2)"
    using wheel_due_next_ok [of ?to tw2] u(2) tick due t(3) by (auto simp: wheel_same_def)
  let ?tw = "tw2\<lparr>tw_due := due'\<rparr>" and ?w' = "w2\<lparr>we_clock := c'\<rparr>"
  obtain s1 where s1: "process_tick False (tw, ?w) = Some s1" "advance_curr s1 = Some (tw2, w2)"
    using t(1) by (auto simp: wheel_turn_def bind_eq_Some_conv)
  have "execute_round rnd (tw, w) = Some (?tw, ?w')"
    using d s1 d' x(1) u(1) n(1) by (simp add: execute_round_def)
  moreover have "wheel_inv ?tw w2 (reschedule (dest False tw ?w) (L ?c) (L(?c := []))) fr2 (us - {a \<in> set (L ?c). dest False tw ?w a = None})"
    by (rule wheel_inv_cong [OF t(2)]) (use wheel_invD(1) [OF t(2)] wheel_curr_lt [OF t(2)] wheel_inv_own [OF t(2)] in simp_all)
  then have "wheel_inv ?tw ?w' (reschedule (dest False tw ?w) (L ?c) (L(?c := []))) fr2 (us - {a \<in> set (L ?c). dest False tw ?w a = None})"
    using wheel_inv_env [of ?w' w2] by simp
  moreover have "we_fired ?w' = we_fired w @ fires w (L ?c)" using t(5) by (simp add: fires_def)
  ultimately show ?thesis
    using that [of ?tw ?w'] c' t(3,4) n(2,3) by (simp add: wheel_same_def)
qed

lemma timeout_expired_sane:
  assumes "clock_sane c" "\<not> is_intvl e"
  shows "timeout_expired e c = Some (is_set e \<and> tp e \<le> clock_ns c, if is_set e then c\<lparr>ck_n := ck_n c + 1\<rparr> else c)"
  using assms now_ns_sane [OF assms(1)] by (simp add: timeout_expired_def)

lemma execute_loop_ok:
  assumes "wheel_inv tw w L fr us" "rnd_close rnd" "clock_runs (we_clock w)" "is_intvl (tw_tick tw)"
    "tp (tw_tick tw) < 4611686018427387904" "0 \<le> tp (tw_due tw)" "\<not> is_intvl (tw_due tw)"
    "0 < tw_max_ntick tw" "unat ntick + m = unat (tw_max_ntick tw)"
  shows "\<exists>ntick' tw' w' L' fr' us' n fs. execute_loop rnd ntick (tw, w) = Some (ntick', tw', w') \<and> wheel_inv tw' w' L' fr' us' \<and>
    n \<le> m \<and> tw_cap tw' = tw_cap tw \<and> unat (tw_curr tw') = (unat (tw_curr tw) + n) mod unat (tw_cap tw) \<and>
    we_fired w' = we_fired w @ fs \<and> (\<not> is_set (tw_due tw) \<longrightarrow> n = 0 \<and> fs = [])"
  using assms
proof (induction m arbitrary: ntick tw w L fr us)
  case 0
  then have "\<not> tick_allowed tw ntick" by (auto simp: tick_allowed_def word_less_nat_alt)
  then have "execute_loop rnd ntick (tw, w) = Some (ntick, tw, w)" by (simp add: execute_loop.simps)
  then show ?case
    using "0.prems"(1) wheel_curr_lt [OF "0.prems"(1)]
    by (intro exI [of _ ntick] exI [of _ tw] exI [of _ w] exI [of _ L] exI [of _ fr] exI [of _ us] exI [of _ 0] exI [of _ "[]"]) simp
next
  case (Suc m)
  note inv = Suc.prems(1) and sane = clock_runs_now [OF Suc.prems(3)]
  let ?c = "if is_set (tw_due tw) then (we_clock w)\<lparr>ck_n := ck_n (we_clock w) + 1\<rparr> else we_clock w"
  let ?w = "w\<lparr>we_clock := ?c\<rparr>" and ?x = "is_set (tw_due tw) \<and> tp (tw_due tw) \<le> clock_ns (we_clock w)"
  have inv1: "wheel_inv tw ?w L fr us" using inv wheel_inv_env [of ?w w] by simp
  have "tick_allowed tw ntick" using Suc.prems(9) by (simp add: tick_allowed_def word_less_nat_alt)
  then have step: "execute_loop rnd ntick (tw, w) =
      (if \<not> ?x then Some (ntick, tw, ?w) else execute_round rnd (tw, ?w) \<bind> execute_loop rnd (ntick + 1))"
    using timeout_expired_sane [OF sane Suc.prems(7)] by (simp add: execute_loop.simps [of rnd ntick "(tw, w)"])
  show ?case
  proof (cases ?x)
    case False
    then have "execute_loop rnd ntick (tw, w) = Some (ntick, tw, ?w)" using step by simp
    then show ?thesis
      using inv1 wheel_curr_lt [OF inv]
      by (intro exI [of _ ntick] exI [of _ tw] exI [of _ ?w] exI [of _ L] exI [of _ fr] exI [of _ us] exI [of _ 0] exI [of _ "[]"]) simp
  next
    case True
    have ck: "clock_runs (we_clock ?w)" using Suc.prems(3) by simp
    have due: "tp (tw_due tw) < 4611686018000000000" using True clock_sane_range [OF sane] by linarith
    from inv1 Suc.prems(2) ck Suc.prems(4-6) due obtain tw1 w1 L1 fr1 us1 where
      r: "execute_round rnd (tw, ?w) = Some (tw1, w1)" "wheel_inv tw1 w1 L1 fr1 us1"
        "clock_runs (we_clock w1)" "tw_tick tw1 = tw_tick tw" "tw_max_ntick tw1 = tw_max_ntick tw" "tw_cap tw1 = tw_cap tw"
        "unat (tw_curr tw1) = (unat (tw_curr tw) + 1) mod unat (tw_cap tw)" "tp (tw_due tw) \<le> tp (tw_due tw1)"
        "is_intvl (tw_due tw1) = is_intvl (tw_due tw)" "we_fired w1 = we_fired ?w @ fires ?w (L (unat (tw_curr tw)))"
      by (rule execute_round_ok)
    have "unat ntick + 1 < 18446744073709551616" using Suc.prems(9) unat_u64_lt [of "tw_max_ntick tw"] by linarith
    then have "unat (ntick + 1) = unat ntick + 1" using unat_add_small [of ntick 1] by simp
    then have "unat (ntick + 1) + m = unat (tw_max_ntick tw1)" using Suc.prems(9) r(5) by simp
    moreover have "is_intvl (tw_tick tw1)" "tp (tw_tick tw1) < 4611686018427387904" "0 \<le> tp (tw_due tw1)"
        "\<not> is_intvl (tw_due tw1)" "0 < tw_max_ntick tw1"
      using r(4,5,8,9) Suc.prems(4-8) by simp_all
    ultimately obtain ntick' tw' w' L' fr' us' n fs where
      i: "execute_loop rnd (ntick + 1) (tw1, w1) = Some (ntick', tw', w')" "wheel_inv tw' w' L' fr' us'" "n \<le> m"
        "tw_cap tw' = tw_cap tw1" "unat (tw_curr tw') = (unat (tw_curr tw1) + n) mod unat (tw_cap tw1)" "we_fired w' = we_fired w1 @ fs"
      using Suc.IH [OF r(2) Suc.prems(2) r(3)] by blast
    have "execute_loop rnd ntick (tw, w) = Some (ntick', tw', w')" using step True r(1) i(1) by simp
    moreover have "((unat (tw_curr tw) + 1) mod unat (tw_cap tw) + n) mod unat (tw_cap tw) = (unat (tw_curr tw) + 1 + n) mod unat (tw_cap tw)"
      by (rule mod_add_left_eq)
    then have "unat (tw_curr tw') = (unat (tw_curr tw) + Suc n) mod unat (tw_cap tw)" using i(5) r(6,7) by simp
    moreover have "we_fired w' = we_fired w @ (fires ?w (L (unat (tw_curr tw))) @ fs)" using i(6) r(10) by simp
    moreover have "Suc n \<le> Suc m" "tw_cap tw' = tw_cap tw" using i(3,4) r(6) by simp_all
    ultimately show ?thesis using i(2) True by blast
  qed
qed

section \<open>Creating the wheel, and tearing the module down\<close>

lemma TAILQ_INIT_frame: "tailq_rep s g [] \<Longrightarrow> tailq_rep (TAILQ_INIT h s) g []"
  by (auto simp: tailq_rep_def stailq_rep_def slist_rep_def TAILQ_INIT_def q_updates)

lemma init_table_ok:
  assumes "(i + k) * unat TQH_SIZE \<le> length blk" "\<And>j. j < i \<Longrightarrow> tailq_rep s j []"
  shows "\<exists>s'. init_table blk i k s = Some s' \<and> (\<forall>j < i + k. tailq_rep s' j [])"
  using assms
proof (induction k arbitrary: i s)
  case (Suc k)
  have "tailq_rep (TAILQ_INIT i s) j []" if "j < Suc i" for j
    using that Suc.prems(2) TAILQ_INIT_rep [of i s] TAILQ_INIT_frame [of s j i] by (cases "j = i") auto
  moreover have "(i + 1) * unat TQH_SIZE \<le> length blk"
    using Suc.prems(1) by (rule order.trans [rotated]) (intro mult_le_mono1, simp)
  ultimately show ?case using Suc.IH [of "Suc i" "TAILQ_INIT i s"] Suc.prems(1) by simp
qed simp

text \<open>A wheel with a positive tick and no more slots than memory can hold starts out empty.\<close>

lemma timing_wheel_create_ok:
  assumes m: "cc_alloc malloc1 TW_SIZE = Ptr b1" "cc_alloc malloc2 (cap * TQH_SIZE) = Ptr b2" "malloc_spec malloc2"
    and cap: "0 < cap" "unat cap < 1152921504606846976" and tick: "is_intvl tick" "0 < tp tick" "s64_ok (tp tick)"
    and w: "tev_inv (we_mod w) fr us"
  shows "\<exists>tw. timing_wheel_create malloc1 malloc2 tbl tick cap ntick c = Some (Ptr tw, c) \<and>
    wheel_inv tw w (\<lambda>_. []) fr us \<and> tw_cap tw = cap \<and> int (unat (tw_tick_ns tw)) = tp tick \<and> \<not> is_set (tw_due tw)"
proof -
  have "unat (cap * TQH_SIZE) = unat cap * 16" using cap(2) by (simp add: TQH_SIZE_def unat_word_ariths(2))
  then have "length b2 = unat cap * 16" using cc_alloc_length [OF m(3,2)] by simp
  then obtain s where s: "init_table b2 0 (unat cap) tbl = Some s" "\<forall>j < unat cap. tailq_rep s j []"
    using init_table_ok [of 0 "unat cap" b2 tbl] by (auto simp: TQH_SIZE_def)
  have ns: "int (unat (word_of_int (tp tick) :: u64)) = tp tick"
    using tick(2,3) by (simp add: s64_ok_def uint_word_of_int)
  then have "(word_of_int (tp tick) :: u64) \<noteq> 0" using tick(2) by auto
  then show ?thesis
    using m(1,2) cap tick(1) s w ns
    by (simp add: timing_wheel_create_def timeout_ns_def wheel_inv_def wheel_shape_def word_less_nat_alt)
qed

section \<open>Properties\<close>

text \<open>
  A wheel of four slots of 10 ns, at slot 3, over a pool that has never been used and an allocator
  that always answers; the slots are empty.
\<close>

definition wheel_sample :: timing_wheel where
  "wheel_sample = \<lparr>tw_tick = \<lparr>tp = 10, is_set = True, is_intvl = True\<rparr>, tw_cap = 4, tw_max_ntick = 2, tw_tick_ns = 10,
     tw_active = False, tw_due = \<lparr>tp = 0, is_set = False, is_intvl = False\<rparr>, tw_curr = 3, tw_nevent = 0,
     tw_table = \<lparr>q_cell = (\<lambda>_. Null), q_last = FirstOf, q_prev = FirstOf\<rparr>, tw_nprocess = 0, tw_nexec = 0, tw_ntick = 0\<rparr>"

definition wenv_sample :: wenv where
  "wenv_sample = \<lparr>we_mod = \<lparr>pm_pool = \<lparr>pl_freeq = \<lparr>q_cell = (\<lambda>_. Null), q_last = FirstOf, q_prev = (\<lambda>_. FirstOf ())\<rparr>,
       pl_nfree = 0, pl_nused = 0, pl_nmax = 100, pl_initialized = True\<rparr>,
     pm_world = \<lparr>tv_arena = \<lparr>ar_objs = Map.empty, ar_alloc = arena_next, ar_tick = 0\<rparr>, tv_metrics = Null\<rparr>, pm_pool_init = True, pm_init = True\<rparr>,
     we_clock = \<lparr>ck_read = (\<lambda>_ _. Some \<lparr>tv_sec = 1, tv_nsec = 0\<rparr>), ck_n = 0\<rparr>, we_fired = []\<rparr>"

lemma wheel_sample_inv: "wheel_inv wheel_sample wenv_sample (\<lambda>_. []) [] {}"
  by (simp add: wheel_inv_def wheel_shape_def wheel_sample_def wenv_sample_def tev_inv_def pooled_inv_def pool_inv_def
      tv_ok_def tailq_rep_def stailq_rep_def slist_rep_def)

text \<open>
  C2. An event fires on its tick. An event that is accepted for a delay of \<open>d\<close> ns waits for exactly
  \<open>k\<close> ticks of the wheel, where \<open>k\<close> is \<open>d\<close> divided by the length of a tick, rounded up: the next
  \<open>k\<close> ticks succeed without calling its callback, and the tick after them calls it, with its
  argument, exactly once, whatever else is scheduled on the wheel.
\<close>

theorem wheel_fires_on_tick:
  assumes inv: "wheel_inv tw w L fr us"
    and ins: "timing_wheel_insert delay recur (Ptr cb) arg (tw, w) = Some (Ptr a, tw1, w1)"
    and k: "k = unat (offset_ns (tw_tick_ns tw) (word_of_int (tp delay)))"
  shows "\<exists>s2 s3 fs fs'. wheel_turns k (tw1, w1) = Some s2 \<and> we_fired (snd s2) = we_fired w1 @ fs \<and> a \<notin> fst ` set fs \<and>
    wheel_turn False s2 = Some s3 \<and> we_fired (snd s3) = we_fired (snd s2) @ fs' \<and>
    filter (\<lambda>f. fst f = a) fs' = [(a, cb, arg)] \<and>
    unat (word_of_int (tp delay) :: u64) \<le> k * unat (tw_tick_ns tw) \<and>
    (0 < k \<longrightarrow> (k - 1) * unat (tw_tick_ns tw) < unat (word_of_int (tp delay) :: u64))"
proof -
  have intvl: "is_intvl delay" using ins by (auto simp: timing_wheel_insert_def split: if_splits)
  from inv _ intvl refl obtain e fr' s where i: "k < unat (tw_cap tw)"
      "s = (unat (tw_curr tw) + k) mod unat (tw_cap tw)" "wheel_inv tw1 w1 (L(s := L s @ [a])) fr' (insert a us)"
      "wheel_same tw tw1" "tw_curr tw1 = tw_curr tw" "we_objs w1 a = Some e" "te_cb e = Ptr cb" "te_data e = arg"
    by (cases rule: timing_wheel_insert_cases [where cb = "Ptr cb" and arg = arg and recur = recur]) (use ins k in auto)
  have "ahead a k tw1 (L(s := L s @ [a]))" using i by (simp add: ahead_def wheel_same_def)
  then obtain tw2 w2 L2 fr2 us2 fs where t: "wheel_turns k (tw1, w1) = Some (tw2, w2)" "wheel_inv tw2 w2 L2 fr2 us2"
      "ahead a 0 tw2 L2" "we_objs w2 a = Some e" "we_fired w2 = we_fired w1 @ fs" "a \<notin> fst ` set fs"
    using turns_before [OF i(3)] i(6) by metis
  obtain tw3 w3 fs' where u: "wheel_turn False (tw2, w2) = Some (tw3, w3)" "we_fired w3 = we_fired w2 @ fs'"
      "filter (\<lambda>f. fst f = a) fs' = fire a e"
    using turn_at [OF t(2,3,4)] by blast
  have "fire a e = [(a, cb, arg)]" using i(7,8) by (simp add: fire_def)
  moreover have "tw_tick_ns tw \<noteq> 0" using wheel_invD(2) [OF inv] by (simp add: wheel_shape_def)
  ultimately show ?thesis
    using t u offset_ns_ceil [of "tw_tick_ns tw" "word_of_int (tp delay)"] k
    by (intro exI [of _ "(tw2, w2)"] exI [of _ "(tw3, w3)"] exI [of _ fs] exI [of _ fs']) simp
qed

lemma wheel_sample_insert:
  "\<exists>tw1 w1. timing_wheel_insert \<lparr>tp = 25, is_set = True, is_intvl = True\<rparr> True (Ptr 5) 6 (wheel_sample, wenv_sample) =
     Some (Ptr 0, tw1, w1)"
  by (simp add: timing_wheel_insert_def timeout_event_borrow_def FREEPOOL_BORROW_def borrow_pick_def wheel_sample_def
      wenv_sample_def STAILQ_EMPTY_def timeout_event_create_def arena_request_def arena_next_def TEVENT_SIZE_def
      wheel_offset_def timeout_ns_def c_udiv_def c_umod_def timing_wheel_insert_raw_def Let_def)

theorem wheel_fires_on_tick_witness:
  "\<exists>s1 s2 s3 fs fs'. timing_wheel_insert \<lparr>tp = 25, is_set = True, is_intvl = True\<rparr> True (Ptr 5) 6 (wheel_sample, wenv_sample) =
       Some (Ptr 0, s1) \<and> wheel_turns 3 s1 = Some s2 \<and> we_fired (snd s2) = we_fired (snd s1) @ fs \<and> 0 \<notin> fst ` set fs \<and>
     wheel_turn False s2 = Some s3 \<and> we_fired (snd s3) = we_fired (snd s2) @ fs' \<and>
     filter (\<lambda>f. fst f = 0) fs' = [(0, 5, 6)]"
proof -
  obtain tw1 w1 where i: "timing_wheel_insert \<lparr>tp = 25, is_set = True, is_intvl = True\<rparr> True (Ptr 5) 6
      (wheel_sample, wenv_sample) = Some (Ptr 0, tw1, w1)"
    using wheel_sample_insert by blast
  have "3 = unat (offset_ns (tw_tick_ns wheel_sample) (word_of_int (tp \<lparr>tp = 25, is_set = True, is_intvl = True\<rparr>)))"
    by (simp add: offset_ns_def wheel_sample_def)
  from wheel_fires_on_tick [OF wheel_sample_inv i this] show ?thesis
    using i by (auto intro!: exI [of _ "(tw1, w1)"])
qed

text \<open>
  C23. What \<^verbatim>\<open>timing_wheel_insert\<close> accepts. With a callback and an interval, it always returns. It refuses
  an event, and leaves the wheel and the set of borrowed events as they were, only when no event
  can be allocated, the delay does not fit the wheel, or a recurring event has no delay;
  otherwise it appends a new event to the slot that is due after the delay.
\<close>

theorem wheel_insert_accepts:
  assumes "wheel_inv tw w L fr us" "is_intvl delay"
    and k: "k = offset_ns (tw_tick_ns tw) (word_of_int (tp delay))"
  shows "\<exists>r tw' w' fr'. timing_wheel_insert delay recur (Ptr cb) arg (tw, w) = Some (r, tw', w') \<and>
    we_fired w' = we_fired w \<and>
    (r = Null \<and> tw' = tw \<and> wheel_inv tw w' L fr' us \<and>
       (fst (the (timeout_event_borrow (we_mod w))) = Null \<or> tw_cap tw \<le> k \<or> recur \<and> k = 0) \<or>
     (\<exists>a s. r = Ptr a \<and> a \<notin> us \<and> k < tw_cap tw \<and> \<not> (recur \<and> k = 0) \<and>
        s = (unat (tw_curr tw) + unat k) mod unat (tw_cap tw) \<and>
        wheel_inv tw' w' (L(s := L s @ [a])) fr' (insert a us)))"
proof -
  have cb: "Ptr cb \<noteq> Null" by simp
  from assms(1) cb assms(2) k show ?thesis
  proof (cases rule: timing_wheel_insert_cases [where cb = "Ptr cb" and arg = arg and recur = recur])
    case (refused w' fr')
    moreover from refused(4) have "fst (the (timeout_event_borrow (we_mod w))) = Null \<or> tw_cap tw \<le> k \<or> recur \<and> k = 0"
      by (simp add: word_le_nat_alt)
    ultimately show ?thesis by blast
  next
    case (inserted a e tw' w' fr' s)
    moreover from inserted(2) have "k < tw_cap tw" by (simp add: word_less_nat_alt)
    ultimately show ?thesis by blast
  qed
qed

theorem wheel_insert_accepts_witness:
  "\<exists>w' fr'. timing_wheel_insert \<lparr>tp = 31, is_set = True, is_intvl = True\<rparr> True (Ptr 5) 6 (wheel_sample, wenv_sample) =
     Some (Null, wheel_sample, w') \<and> wheel_inv wheel_sample w' (\<lambda>_. []) fr' {}"
proof -
  let ?d = "\<lparr>tp = 31, is_set = True, is_intvl = True\<rparr>"
  have k: "offset_ns (tw_tick_ns wheel_sample) (word_of_int (tp ?d)) = 4" "tw_cap wheel_sample = 4"
    by (simp_all add: offset_ns_def wheel_sample_def)
  have "is_intvl ?d" by simp
  from wheel_insert_accepts [OF wheel_sample_inv this k(1) [symmetric], of True 5 6] show ?thesis
    unfolding k(2) by blast
qed

text \<open>
  C22. \<^verbatim>\<open>timing_wheel_flush\<close> returns, calls the callback of every event on the wheel once, in the order
  of the slots from the current one, reschedules none of them, and leaves the wheel without
  events and the events in the pool.
\<close>

theorem wheel_flush_fires_all:
  assumes inv: "wheel_inv tw w L fr us" and n: "n = unat (tw_cap tw)"
  shows "\<exists>tw' w' L' fr'. timing_wheel_flush (tw, w) = Some (tw', w') \<and>
    wheel_inv tw' w' L' fr' (us - (\<Union>i < n. set (L i))) \<and> (\<forall>i < n. L' i = []) \<and> tw_nevent tw' = 0 \<and>
    we_fired w' = we_fired w @ concat (map (\<lambda>i. fires w (L i)) (visited n (unat (tw_curr tw)) n))"
proof -
  let ?c = "unat (tw_curr tw)"
  have cn: "?c < n" using wheel_curr_lt [OF inv] n by simp
  then obtain m where m: "n = Suc m" by (cases n) auto
  have "(?c + Suc m) mod n = unat (tw_curr tw)" unfolding m [symmetric] using cn by simp
  moreover have "m < n" using m by simp
  ultimately have p: "m < n" "(?c + Suc m) mod n = unat (tw_curr tw)" by simp_all
  from flush_loop_ok [OF inv n refl p] obtain tw' w' L' fr' where
    f: "flush_loop (tw_curr tw) (tw, w) = Some (tw', w')"
      "wheel_inv tw' w' L' fr' (us - (\<Union>i \<in> set (visited n ?c n). set (L i)))"
      "\<forall>i. L' i = (if i \<in> set (visited n ?c n) then [] else L i)" "tw_cap tw' = tw_cap tw"
      "we_fired w' = we_fired w @ concat (map (\<lambda>i. fires w (L i)) (visited n ?c n))"
    unfolding m by blast
  have all: "set (visited n ?c n) = {..<n}" using visited_all [OF cn] visited_set [OF cn, of _ n] cn by auto
  then have "\<forall>i < n. L' i = []" using f(3) by simp
  moreover then have "tw_nevent tw' = 0" using wheel_invD(6) [OF f(2)] f(4) n by simp
  moreover have "wheel_inv tw' w' L' fr' (us - (\<Union>i < n. set (L i)))" using f(2) unfolding all .
  ultimately show ?thesis using f(1,5) by (auto simp: timing_wheel_flush_def)
qed

lemma wheel_sample_full:
  "\<exists>tw w fr. wheel_inv tw w ((\<lambda>_. [])(2 := [0])) fr {0} \<and> tw_cap tw = 4 \<and> tw_curr tw = 3 \<and> fires w [0] = [(0, 5, 6)]"
proof -
  let ?d = "\<lparr>tp = 25, is_set = True, is_intvl = True\<rparr>"
  obtain tw1 w1 where i: "timing_wheel_insert ?d True (Ptr 5) 6 (wheel_sample, wenv_sample) = Some (Ptr 0, tw1, w1)"
    using wheel_sample_insert by blast
  have k: "3 = offset_ns (tw_tick_ns wheel_sample) (word_of_int (tp ?d))" "tw_cap wheel_sample = 4" "tw_curr wheel_sample = 3"
    by (simp_all add: offset_ns_def wheel_sample_def)
  from wheel_sample_inv _ _ k(1) obtain e fr' s where "s = (unat (tw_curr wheel_sample) + unat (3 :: u64)) mod unat (tw_cap wheel_sample)"
      "wheel_inv tw1 w1 ((\<lambda>_. [])(s := [] @ [0])) fr' (insert 0 {})" "wheel_same wheel_sample tw1" "tw_curr tw1 = tw_curr wheel_sample"
      "we_objs w1 0 = Some e" "te_cb e = Ptr 5" "te_data e = 6"
    by (cases rule: timing_wheel_insert_cases [where cb = "Ptr 5" and arg = 6 and recur = True]) (use i in auto)
  then show ?thesis using k(2,3) by (auto simp: fires_def fire_def wheel_same_def intro!: exI [of _ tw1] exI [of _ w1] exI [of _ fr'])
qed

theorem wheel_flush_fires_all_witness:
  "\<exists>tw w tw' w'. tw_cap tw = 4 \<and> timing_wheel_flush (tw, w) = Some (tw', w') \<and> tw_nevent tw' = 0 \<and>
     we_fired w' = we_fired w @ [(0, 5, 6)]"
proof -
  obtain tw w fr where t: "wheel_inv tw w ((\<lambda>_. [])(2 := [0])) fr {0}" "tw_cap tw = 4" "tw_curr tw = 3"
      "fires w [0] = [(0, 5, 6)]"
    using wheel_sample_full by blast
  have "visited 4 3 4 = [3, 0, 1, 2]" by code_simp
  moreover have "fires w [] = []" by (simp add: fires_def)
  ultimately have f: "concat (map (\<lambda>i. fires w (((\<lambda>_. [])(2 := [0])) i)) (visited 4 (unat (tw_curr tw)) 4)) = [(0, 5, 6)]"
    using t(3,4) by simp
  have "4 = unat (tw_cap tw)" using t(2) by simp
  from wheel_flush_fires_all [OF t(1) this] obtain tw' w' where
    "timing_wheel_flush (tw, w) = Some (tw', w')" "tw_nevent tw' = 0" "we_fired w' = we_fired w @ [(0, 5, 6)]"
    unfolding f by blast
  then show ?thesis using t(2) by blast
qed



end
