(* ===== verification/Cc_Util.thy ===== *)
theory Cc_Util
  imports Cc_Prelude
begin

text \<open>
  The helpers of \<^verbatim>\<open>include/cc_util.h\<close>: alignment and rounding on \<^verbatim>\<open>size_t\<close>, and the search for a
  character between two pointers into one array, which are indices here.
\<close>

section \<open>Alignment and rounding\<close>

definition CC_ALIGN :: "u64 \<Rightarrow> u64 \<Rightarrow> u64" where
  "CC_ALIGN d n = (d + (n - 1)) AND NOT (n - 1)"

definition ROUND_UP :: "u64 \<Rightarrow> u64 \<Rightarrow> u64 option" where
  "ROUND_UP x step = c_udiv (x + step - 1) step \<bind> (\<lambda>q. Some (q * step))"

definition ROUND_DOWN :: "u64 \<Rightarrow> u64 \<Rightarrow> u64 option" where
  "ROUND_DOWN x step = c_udiv x step \<bind> (\<lambda>q. Some (q * step))"

lemma unat_div_mult: "unat (a div b * b) = unat a div unat b * unat b" for a b :: "'l::len word"
proof -
  have "unat a div unat b * unat b \<le> unat a" by simp
  then have "unat a div unat b * unat b < 2 ^ LENGTH('l)" by (rule le_less_trans) (rule unsigned_less)
  then show ?thesis by (simp add: unat_word_ariths(2) unat_div)
qed

lemma ROUND_DOWN_ok:
  assumes "0 < step"
  shows "\<exists>r. ROUND_DOWN x step = Some r \<and> unat r = unat x div unat step * unat step"
  using assms unat_div_mult [of x step] by (auto simp: ROUND_DOWN_def c_udiv_def)

text \<open>The result is the least multiple that is not below \<open>x\<close>, unless the sum wraps.\<close>

lemma ROUND_UP_ok:
  assumes "0 < step" "unat x + unat step \<le> 18446744073709551616"
  shows "\<exists>r. ROUND_UP x step = Some r \<and> unat r = (unat x + unat step - 1) div unat step * unat step"
proof -
  have s: "0 < unat step" using assms(1) by (simp add: word_less_nat_alt)
  then have one: "unat (step - 1) = unat step - 1" by (simp add: unat_sub word_le_nat_alt)
  have "unat (x + (step - 1)) = unat x + unat (step - 1)" using assms(2) s one by (intro unat_add_small) simp
  then have "unat (x + step - 1) = unat x + unat step - 1" using s one by (simp add: add_diff_eq)
  then show ?thesis using assms(1) unat_div_mult [of "x + step - 1" step] by (auto simp: ROUND_UP_def c_udiv_def)
qed

lemma round_up_bounds:
  assumes "0 < (s :: nat)"
  shows "x \<le> (x + s - 1) div s * s" "(x + s - 1) div s * s < x + s" "s dvd (x + s - 1) div s * s"
proof -
  have "x + s - 1 < ((x + s - 1) div s + 1) * s"
    using assms dividend_less_div_times [of s "x + s - 1"] by (simp add: algebra_simps)
  then show "x \<le> (x + s - 1) div s * s" by simp
  have "(x + s - 1) div s * s \<le> x + s - 1" by simp
  then show "(x + s - 1) div s * s < x + s" using assms by linarith
qed simp


section \<open>Searching\<close>

text \<open>
  \<open>cc_strchr m p lst c\<close> searches from index \<open>p\<close> up to, and not including, \<open>lst\<close>;
  \<open>cc_strrchr m p start c\<close> searches from \<open>p\<close> down to \<open>start\<close>. A read outside the array \<open>m\<close> is
  undefined; the pointer that steps in front of index 0 only ends the loop.
\<close>

function cc_strchr :: "bytes \<Rightarrow> nat \<Rightarrow> nat \<Rightarrow> u8 \<Rightarrow> nat ptr option" where
  "cc_strchr m p lst c =
     (if p < lst then
        if p < length m then if m ! p = c then Some (Ptr p) else cc_strchr m (p + 1) lst c
        else None
      else Some Null)"
  by pat_completeness auto
termination by (relation "measure (\<lambda>(m, p, lst, c). lst - p)") auto

declare cc_strchr.simps [simp del]

fun cc_strrchr :: "bytes \<Rightarrow> nat \<Rightarrow> nat \<Rightarrow> u8 \<Rightarrow> nat ptr option" where
  "cc_strrchr m 0 start c =
     (if start = 0 then
        if 0 < length m then if m ! 0 = c then Some (Ptr 0) else Some Null
        else None
      else Some Null)"
| "cc_strrchr m (Suc p) start c =
     (if start \<le> Suc p then
        if Suc p < length m then if m ! Suc p = c then Some (Ptr (Suc p)) else cc_strrchr m p start c
        else None
      else Some Null)"

text \<open>The first occurrence, or none.\<close>

lemma cc_strchr_first:
  assumes "lst \<le> length m" "p \<le> lst"
  shows "cc_strchr m p lst c =
    Some (case List.find (\<lambda>i. m ! i = c) [p..<lst] of None \<Rightarrow> Null | Some i \<Rightarrow> Ptr i)"
  using assms
proof (induction m p lst c rule: cc_strchr.induct)
  case (1 m p lst c)
  show ?case
  proof (cases "p < lst")
    case True
    then have "[p..<lst] = p # [p + 1..<lst]" by (simp add: upt_conv_Cons)
    then show ?thesis using 1 True by (simp add: cc_strchr.simps [of m p])
  next
    case False
    then show ?thesis using 1 by (subst cc_strchr.simps) simp
  qed
qed

text \<open>The last occurrence, or none.\<close>

lemma cc_strrchr_last:
  assumes "p < length m" "start \<le> p"
  shows "cc_strrchr m p start c =
    Some (case List.find (\<lambda>i. m ! i = c) (rev [start..<Suc p]) of None \<Rightarrow> Null | Some i \<Rightarrow> Ptr i)"
  using assms
proof (induction p)
  case 0
  then show ?case by simp
next
  case (Suc p)
  show ?case
  proof (cases "start = Suc p")
    case True
    then have "cc_strrchr m p start c = Some Null" by (cases p) auto
    then show ?thesis using Suc True by simp
  next
    case False
    then show ?thesis using Suc by simp
  qed
qed

end
