(* ===== verification/Cc_Print.thy ===== *)
theory Cc_Print
  imports Cc_Util
begin

text \<open>
  Printing of integers, \<^verbatim>\<open>src/cc_print.c\<close> and \<^verbatim>\<open>include/cc_print.h\<close>. A buffer is a list of bytes
  and a position in it; a byte outside the buffer is undefined. \<open>dec\<close> is the decimal
  representation that the printing loops are measured against.
\<close>

section \<open>Definitions\<close>

definition BASE10 :: "u64 list" where
  "BASE10 = [0, 10, 100, 1000, 10000, 100000, 1000000, 10000000, 100000000, 1000000000,
     10000000000, 100000000000, 1000000000000, 10000000000000, 100000000000000,
     1000000000000000, 10000000000000000, 100000000000000000, 1000000000000000000, 10000000000000000000]"

text \<open>The loop of \<^verbatim>\<open>digits\<close>: the table has 20 entries, and reading past it is undefined.\<close>

function digits_loop :: "u64 \<Rightarrow> nat \<Rightarrow> nat option" where
  "digits_loop n d =
     (if d < length BASE10 then if BASE10 ! d \<le> n then digits_loop n (d + 1) else Some d else None)"
  by pat_completeness auto
termination by (relation "measure (\<lambda>(n, d). length BASE10 - d)") auto

declare digits_loop.simps [simp del]

definition digits :: "u64 \<Rightarrow> nat option" where
  "digits n = digits_loop n 1"

text \<open>The loop of \<^verbatim>\<open>_print_uint64\<close>: \<open>p\<close> is one past the next byte to write.\<close>

function print_loop :: "bytes \<Rightarrow> nat \<Rightarrow> u64 \<Rightarrow> bytes option" where
  "print_loop buf p n = do {
     ASSERT (0 < p);
     buf' \<leftarrow> mem_write buf (p - 1) [48 + ucast (n mod 10)];
     if n div 10 > 0 then print_loop buf' (p - 1) (n div 10) else Some buf'
   }"
  by pat_completeness auto
termination by (relation "measure (\<lambda>(buf, p, n). p)") (auto split: if_splits)

declare print_loop.simps [simp del]

definition print_uint64 :: "bytes \<Rightarrow> nat \<Rightarrow> nat \<Rightarrow> u64 \<Rightarrow> bytes option" where
  "print_uint64 buf at d n = print_loop buf (at + d) n"

text \<open>The macro \<^verbatim>\<open>abs_int64\<close>, whose negation overflows on the least \<^verbatim>\<open>int64_t\<close>.\<close>

definition abs_int64 :: "int \<Rightarrow> int option" where
  "abs_int64 x = (if 0 \<le> x then Some x else s64 (- x))"

definition cc_print_uint64_unsafe :: "bytes \<Rightarrow> u64 \<Rightarrow> (nat \<times> bytes) option" where
  "cc_print_uint64_unsafe buf n = do {
     d \<leftarrow> digits n;
     buf' \<leftarrow> print_uint64 buf 0 d n;
     Some (d, buf')
   }"

definition cc_print_int64_unsafe :: "bytes \<Rightarrow> int \<Rightarrow> (nat \<times> bytes) option" where
  "cc_print_int64_unsafe buf n = do {
     x \<leftarrow> abs_int64 n;
     let ab = word_of_int x;
     (buf1, at) \<leftarrow> (if n < 0 then mem_write buf 0 [45] \<bind> (\<lambda>b. Some (b, 1)) else Some (buf, 0));
     d \<leftarrow> digits ab;
     buf2 \<leftarrow> print_uint64 buf1 at d ab;
     Some (d + (if n < 0 then 1 else 0), buf2)
   }"

definition cc_print_uint64 :: "bytes \<Rightarrow> u64 \<Rightarrow> u64 \<Rightarrow> (nat \<times> bytes) option" where
  "cc_print_uint64 buf sz n = do {
     d \<leftarrow> digits n;
     if unat sz < d then Some (0, buf)
     else do {
       buf' \<leftarrow> print_uint64 buf 0 d n;
       Some (d, buf')
     }
   }"

definition cc_print_int64 :: "bytes \<Rightarrow> u64 \<Rightarrow> int \<Rightarrow> (nat \<times> bytes) option" where
  "cc_print_int64 buf sz n = do {
     x \<leftarrow> abs_int64 n;
     let ab = word_of_int x;
     d \<leftarrow> digits ab;
     if unat sz < d + (if n < 0 then 1 else 0) then Some (0, buf)
     else do {
       (buf1, at) \<leftarrow> (if n < 0 then mem_write buf 0 [45] \<bind> (\<lambda>b. Some (b, 1)) else Some (buf, 0));
       buf2 \<leftarrow> print_uint64 buf1 at d (word_of_int n);
       Some (d + (if n < 0 then 1 else 0), buf2)
     }
   }"

text \<open>
  \<^verbatim>\<open>_vscnprintf\<close>, with \<^verbatim>\<open>vsnprintf\<close> (on the format and its arguments) as a parameter: it gives the
  length it would have liked to write and the buffer it wrote. The value is compared with the
  size as an \<^verbatim>\<open>int\<close>.
\<close>

definition vscnprintf :: "(bytes \<Rightarrow> u64 \<Rightarrow> int \<times> bytes) \<Rightarrow> bytes \<Rightarrow> u64 \<Rightarrow> u64 \<times> bytes" where
  "vscnprintf vsnprintf buf sz =
     (let (i, buf') = vsnprintf buf sz
      in (if i \<le> 0 then 0 else if i < sint (ucast sz :: u32) then word_of_int i else sz - 1, buf'))"

text \<open>\<^verbatim>\<open>_scnprintf\<close> passes the result through an \<^verbatim>\<open>int\<close>.\<close>

definition scnprintf :: "(bytes \<Rightarrow> u64 \<Rightarrow> int \<times> bytes) \<Rightarrow> bytes \<Rightarrow> u64 \<Rightarrow> u64 \<times> bytes" where
  "scnprintf vsnprintf buf sz =
     (let (r, buf') = vscnprintf vsnprintf buf sz in (scast (ucast r :: u32), buf'))"


section \<open>The decimal representation\<close>

fun dec :: "nat \<Rightarrow> bytes" where
  "dec n = (if n < 10 then [48 + of_nat n] else dec (n div 10) @ [48 + of_nat (n mod 10)])"

declare dec.simps [simp del]

lemma dec_nonempty [simp]: "dec n \<noteq> []"
  by (subst dec.simps) simp

lemma dec_step: "10 \<le> n \<Longrightarrow> dec n = dec (n div 10) @ [48 + of_nat (n mod 10)]"
  by (subst dec.simps) simp

lemma dec_small: "n < 10 \<Longrightarrow> dec n = [48 + of_nat n]"
  by (subst dec.simps) simp

text \<open>The number of digits, by the powers of ten.\<close>

lemma length_dec_bounds: "n < 10 ^ length (dec n) \<and> (10 \<le> n \<longrightarrow> 10 ^ (length (dec n) - 1) \<le> n)"
proof (induction n rule: dec.induct)
  case (1 n)
  show ?case
  proof (cases "n < 10")
    case False
    note IH = 1 [OF False]
    obtain k where k: "length (dec (n div 10)) = Suc k" by (cases "dec (n div 10)") auto
    have "n div 10 < 10 ^ Suc k" using IH k by simp
    then have "n < 10 * 10 ^ Suc k" by (simp add: div_less_iff_less_mult)
    moreover have "10 ^ k \<le> n div 10" using IH k False by (cases "n div 10 < 10") (auto simp: dec_small)
    then have "10 * 10 ^ k \<le> n" by linarith
    ultimately show ?thesis using False k by (simp add: dec_step)
  qed (simp add: dec_small)
qed

lemma length_dec_eq:
  assumes "n < 10 ^ d" "0 < d" "d = 1 \<or> 10 ^ (d - 1) \<le> n"
  shows "length (dec n) = d"
proof (rule antisym)
  note b = length_dec_bounds [of n]
  show "length (dec n) \<le> d"
  proof (cases "n < 10")
    case False
    then have "10 ^ (length (dec n) - 1) < (10 :: nat) ^ d" using b assms(1) by linarith
    then show ?thesis by (simp add: power_strict_increasing_iff)
  qed (use assms(2) in \<open>simp add: dec_small\<close>)
  show "d \<le> length (dec n)"
  proof (cases "d = 1")
    case False
    then have "10 ^ (d - 1) < (10 :: nat) ^ length (dec n)" using b assms(3) by linarith
    then show ?thesis by (simp add: power_strict_increasing_iff)
  qed (simp add: Suc_leI)
qed

section \<open>What the loops compute\<close>

lemma BASE10_length [simp]: "length BASE10 = 20"
  by (simp add: BASE10_def)

lemma BASE10_nth:
  assumes "0 < d" "d < 20"
  shows "unat (BASE10 ! d) = 10 ^ d"
proof -
  have "list_all (\<lambda>d. unat (BASE10 ! d) = 10 ^ d) [1, 2, 3, 4, 5, 6, 7, 8, 9, 10, 11, 12, 13, 14, 15, 16, 17, 18, 19]"
    by (simp add: BASE10_def)
  moreover have "[1, 2, 3, 4, 5, 6, 7, 8, 9, 10, 11, 12, 13, 14, 15, 16, 17, 18, 19] = [1..<20 :: nat]" by code_simp
  moreover have "d \<in> set [1..<20]" using assms by simp
  ultimately show ?thesis by (simp only: list_all_iff)
qed

lemma digits_loop_ok:
  assumes "unat n < 10 ^ 19" "0 < d" "d < 20" "d = 1 \<or> 10 ^ (d - 1) \<le> unat n"
  shows "digits_loop n d = Some (length (dec (unat n)))"
  using assms
proof (induction n d rule: digits_loop.induct)
  case (1 n d)
  have b: "BASE10 ! d \<le> n \<longleftrightarrow> 10 ^ d \<le> unat n" using BASE10_nth [of d] 1 by (simp add: word_le_nat_alt)
  show ?case
  proof (cases "10 ^ d \<le> unat n")
    case True
    then have "(10 :: nat) ^ d < 10 ^ 19" using "1.prems"(1) by linarith
    then have "d < 19" by (rule power_less_imp_less_exp [rotated]) simp
    then show ?thesis using "1.IH" "1.prems" True b by (subst digits_loop.simps) simp
  next
    case False
    then have "length (dec (unat n)) = d" using "1.prems" by (intro length_dec_eq) auto
    then show ?thesis using "1.prems" False b by (subst digits_loop.simps) simp
  qed
qed

lemma digits_ok: "unat n < 10 ^ 19 \<Longrightarrow> digits n = Some (length (dec (unat n)))"
  by (simp add: digits_def digits_loop_ok)

text \<open>For the numbers of twenty digits the loop reads past the end of its table.\<close>

lemma digits_loop_overrun:
  "10 ^ 19 \<le> unat n \<Longrightarrow> 0 < d \<Longrightarrow> digits_loop n d = None"
proof (induction n d rule: digits_loop.induct)
  case (1 n d)
  show ?case
  proof (cases "d < 20")
    case True
    have "(10 :: nat) ^ d \<le> 10 ^ 19" using True by (intro power_increasing) auto
    then have "BASE10 ! d \<le> n" using BASE10_nth [of d] True "1.prems" by (simp add: word_le_nat_alt)
    then show ?thesis using 1 True by (subst digits_loop.simps) simp
  qed (simp add: digits_loop.simps)
qed

lemma digits_overrun: "10 ^ 19 \<le> unat n \<Longrightarrow> digits n = None"
  by (simp add: digits_def digits_loop_overrun)

lemma ucast_digit: "(48 + ucast (n mod 10) :: u8) = 48 + of_nat (unat n mod 10)" for n :: u64
proof -
  have "of_nat (unat n mod 10) = (of_nat (unat (n mod 10)) :: u8)" by (simp only: unat_mod) simp
  then show ?thesis by (simp only: of_nat_unat)
qed

text \<open>The digits are written from the last one back, in front of position \<open>p\<close>.\<close>

lemma print_loop_ok:
  "length (dec (unat n)) \<le> p \<Longrightarrow> p \<le> length buf \<Longrightarrow>
   print_loop buf p n = Some (take (p - length (dec (unat n))) buf @ dec (unat n) @ drop p buf)"
proof (induction buf p n rule: print_loop.induct)
  case (1 buf p n)
  let ?c = "48 + of_nat (unat n mod 10) :: u8"
  have p: "0 < p" using "1.prems"(1) dec_nonempty [of "unat n"] by (metis le_zero_eq length_0_conv not_gr_zero)
  have w: "mem_write buf (p - 1) [48 + ucast (n mod 10)] = Some (take (p - 1) buf @ ?c # drop p buf)"
    using p "1.prems"(2) by (simp add: mem_write_def ucast_digit)
  show ?case
  proof (cases "unat n < 10")
    case True
    then have "\<not> n div 10 > 0" by (simp add: word_less_nat_alt unat_div)
    then show ?thesis using p w True by (simp add: print_loop.simps [of buf p n] dec_small)
  next
    case False
    then have d: "n div 10 > 0" by (simp add: word_less_nat_alt unat_div div_greater_zero_iff)
    let ?b = "take (p - 1) buf @ ?c # drop p buf" and ?k = "length (dec (unat n div 10))"
    have k: "length (dec (unat n)) = ?k + 1" using False by (simp add: dec_step)
    have "\<not> length buf \<le> p - 1" using p "1.prems"(2) by linarith
    have "print_loop ?b (p - 1) (n div 10) = Some (take (p - 1 - ?k) ?b @ dec (unat n div 10) @ drop (p - 1) ?b)"
      using 1(1) [OF _ w d] p "1.prems" k by (simp add: unat_div)
    moreover have "take (p - 1 - ?k) ?b = take (p - length (dec (unat n))) buf" "drop (p - 1) ?b = ?c # drop p buf"
      using "1.prems" k p \<open>\<not> length buf \<le> p - 1\<close> by (simp_all add: min_def)
    ultimately show ?thesis using p w d False by (simp add: print_loop.simps [of buf p n] dec_step)
  qed
qed

lemma print_loop_underrun:
  "p < length (dec (unat n)) \<Longrightarrow> p \<le> length buf \<Longrightarrow> print_loop buf p n = None"
proof (induction buf p n rule: print_loop.induct)
  case (1 buf p n)
  show ?case
  proof (cases "p = 0")
    case False
    have n: "10 \<le> unat n" using "1.prems"(1) False by (cases "unat n < 10") (simp_all add: dec_small)
    then have d: "n div 10 > 0" by (simp add: word_less_nat_alt unat_div div_greater_zero_iff)
    obtain b where w: "mem_write buf (p - 1) [48 + ucast (n mod 10)] = Some b" "length b = length buf"
      using False "1.prems"(2) by (simp add: mem_write_def)
    have "print_loop b (p - 1) (n div 10) = None"
      using 1(1) [OF _ w(1) d] False "1.prems" n w(2) by (simp add: unat_div dec_step)
    then show ?thesis using False w d by (simp add: print_loop.simps [of buf p n])
  qed (simp add: print_loop.simps)
qed

section \<open>What is printed\<close>

lemma cc_print_uint64_unsafe_ok:
  assumes "unat n < 10 ^ 19" "length (dec (unat n)) \<le> length buf"
  shows "cc_print_uint64_unsafe buf n = Some (length (dec (unat n)), dec (unat n) @ drop (length (dec (unat n))) buf)"
  using assms by (simp add: cc_print_uint64_unsafe_def digits_ok print_uint64_def print_loop_ok)

lemma cc_print_uint64_ok:
  assumes "unat n < 10 ^ 19" "unat sz \<le> length buf"
  shows "cc_print_uint64 buf sz n =
    Some (if unat sz < length (dec (unat n)) then (0, buf)
          else (length (dec (unat n)), dec (unat n) @ drop (length (dec (unat n))) buf))"
  using assms by (simp add: cc_print_uint64_def digits_ok print_uint64_def print_loop_ok)

text \<open>The signed decimal representation.\<close>

definition sdec :: "int \<Rightarrow> bytes" where
  "sdec n = (if n < 0 then 45 # dec (nat (- n)) else dec (nat n))"

lemma abs_int64_ok: "s64_ok n \<Longrightarrow> n \<noteq> - 9223372036854775808 \<Longrightarrow> abs_int64 n = Some \<bar>n\<bar>"
  by (simp add: abs_int64_def s64_def s64_ok_def)

lemma unat_of_s64: "s64_ok n \<Longrightarrow> 0 \<le> n \<Longrightarrow> unat (word_of_int n :: u64) = nat n"
  by (simp add: s64_ok_def unat_eq_nat_uint uint_word_of_int)

lemma cc_print_int64_unsafe_ok:
  assumes n: "s64_ok n" "n \<noteq> - 9223372036854775808" and len: "length (sdec n) \<le> length buf"
  shows "cc_print_int64_unsafe buf n = Some (length (sdec n), sdec n @ drop (length (sdec n)) buf)"
proof -
  let ?m = "nat \<bar>n\<bar>"
  have abs: "abs_int64 n = Some \<bar>n\<bar>" using n by (rule abs_int64_ok)
  have "s64_ok \<bar>n\<bar>" using n by (auto simp: s64_ok_def)
  then have u: "unat (word_of_int \<bar>n\<bar> :: u64) = ?m" by (rule unat_of_s64) simp
  have "?m < 10 ^ 19" using n by (auto simp: s64_ok_def nat_less_iff)
  then have d: "digits (word_of_int \<bar>n\<bar>) = Some (length (dec ?m))" using digits_ok [of "word_of_int \<bar>n\<bar>"] u by simp
  show ?thesis
  proof (cases "n < 0")
    case True
    then have l: "length (dec ?m) + 1 \<le> length buf" using len by (simp add: sdec_def)
    then have w: "mem_write buf 0 [45] = Some (45 # drop 1 buf)" by (simp add: mem_write_def)
    have "print_loop (45 # drop 1 buf) (1 + length (dec ?m)) (word_of_int \<bar>n\<bar>) =
        Some ([45] @ dec ?m @ drop (1 + length (dec ?m)) buf)"
      using print_loop_ok [of "word_of_int \<bar>n\<bar>" "1 + length (dec ?m)" "45 # drop 1 buf"] l u by simp
    then show ?thesis using True abs d w by (simp add: cc_print_int64_unsafe_def print_uint64_def sdec_def)
  next
    case False
    then have "length (dec ?m) \<le> length buf" using len by (simp add: sdec_def)
    then show ?thesis
      using False abs d print_loop_ok [of "word_of_int \<bar>n\<bar>" "length (dec ?m)" buf] u
      by (simp add: cc_print_int64_unsafe_def print_uint64_def sdec_def)
  qed
qed

text \<open>
  The bounded variant is right for numbers that are not negative. For a negative number it hands the
  number itself, not its absolute value, to the printing loop, which then writes in front of the
  buffer: the room is that of the absolute value, the digits those of the number modulo \<open>2 ^ 64\<close>.
\<close>

lemma cc_print_int64_nonneg:
  assumes "s64_ok n" "0 \<le> n" "unat sz \<le> length buf"
  shows "cc_print_int64 buf sz n =
    Some (if unat sz < length (sdec n) then (0, buf) else (length (sdec n), sdec n @ drop (length (sdec n)) buf))"
proof -
  have u: "unat (word_of_int n :: u64) = nat n" using assms(1,2) by (rule unat_of_s64)
  have "nat n < 10 ^ 19" using assms(1,2) by (simp add: s64_ok_def nat_less_iff)
  then have "digits (word_of_int n) = Some (length (dec (nat n)))" using digits_ok [of "word_of_int n"] u by simp
  moreover have "abs_int64 n = Some n" using assms(2) by (simp add: abs_int64_def)
  ultimately show ?thesis
    using assms(2,3) u print_loop_ok [of "word_of_int n" "length (dec (nat n))" buf]
    by (simp add: cc_print_int64_def print_uint64_def sdec_def)
qed

lemma cc_print_int64_negative:
  assumes n: "n < 0" "- (10 ^ 17) < n" and sz: "length (sdec n) \<le> unat sz" "unat sz \<le> length buf"
  shows "cc_print_int64 buf sz n = None"
proof -
  let ?m = "nat (- n)"
  have abs: "abs_int64 n = Some (- n)" using n by (simp add: abs_int64_def s64_def s64_ok_def)
  have "s64_ok (- n)" using n by (simp add: s64_ok_def)
  then have u: "unat (word_of_int (- n) :: u64) = ?m" using n(1) by (intro unat_of_s64) auto
  have m: "?m < 10 ^ 17" using n by (simp add: nat_less_iff)
  then have d: "digits (word_of_int (- n)) = Some (length (dec ?m))" using digits_ok [of "word_of_int (- n)"] u by simp
  have k: "length (dec ?m) \<le> 17"
  proof (cases "?m < 10")
    case False
    then have "10 ^ (length (dec ?m) - 1) < (10 :: nat) ^ 17" using length_dec_bounds [of ?m] m by linarith
    then have "length (dec ?m) - 1 < 17" by (rule power_less_imp_less_exp [rotated]) simp
    then show ?thesis by simp
  qed (simp add: dec_small)
  have "n mod 18446744073709551616 = (n + 18446744073709551616) mod 18446744073709551616" by simp
  also have "\<dots> = n + 18446744073709551616" using n by (intro mod_pos_pos_trivial) auto
  finally have big: "10 ^ 18 \<le> unat (word_of_int n :: u64)"
    using n by (simp add: unat_eq_nat_uint uint_word_of_int le_nat_iff)
  have "18 < length (dec (unat (word_of_int n :: u64)))"
  proof -
    have "(10 :: nat) ^ 18 < 10 ^ length (dec (unat (word_of_int n :: u64)))"
      using length_dec_bounds [of "unat (word_of_int n :: u64)"] big by linarith
    then show ?thesis by (rule power_less_imp_less_exp [rotated]) simp
  qed
  then have "1 + length (dec ?m) < length (dec (unat (word_of_int n :: u64)))" using k by simp
  moreover have l: "length (dec ?m) + 1 \<le> length buf" using sz n(1) by (simp add: sdec_def)
  ultimately have "print_loop (45 # drop 1 buf) (1 + length (dec ?m)) (word_of_int n) = None"
    by (intro print_loop_underrun) auto
  moreover have "mem_write buf 0 [45] = Some (45 # drop 1 buf)" using l by (simp add: mem_write_def)
  ultimately show ?thesis using n(1) abs d sz(1) by (simp add: cc_print_int64_def print_uint64_def sdec_def)
qed

text \<open>A size of zero gives the largest \<^verbatim>\<open>size_t\<close>, where the comment in the source promises zero.\<close>

lemma vscnprintf_zero:
  assumes "0 < i"
  shows "fst (vscnprintf (\<lambda>b _. (i, b)) buf 0) = - 1"
  using assms by (simp add: vscnprintf_def)

lemma sint_u32_small: "n < 2147483648 \<Longrightarrow> sint (of_nat n :: u32) = int n"
  using int_word_sint [of "int n", where 'a = 32] by simp

lemma vscnprintf_fits:
  assumes "vsnprintf buf sz = (i, buf')" "0 < unat sz" "unat sz < 2147483648"
  shows "fst (vscnprintf vsnprintf buf sz) < sz"
proof -
  have sz: "sint (ucast sz :: u32) = int (unat sz)" using sint_u32_small [OF assms(3)] by (simp only: of_nat_unat)
  have one: "unat (sz - 1) = unat sz - 1" using assms(2) by (simp add: unat_sub word_le_nat_alt)
  show ?thesis
  proof (cases "0 < i \<and> i < int (unat sz)")
    case True
    then have "s64_ok i" using assms(3) unfolding s64_ok_def by linarith
    then have "unat (word_of_int i :: u64) = nat i" using True by (intro unat_of_s64) auto
    then show ?thesis using True assms(1) sz by (simp add: vscnprintf_def word_less_nat_alt nat_less_iff)
  next
    case False
    then show ?thesis using assms(1,2) sz one by (auto simp: vscnprintf_def word_less_nat_alt)
  qed
qed

end
