(* ===== verification/Cc_Bstring.thy ===== *)
theory Cc_Bstring
  imports Cc_Print Cc_Mm
begin

text \<open>
  Byte strings, \<^verbatim>\<open>src/cc_bstring.c\<close> and \<^verbatim>\<open>include/cc_bstring.h\<close>: their allocation and copying, the
  parsing of decimal numbers, and the comparisons of short strings. The out-parameter of the
  parsers is the second component of their result.
\<close>

section \<open>Definitions\<close>

record bstring =
  bs_len :: u32
  bs_data :: "bytes ptr"

definition str2bstr :: "bytes \<Rightarrow> bstring" where
  "str2bstr s = \<lparr>bs_len = of_nat (length s), bs_data = Ptr s\<rparr>"

definition null_bstring :: bstring where
  "null_bstring = \<lparr>bs_len = 0, bs_data = Null\<rparr>"

definition bstring_init :: "bstring \<Rightarrow> bstring" where
  "bstring_init b = b\<lparr>bs_len := 0, bs_data := Null\<rparr>"

definition bstring_ok :: "bstring \<Rightarrow> bool" where
  "bstring_ok b \<longleftrightarrow> bs_len b = 0 \<and> bs_data b = Null \<or> bs_len b \<noteq> 0 \<and> bs_data b \<noteq> Null"

definition bstring_deinit :: "bstring \<Rightarrow> bstring option" where
  "bstring_deinit b = do {
     ASSERT (bstring_ok b);
     Some (if bs_data b \<noteq> Null then bstring_init b else b)
   }"

definition bstring_empty :: "bstring \<Rightarrow> bool option" where
  "bstring_empty b = do {
     ASSERT (bstring_ok b);
     Some (bs_len b = 0)
   }"

definition bstring_copy :: "malloc_fn \<Rightarrow> bstring \<Rightarrow> bytes ptr \<Rightarrow> u32 \<Rightarrow> (rstatus \<times> bstring) option" where
  "bstring_copy malloc dst src srclen = do {
     ASSERT (bs_len dst = 0 \<and> bs_data dst = Null);
     ASSERT (src \<noteq> Null \<and> srclen \<noteq> 0);
     case cc_alloc malloc (ucast srclen) of
       Null \<Rightarrow> Some (CC_ENOMEM, dst)
     | Ptr d \<Rightarrow> do {
         d' \<leftarrow> cc_memcpy d 0 (deref src) 0 (unat srclen);
         Some (CC_OK, dst\<lparr>bs_data := Ptr d', bs_len := srclen\<rparr>)
       }
   }"

definition bstring_duplicate :: "malloc_fn \<Rightarrow> bstring \<Rightarrow> bstring \<Rightarrow> (rstatus \<times> bstring) option" where
  "bstring_duplicate malloc dst src = do {
     ASSERT (bs_len dst = 0 \<and> bs_data dst = Null);
     ASSERT (bs_len src \<noteq> 0 \<and> bs_data src \<noteq> Null);
     case cc_alloc malloc (ucast (bs_len src)) of
       Null \<Rightarrow> Some (CC_ENOMEM, dst)
     | Ptr d \<Rightarrow> do {
         d' \<leftarrow> cc_memcpy d 0 (deref (bs_data src)) 0 (unat (bs_len src));
         Some (CC_OK, dst\<lparr>bs_data := Ptr d', bs_len := bs_len src\<rparr>)
       }
   }"

text \<open>\<^verbatim>\<open>memcmp\<close> on the first \<open>n\<close> bytes, as the sign of the first difference.\<close>

fun memcmp_sign :: "bytes \<Rightarrow> bytes \<Rightarrow> nat \<Rightarrow> int option" where
  "memcmp_sign a b 0 = Some 0"
| "memcmp_sign (x # a) (y # b) (Suc n) = (if x < y then Some (- 1) else if y < x then Some 1 else memcmp_sign a b n)"
| "memcmp_sign a b (Suc n) = None"

text \<open>The difference of the lengths is unsigned, as they are.\<close>

definition bstring_compare :: "bstring \<Rightarrow> bstring \<Rightarrow> int option" where
  "bstring_compare s1 s2 =
     (if bs_len s1 \<noteq> bs_len s2 then Some (if bs_len s1 - bs_len s2 > 0 then 256 else - 256)
      else case (bs_data s1, bs_data s2) of
        (Ptr a, Ptr b) \<Rightarrow> memcmp_sign a b (unat (bs_len s1))
      | _ \<Rightarrow> if bs_len s1 = 0 then Some 0 else None)"

definition CC_INT64_MAXLEN :: nat where
  "CC_INT64_MAXLEN = 21"

definition CC_UINT64_MAXLEN :: nat where
  "CC_UINT64_MAXLEN = 21"

definition isdigit :: "u8 \<Rightarrow> bool" where
  "isdigit c \<longleftrightarrow> 48 \<le> c \<and> c \<le> 57"

text \<open>The loop of \<^verbatim>\<open>bstring_atoi64\<close> from \<open>offset\<close> on, with \<open>k\<close> characters to go.\<close>

fun atoi_loop :: "bytes \<Rightarrow> int \<Rightarrow> nat \<Rightarrow> nat \<Rightarrow> int \<Rightarrow> (rstatus \<times> int) option" where
  "atoi_loop s sg offset 0 i64 = Some (CC_OK, i64)"
| "atoi_loop s sg offset (Suc k) i64 = do {
     c \<leftarrow> (if offset < length s then Some (s ! offset) else None);
     if \<not> isdigit c then Some (CC_ERROR, i64)
     else if offset = CC_INT64_MAXLEN - 2 \<and> sg < 0 \<and> i64 = - 922337203685477580 \<and> uint c - 48 > 8
       then Some (CC_ERROR, i64)
     else if offset = CC_INT64_MAXLEN - 2 \<and> sg > 0 \<and> i64 = 922337203685477580 \<and> uint c - 48 > 7
       then Some (CC_ERROR, i64)
     else do {
       a \<leftarrow> s64 (i64 * 10);
       b \<leftarrow> s64 (a + sg * (uint c - 48));
       atoi_loop s sg (offset + 1) k b
     }
   }"

definition bstring_atoi64 :: "int \<Rightarrow> bstring \<Rightarrow> (rstatus \<times> int) option" where
  "bstring_atoi64 i64 str =
     (if bs_len str = 0 \<or> CC_INT64_MAXLEN \<le> unat (bs_len str) then Some (CC_ERROR, i64)
      else case bs_data str of
        Null \<Rightarrow> None
      | Ptr s \<Rightarrow> do {
          c \<leftarrow> (if 0 < length s then Some (s ! 0) else None);
          let (offset, sg) = (if c = 45 then (1, - 1) else (0, 1));
          atoi_loop s sg offset (unat (bs_len str) - offset) 0
        })"

fun atou_loop :: "bytes \<Rightarrow> nat \<Rightarrow> nat \<Rightarrow> u64 \<Rightarrow> (rstatus \<times> u64) option" where
  "atou_loop s offset 0 u64 = Some (CC_OK, u64)"
| "atou_loop s offset (Suc k) u64 = do {
     c \<leftarrow> (if offset < length s then Some (s ! offset) else None);
     if \<not> isdigit c then Some (CC_ERROR, u64)
     else if offset = CC_UINT64_MAXLEN - 2 \<and> u64 = 1844674407370955161 \<and> unat c > 5 + 48 then Some (CC_ERROR, u64)
     else atou_loop s (offset + 1) k (u64 * 10 + ucast (c - 48))
   }"

definition bstring_atou64 :: "bstring \<Rightarrow> (rstatus \<times> u64) option" where
  "bstring_atou64 str =
     (if bs_len str = 0 \<or> CC_UINT64_MAXLEN \<le> unat (bs_len str) then Some (CC_ERROR, 0)
      else case bs_data str of Null \<Rightarrow> None | Ptr s \<Rightarrow> atou_loop s 0 (unat (bs_len str)) 0)"

definition BSTRING_SIZE :: u64 where
  "BSTRING_SIZE = 16"

definition bstring_alloc :: "malloc_fn \<Rightarrow> malloc_fn \<Rightarrow> u32 \<Rightarrow> bstring ptr" where
  "bstring_alloc malloc1 malloc2 sz =
     (case cc_alloc malloc1 BSTRING_SIZE of
        Null \<Rightarrow> Null
      | Ptr _ \<Rightarrow> (case cc_alloc malloc2 (ucast sz) of
                   Null \<Rightarrow> Null
                 | Ptr d \<Rightarrow> Ptr \<lparr>bs_len = sz, bs_data = Ptr d\<rparr>))"

definition bstring_free :: "bstring ptr ptr \<Rightarrow> bstring ptr ptr" where
  "bstring_free p = (case p of Null \<Rightarrow> p | Ptr Null \<Rightarrow> p | Ptr (Ptr _) \<Rightarrow> Ptr Null)"

text \<open>
  The comparisons of short strings, on the bytes at \<open>m\<close>. Four bytes are compared as one \<^verbatim>\<open>int\<close>. A
  \<^verbatim>\<open>char\<close> from 128 on is negative, so that shifting it is undefined, and shifting it into the sign is even
  where characters are unsigned: the model is defined on ASCII bytes, where the \<^verbatim>\<open>int\<close> is the 32-bit word.
\<close>

abbreviation ascii :: "bytes \<Rightarrow> bool" where
  "ascii cs \<equiv> list_all (\<lambda>c. c < 128) cs"

definition and_byte :: "bool \<Rightarrow> bytes \<Rightarrow> nat \<Rightarrow> u8 \<Rightarrow> bool option" where
  "and_byte r m i c = (if r then mem_read m i 1 \<bind> (\<lambda>a. Some (a = [c])) else Some False)"

definition str2cmp :: "bytes \<Rightarrow> u8 \<Rightarrow> u8 \<Rightarrow> bool option" where
  "str2cmp m c0 c1 = and_byte True m 0 c0 \<bind> (\<lambda>r. and_byte r m 1 c1)"

definition str3cmp :: "bytes \<Rightarrow> u8 \<Rightarrow> u8 \<Rightarrow> u8 \<Rightarrow> bool option" where
  "str3cmp m c0 c1 c2 = str2cmp m c0 c1 \<bind> (\<lambda>r. and_byte r m 2 c2)"

definition quad :: "u8 \<Rightarrow> u8 \<Rightarrow> u8 \<Rightarrow> u8 \<Rightarrow> u32 option" where
  "quad a b c d = do {
     ASSERT (ascii [a, b, c, d]);
     Some (push_bit 24 (ucast a) OR push_bit 16 (ucast b) OR push_bit 8 (ucast c) OR ucast d)
   }"

definition str4cmp :: "bytes \<Rightarrow> u8 \<Rightarrow> u8 \<Rightarrow> u8 \<Rightarrow> u8 \<Rightarrow> bool option" where
  "str4cmp m c0 c1 c2 c3 = do {
     a \<leftarrow> mem_read m 0 4;
     x \<leftarrow> quad (a ! 0) (a ! 1) (a ! 2) (a ! 3);
     y \<leftarrow> quad c0 c1 c2 c3;
     Some (x = y)
   }"

definition str5cmp :: "bytes \<Rightarrow> u8 \<Rightarrow> u8 \<Rightarrow> u8 \<Rightarrow> u8 \<Rightarrow> u8 \<Rightarrow> bool option" where
  "str5cmp m c0 c1 c2 c3 c4 = str4cmp m c0 c1 c2 c3 \<bind> (\<lambda>r. and_byte r m 4 c4)"

definition str6cmp :: "bytes \<Rightarrow> u8 \<Rightarrow> u8 \<Rightarrow> u8 \<Rightarrow> u8 \<Rightarrow> u8 \<Rightarrow> u8 \<Rightarrow> bool option" where
  "str6cmp m c0 c1 c2 c3 c4 c5 = str5cmp m c0 c1 c2 c3 c4 \<bind> (\<lambda>r. and_byte r m 5 c5)"

definition str7cmp :: "bytes \<Rightarrow> u8 \<Rightarrow> u8 \<Rightarrow> u8 \<Rightarrow> u8 \<Rightarrow> u8 \<Rightarrow> u8 \<Rightarrow> u8 \<Rightarrow> bool option" where
  "str7cmp m c0 c1 c2 c3 c4 c5 c6 = str6cmp m c0 c1 c2 c3 c4 c5 \<bind> (\<lambda>r. and_byte r m 6 c6)"

definition str8cmp :: "bytes \<Rightarrow> u8 \<Rightarrow> u8 \<Rightarrow> u8 \<Rightarrow> u8 \<Rightarrow> u8 \<Rightarrow> u8 \<Rightarrow> u8 \<Rightarrow> u8 \<Rightarrow> bool option" where
  "str8cmp m c0 c1 c2 c3 c4 c5 c6 c7 =
     str4cmp m c0 c1 c2 c3 \<bind> (\<lambda>r. if r then str4cmp (drop 4 m) c4 c5 c6 c7 else Some False)"

definition str9cmp :: "bytes \<Rightarrow> u8 \<Rightarrow> u8 \<Rightarrow> u8 \<Rightarrow> u8 \<Rightarrow> u8 \<Rightarrow> u8 \<Rightarrow> u8 \<Rightarrow> u8 \<Rightarrow> u8 \<Rightarrow> bool option" where
  "str9cmp m c0 c1 c2 c3 c4 c5 c6 c7 c8 = str8cmp m c0 c1 c2 c3 c4 c5 c6 c7 \<bind> (\<lambda>r. and_byte r m 8 c8)"

definition str10cmp ::
  "bytes \<Rightarrow> u8 \<Rightarrow> u8 \<Rightarrow> u8 \<Rightarrow> u8 \<Rightarrow> u8 \<Rightarrow> u8 \<Rightarrow> u8 \<Rightarrow> u8 \<Rightarrow> u8 \<Rightarrow> u8 \<Rightarrow> bool option" where
  "str10cmp m c0 c1 c2 c3 c4 c5 c6 c7 c8 c9 = str9cmp m c0 c1 c2 c3 c4 c5 c6 c7 c8 \<bind> (\<lambda>r. and_byte r m 9 c9)"

definition str11cmp ::
  "bytes \<Rightarrow> u8 \<Rightarrow> u8 \<Rightarrow> u8 \<Rightarrow> u8 \<Rightarrow> u8 \<Rightarrow> u8 \<Rightarrow> u8 \<Rightarrow> u8 \<Rightarrow> u8 \<Rightarrow> u8 \<Rightarrow> u8 \<Rightarrow> bool option" where
  "str11cmp m c0 c1 c2 c3 c4 c5 c6 c7 c8 c9 c10 =
     str10cmp m c0 c1 c2 c3 c4 c5 c6 c7 c8 c9 \<bind> (\<lambda>r. and_byte r m 10 c10)"

definition str12cmp ::
  "bytes \<Rightarrow> u8 \<Rightarrow> u8 \<Rightarrow> u8 \<Rightarrow> u8 \<Rightarrow> u8 \<Rightarrow> u8 \<Rightarrow> u8 \<Rightarrow> u8 \<Rightarrow> u8 \<Rightarrow> u8 \<Rightarrow> u8 \<Rightarrow> u8 \<Rightarrow> bool option" where
  "str12cmp m c0 c1 c2 c3 c4 c5 c6 c7 c8 c9 c10 c11 =
     str8cmp m c0 c1 c2 c3 c4 c5 c6 c7 \<bind> (\<lambda>r. if r then str4cmp (drop 8 m) c8 c9 c10 c11 else Some False)"


section \<open>The value of a string of digits\<close>

definition numval :: "nat \<Rightarrow> bytes \<Rightarrow> nat" where
  "numval a ds = foldl (\<lambda>v c. v * 10 + (unat c - 48)) a ds"

lemma numval_simps [simp]:
  "numval a [] = a" "numval a (c # ds) = numval (a * 10 + (unat c - 48)) ds"
  "numval a (xs @ ys) = numval (numval a xs) ys"
  by (simp_all add: numval_def)

lemma numval_ge: "a \<le> numval a ds"
proof (induction ds arbitrary: a)
  case (Cons c ds)
  have "a \<le> a * 10 + (unat c - 48)" by simp
  also have "\<dots> \<le> numval (a * 10 + (unat c - 48)) ds" by (rule Cons.IH)
  finally show ?case by simp
qed simp

lemma digit_byte: "d < 10 \<Longrightarrow> unat (48 + of_nat d :: u8) = 48 + d"
proof -
  assume "d < 10"
  then have "unat (of_nat d :: u8) = d" by (simp add: unat_of_nat)
  then show ?thesis using \<open>d < 10\<close> by (simp add: unat_word_ariths(1))
qed

lemma isdigit_nat: "isdigit c \<longleftrightarrow> 48 \<le> unat c \<and> unat c \<le> 57"
  by (simp add: isdigit_def word_le_nat_alt)

lemma dec_digits: "c \<in> set (dec n) \<Longrightarrow> isdigit c"
proof (induction n rule: dec.induct)
  case (1 n)
  then show ?case
    by (cases "n < 10") (auto simp: dec_small dec_step isdigit_nat digit_byte)
qed

lemma numval_dec: "numval 0 (dec n) = n"
proof (induction n rule: dec.induct)
  case (1 n)
  then show ?case by (cases "n < 10") (simp_all add: dec_small dec_step digit_byte)
qed

section \<open>Parsing\<close>

lemma window_Suc: "i < length xs \<Longrightarrow> window xs i (Suc k) = xs ! i # window xs (Suc i) k"
  by (simp add: window_def Cons_nth_drop_Suc [symmetric])

lemma digit_step:
  fixes u :: u64
  assumes "isdigit c" "unat u * 10 + (unat c - 48) < 18446744073709551616"
  shows "unat (u * 10 + ucast (c - 48)) = unat u * 10 + (unat c - 48)"
proof -
  have c: "48 \<le> unat c" "unat c \<le> 57" using assms(1) by (simp_all add: isdigit_nat)
  have d: "unat (c - 48) = unat c - 48" using c(1) by (simp add: unat_sub word_le_nat_alt)
  have ud: "unat (ucast (c - 48) :: u64) = unat c - 48" using d c by (simp add: unsigned_ucast_eq take_bit_nat_eq_self)
  have m: "unat (u * 10) = unat u * 10" using assms(2) by (intro unat_mult_small [of u 10, simplified]) simp
  show ?thesis using unat_add_small [of "u * 10" "ucast (c - 48)"] m ud assms(2) by simp
qed

lemma atou_loop_ok:
  assumes "offset + k \<le> length s" "\<forall>c \<in> set (window s offset k). isdigit c"
    "numval (unat u) (window s offset k) < 18446744073709551616"
  shows "atou_loop s offset k u = Some (CC_OK, of_nat (numval (unat u) (window s offset k)))"
  using assms
proof (induction k arbitrary: offset u)
  case (Suc k)
  let ?c = "s ! offset"
  have win: "window s offset (Suc k) = ?c # window s (Suc offset) k" using Suc.prems(1) by (intro window_Suc) simp
  have dig: "isdigit ?c" using Suc.prems(2) win by simp
  have v: "numval (unat u * 10 + (unat ?c - 48)) (window s (Suc offset) k) < 18446744073709551616"
    using Suc.prems(3) win by simp
  have lt: "unat u * 10 + (unat ?c - 48) < 18446744073709551616"
    using numval_ge [of "unat u * 10 + (unat ?c - 48)" "window s (Suc offset) k"] v by linarith
  have st: "unat (u * 10 + ucast (?c - 48)) = unat u * 10 + (unat ?c - 48)" using digit_step [OF dig lt] .
  have "\<not> (u = 1844674407370955161 \<and> 53 < unat ?c)" using lt by auto
  moreover have "atou_loop s (Suc offset) k (u * 10 + ucast (?c - 48)) =
      Some (CC_OK, of_nat (numval (unat u) (window s offset (Suc k))))"
    using Suc.IH [of "Suc offset" "u * 10 + ucast (?c - 48)"] Suc.prems(1,2) v win st by simp
  ultimately show ?case using dig Suc.prems(1) by auto
qed simp

lemma atou_loop_nondigit:
  "offset + k \<le> length s \<Longrightarrow> \<exists>c \<in> set (window s offset k). \<not> isdigit c \<Longrightarrow> \<exists>v. atou_loop s offset k u = Some (CC_ERROR, v)"
proof (induction k arbitrary: offset u)
  case (Suc k)
  have "window s offset (Suc k) = s ! offset # window s (Suc offset) k" using Suc.prems(1) by (intro window_Suc) simp
  then show ?case using Suc.IH [of "Suc offset"] Suc.prems by (cases "isdigit (s ! offset)") auto
qed simp

lemma atoi_loop_ok:
  assumes "offset + k \<le> length s" "\<forall>c \<in> set (window s offset k). isdigit c" "sg = 1 \<or> sg = - 1"
    "s64_ok (sg * int (numval a (window s offset k)))" "i = sg * int a"
  shows "atoi_loop s sg offset k i = Some (CC_OK, sg * int (numval a (window s offset k)))"
  using assms
proof (induction k arbitrary: offset a i)
  case (Suc k)
  define c where "c = s ! offset"
  define d where "d = unat c - 48"
  let ?a = "a * 10 + d"
  have win: "window s offset (Suc k) = c # window s (Suc offset) k"
    using Suc.prems(1) unfolding c_def by (intro window_Suc) simp
  have dig: "isdigit c" using Suc.prems(2) win by simp
  then have "48 \<le> unat c" by (simp add: isdigit_nat)
  then have ci: "uint c - 48 = int d" unfolding d_def uint_nat by linarith
  define n where "n = numval ?a (window s (Suc offset) k)"
  have n: "numval a (window s offset (Suc k)) = n" unfolding n_def win by (simp add: d_def)
  have v: "s64_ok (sg * int n)" using Suc.prems(4) n by simp
  have ge: "a * 10 + d \<le> n" unfolding n_def by (rule numval_ge)
  have ok: "s64_ok (sg * int ?a)" "s64_ok (sg * int a * 10)"
    using v ge Suc.prems(3) unfolding s64_ok_def by auto
  have nover: "\<not> (sg < 0 \<and> i = - 922337203685477580 \<and> 8 < int d)" "\<not> (0 < sg \<and> i = 922337203685477580 \<and> 7 < int d)"
    using ok(1) Suc.prems(3,5) unfolding s64_ok_def by auto
  have "sg * int a * 10 + sg * int d = sg * int ?a" by (simp add: algebra_simps)
  moreover have "atoi_loop s sg (Suc offset) k (sg * int ?a) = Some (CC_OK, sg * int n)"
    using Suc.IH [of "Suc offset" ?a "sg * int ?a"] Suc.prems(1-3) win v n_def by simp
  ultimately show ?case
    using dig Suc.prems(1,5) ok nover n ci by (auto simp: s64_in c_def [symmetric])
qed simp

text \<open>The bytes a string names.\<close>

definition bs_bytes :: "bstring \<Rightarrow> bytes" where
  "bs_bytes b = (case bs_data b of Null \<Rightarrow> [] | Ptr s \<Rightarrow> take (unat (bs_len b)) s)"

definition bs_valid :: "bstring \<Rightarrow> bool" where
  "bs_valid b \<longleftrightarrow> (case bs_data b of Null \<Rightarrow> bs_len b = 0 | Ptr s \<Rightarrow> unat (bs_len b) \<le> length s)"

lemma atou64_window:
  assumes "bs_valid b" "bs_bytes b \<noteq> []" "length (bs_bytes b) \<le> 20"
  shows "\<exists>s. bs_data b = Ptr s \<and> unat (bs_len b) \<le> length s \<and> bs_bytes b = window s 0 (unat (bs_len b)) \<and>
    bs_len b \<noteq> 0 \<and> unat (bs_len b) \<le> 20"
  using assms by (auto simp: bs_valid_def bs_bytes_def window_def split: ptr.splits)

lemma bstring_atoi64_signed:
  assumes b: "bs_valid b" "bs_bytes b = (if neg then 45 # ds else ds)" and ds: "ds \<noteq> []" "\<forall>c \<in> set ds. isdigit c"
    and len: "length (bs_bytes b) \<le> 20" and v: "s64_ok (if neg then - int (numval 0 ds) else int (numval 0 ds))"
  shows "bstring_atoi64 x b = Some (CC_OK, if neg then - int (numval 0 ds) else int (numval 0 ds))"
proof -
  have "bs_bytes b \<noteq> []" using b(2) ds(1) by (cases neg) auto
  then obtain s where s: "bs_data b = Ptr s" "unat (bs_len b) \<le> length s" "bs_bytes b = window s 0 (unat (bs_len b))"
      "bs_len b \<noteq> 0" "unat (bs_len b) \<le> 20"
    using atou64_window [OF b(1) _ len] by blast
  have l: "0 < unat (bs_len b)" using s(4) by (simp add: unat_gt_0)
  then obtain k where k: "unat (bs_len b) = Suc k" by (cases "unat (bs_len b)") auto
  have s0: "0 < length s" using s(2) k by linarith
  then have hd: "window s 0 (Suc k) = s ! 0 # window s 1 k" using window_Suc [of 0 s k] by simp
  show ?thesis
  proof (cases neg)
    case True
    then have d: "s ! 0 = 45" "ds = window s 1 k" using b(2) s(3) k hd by simp_all
    then have "atoi_loop s (- 1) 1 k 0 = Some (CC_OK, - 1 * int (numval 0 ds))"
      using atoi_loop_ok [of 1 k s "- 1" 0 0] s(2) k ds(2) v True by simp
    then show ?thesis
      using s s0 k d(1) True by (simp add: bstring_atoi64_def CC_INT64_MAXLEN_def)
  next
    case False
    then have d: "ds = window s 0 (Suc k)" using b(2) s(3) k by simp
    then have "isdigit (s ! 0)" using ds(2) hd by simp
    then have "s ! 0 \<noteq> 45" by (auto simp: isdigit_def)
    moreover have "atoi_loop s 1 0 (Suc k) 0 = Some (CC_OK, 1 * int (numval 0 ds))"
      using atoi_loop_ok [of 0 "Suc k" s 1 0 0] s(2) k ds(2) v False d by simp
    ultimately show ?thesis
      using s s0 k False by (simp add: bstring_atoi64_def CC_INT64_MAXLEN_def)
  qed
qed


section \<open>Comparing and copying\<close>

text \<open>Four bytes packed into a word can be taken out again.\<close>

definition quad_word :: "u8 \<Rightarrow> u8 \<Rightarrow> u8 \<Rightarrow> u8 \<Rightarrow> u32" where
  "quad_word a b c d = push_bit 24 (ucast a) OR push_bit 16 (ucast b) OR push_bit 8 (ucast c) OR ucast d"

lemma quad_word_bytes:
  "ucast (drop_bit 24 (quad_word a b c d)) = a" "ucast (drop_bit 16 (quad_word a b c d)) = b"
  "ucast (drop_bit 8 (quad_word a b c d)) = c" "ucast (quad_word a b c d) = d"
  unfolding quad_word_def by (rule bit_word_eqI; auto simp: bit_simps dest: bit_imp_le_length)+

lemma quad_word_inj: "quad_word a b c d = quad_word a' b' c' d' \<longleftrightarrow> a = a' \<and> b = b' \<and> c = c' \<and> d = d'"
  using quad_word_bytes by metis

lemma quad_Some: "ascii [a, b, c, d] \<Longrightarrow> quad a b c d = Some (quad_word a b c d)"
  by (simp add: quad_def quad_word_def)

lemma take4: "4 \<le> length m \<Longrightarrow> take 4 m = [m ! 0, m ! 1, m ! 2, m ! 3]"
  by (rule nth_equalityI) (auto simp: numeral_eq_Suc less_Suc_eq)

lemma str4cmp_ok:
  assumes "4 \<le> length m" "ascii (take 4 m)" "ascii [c0, c1, c2, c3]"
  shows "str4cmp m c0 c1 c2 c3 = Some (take 4 m = [c0, c1, c2, c3])"
  using assms by (simp add: str4cmp_def mem_read_def take4 quad_Some quad_word_inj)

lemma ascii_take: "ascii (take n m) \<Longrightarrow> k \<le> n \<Longrightarrow> ascii (take k m)"
  by (auto simp: list_all_iff dest: set_take_subset_set_take [THEN subsetD])

lemma take_drop_split: "n + k \<le> length m \<Longrightarrow> length xs = n \<Longrightarrow>
  (take (n + k) m = xs @ ys) = (take n m = xs \<and> take k (drop n m) = ys)"
  by (simp add: take_add append_eq_append_conv)

lemma and_byte_ok:
  assumes "i < length m" "length xs = i"
  shows "and_byte (take i m = xs) m i c = Some (take (i + 1) m = xs @ [c])"
  using assms take_drop_split [of i 1 m xs "[c]"] by (auto simp: and_byte_def mem_read_def)

lemma str2cmp_ok: "2 \<le> length m \<Longrightarrow> str2cmp m c0 c1 = Some (take 2 m = [c0, c1])"
  using and_byte_ok [of 0 m "[]" c0] and_byte_ok [of 1 m "[c0]" c1]
  by (cases m) (fastforce simp: str2cmp_def numeral_2_eq_2)+

lemma str3cmp_ok: "3 \<le> length m \<Longrightarrow> str3cmp m c0 c1 c2 = Some (take 3 m = [c0, c1, c2])"
  using and_byte_ok [of 2 m "[c0, c1]" c2] by (auto simp: str3cmp_def str2cmp_ok)

lemma str5cmp_ok:
  assumes "5 \<le> length m" "ascii (take 4 m)" "ascii [c0, c1, c2, c3]"
  shows "str5cmp m c0 c1 c2 c3 c4 = Some (take 5 m = [c0, c1, c2, c3, c4])"
  using assms and_byte_ok [of 4 m "[c0, c1, c2, c3]" c4] by (simp add: str5cmp_def str4cmp_ok)

lemma str6cmp_ok:
  assumes "6 \<le> length m" "ascii (take 4 m)" "ascii [c0, c1, c2, c3]"
  shows "str6cmp m c0 c1 c2 c3 c4 c5 = Some (take 6 m = [c0, c1, c2, c3, c4, c5])"
  using assms and_byte_ok [of 5 m "[c0, c1, c2, c3, c4]" c5] by (simp add: str6cmp_def str5cmp_ok)

lemma str7cmp_ok:
  assumes "7 \<le> length m" "ascii (take 4 m)" "ascii [c0, c1, c2, c3]"
  shows "str7cmp m c0 c1 c2 c3 c4 c5 c6 = Some (take 7 m = [c0, c1, c2, c3, c4, c5, c6])"
  using assms and_byte_ok [of 6 m "[c0, c1, c2, c3, c4, c5]" c6] by (simp add: str7cmp_def str6cmp_ok)

lemma str8cmp_ok:
  assumes "8 \<le> length m" "ascii (take 8 m)" "ascii [c0, c1, c2, c3, c4, c5, c6, c7]"
  shows "str8cmp m c0 c1 c2 c3 c4 c5 c6 c7 = Some (take 8 m = [c0, c1, c2, c3, c4, c5, c6, c7])"
proof -
  have "ascii (take 4 m @ take 4 (drop 4 m))" using assms(2) take_add [of 4 4 m] by simp
  then show ?thesis
    using assms str4cmp_ok [of "drop 4 m" c4] take_drop_split [of 4 4 m "[c0, c1, c2, c3]" "[c4, c5, c6, c7]"]
    by (simp add: str8cmp_def str4cmp_ok)
qed

lemma str9cmp_ok:
  assumes "9 \<le> length m" "ascii (take 8 m)" "ascii [c0, c1, c2, c3, c4, c5, c6, c7]"
  shows "str9cmp m c0 c1 c2 c3 c4 c5 c6 c7 c8 = Some (take 9 m = [c0, c1, c2, c3, c4, c5, c6, c7, c8])"
  using assms and_byte_ok [of 8 m "[c0, c1, c2, c3, c4, c5, c6, c7]" c8] by (simp add: str9cmp_def str8cmp_ok)

lemma str10cmp_ok:
  assumes "10 \<le> length m" "ascii (take 8 m)" "ascii [c0, c1, c2, c3, c4, c5, c6, c7]"
  shows "str10cmp m c0 c1 c2 c3 c4 c5 c6 c7 c8 c9 = Some (take 10 m = [c0, c1, c2, c3, c4, c5, c6, c7, c8, c9])"
  using assms and_byte_ok [of 9 m "[c0, c1, c2, c3, c4, c5, c6, c7, c8]" c9] by (simp add: str10cmp_def str9cmp_ok)

lemma str11cmp_ok:
  assumes "11 \<le> length m" "ascii (take 8 m)" "ascii [c0, c1, c2, c3, c4, c5, c6, c7]"
  shows "str11cmp m c0 c1 c2 c3 c4 c5 c6 c7 c8 c9 c10 = Some (take 11 m = [c0, c1, c2, c3, c4, c5, c6, c7, c8, c9, c10])"
  using assms and_byte_ok [of 10 m "[c0, c1, c2, c3, c4, c5, c6, c7, c8, c9]" c10] by (simp add: str11cmp_def str10cmp_ok)

text \<open>A copy has the bytes of the original, or there was no memory for it and nothing changed.\<close>

lemma bstring_copy_ok:
  assumes "malloc_spec malloc" "bs_len dst = 0" "bs_data dst = Null" "srclen \<noteq> 0" "unat srclen \<le> length src"
  shows "bstring_copy malloc dst (Ptr src) srclen = Some (CC_ENOMEM, dst) \<and> cc_alloc malloc (ucast srclen) = Null \<or>
    (\<exists>b. bstring_copy malloc dst (Ptr src) srclen = Some (CC_OK, b) \<and> bs_valid b \<and> bs_bytes b = take (unat srclen) src)"
proof (cases "cc_alloc malloc (ucast srclen)")
  case (Ptr d)
  then have "length d = unat srclen" using cc_alloc_length [OF assms(1) Ptr] by simp
  then show ?thesis using Ptr assms by (simp add: bstring_copy_def mem_simps bs_valid_def bs_bytes_def)
qed (use assms in \<open>simp add: bstring_copy_def\<close>)

lemma bstring_duplicate_is_copy:
  "bs_data src \<noteq> Null \<Longrightarrow> bstring_duplicate malloc dst src = bstring_copy malloc dst (bs_data src) (bs_len src)"
  by (simp add: bstring_duplicate_def bstring_copy_def)


section \<open>Properties\<close>

text \<open>
  C25. Printing a signed number and parsing it back. For every \<^verbatim>\<open>int64_t\<close> except the least,
  \<^verbatim>\<open>cc_print_int64_unsafe\<close> into a buffer that is large enough returns a length such that
  \<^verbatim>\<open>bstring_atoi64\<close> reads the number back from that many bytes.
\<close>

theorem print_atoi64_roundtrip:
  assumes n: "s64_ok n" "n \<noteq> - 9223372036854775808" and buf: "20 \<le> length buf"
  shows "\<exists>d buf'. cc_print_int64_unsafe buf n = Some (d, buf') \<and>
    bstring_atoi64 x \<lparr>bs_len = of_nat d, bs_data = Ptr buf'\<rparr> = Some (CC_OK, n)"
proof -
  let ?m = "nat \<bar>n\<bar>" and ?d = "length (sdec n)"
  have m: "?m < 10 ^ 19" using n by (auto simp: s64_ok_def nat_less_iff)
  have l: "length (dec ?m) \<le> 19"
  proof (cases "?m < 10")
    case False
    then have "10 ^ (length (dec ?m) - 1) < (10 :: nat) ^ 19" using length_dec_bounds [of ?m] m by linarith
    then have "length (dec ?m) - 1 < 19" by (rule power_less_imp_less_exp [rotated]) simp
    then show ?thesis by simp
  qed (simp add: dec_small)
  have sd: "sdec n = (if n < 0 then 45 # dec ?m else dec ?m)" by (simp add: sdec_def)
  then have dl: "?d \<le> 20" "0 < ?d" using l by (auto simp: Suc_leI)
  let ?b = "\<lparr>bs_len = of_nat ?d, bs_data = Ptr (sdec n @ drop ?d buf)\<rparr>"
  have pr: "cc_print_int64_unsafe buf n = Some (?d, sdec n @ drop ?d buf)"
    using n dl(1) buf by (intro cc_print_int64_unsafe_ok) auto
  have u: "unat (of_nat ?d :: u32) = ?d" using dl(1) by (intro unat_of_nat_32) simp
  then have b: "bs_valid ?b" "bs_bytes ?b = sdec n" using u by (simp_all add: bs_valid_def bs_bytes_def)
  have "s64_ok (if n < 0 then - int (numval 0 (dec ?m)) else int (numval 0 (dec ?m)))"
    using n by (simp add: numval_dec)
  then have "bstring_atoi64 x ?b = Some (CC_OK, if n < 0 then - int (numval 0 (dec ?m)) else int (numval 0 (dec ?m)))"
    using b sd dl(1) dec_digits by (intro bstring_atoi64_signed) auto
  then show ?thesis using pr by (auto simp: numval_dec)
qed

theorem print_atoi64_roundtrip_witness:
  "\<exists>d buf'. cc_print_int64_unsafe (replicate 20 0) (- 1234) = Some (d, buf') \<and>
     bstring_atoi64 0 \<lparr>bs_len = of_nat d, bs_data = Ptr buf'\<rparr> = Some (CC_OK, - 1234)"
  by (rule print_atoi64_roundtrip) (simp_all add: s64_ok_def)



text \<open>What the overflow checks of the two parsers let through, and the length test of the comparison.\<close>

lemma atou64_wraps:
  "bstring_atou64 (str2bstr (replicate 20 57)) = Some (CC_OK, 7766279631452241919)"
  by code_simp

lemma atoi64_overflows:
  "bstring_atoi64 0 (str2bstr (57 # 51 # replicate 17 48)) = None"
  by code_simp

lemma atoi64_bare_minus: "bstring_atoi64 x (str2bstr [45]) = Some (CC_OK, 0)"
  by (simp add: str2bstr_def bstring_atoi64_def CC_INT64_MAXLEN_def)

lemma bstring_compare_lengths:
  "bs_len s1 \<noteq> bs_len s2 \<Longrightarrow> bstring_compare s1 s2 = Some 256"
  by (simp add: bstring_compare_def word_neq_0_conv [symmetric])

lemma memcmp_sign_eq: "n \<le> length a \<Longrightarrow> n \<le> length b \<Longrightarrow>
  \<exists>r. memcmp_sign a b n = Some r \<and> (r = 0 \<longleftrightarrow> take n a = take n b)"
  by (induction a b n rule: memcmp_sign.induct) (auto simp: less_le)

text \<open>
  C40. The packed comparison of twelve bytes, three \<^verbatim>\<open>int\<close> comparisons, is true exactly when the twelve
  bytes are the given ones, for ASCII bytes.
\<close>

theorem str12cmp_is_equality:
  assumes m: "12 \<le> length m" "ascii (take 12 m)" and c: "ascii [c0, c1, c2, c3, c4, c5, c6, c7, c8, c9, c10, c11]"
  shows "str12cmp m c0 c1 c2 c3 c4 c5 c6 c7 c8 c9 c10 c11 =
    Some (take 12 m = [c0, c1, c2, c3, c4, c5, c6, c7, c8, c9, c10, c11])"
proof -
  have "ascii (take 8 m @ take 4 (drop 8 m))" using m(2) take_add [of 8 4 m] by simp
  then show ?thesis
    using assms str4cmp_ok [of "drop 8 m" c8]
      take_drop_split [of 8 4 m "[c0, c1, c2, c3, c4, c5, c6, c7]" "[c8, c9, c10, c11]"]
    by (simp add: str12cmp_def str8cmp_ok)
qed

theorem str12cmp_is_equality_witness:
  "str12cmp [1, 2, 3, 4, 5, 6, 7, 8, 9, 10, 11, 12, 13] 1 2 3 4 5 6 7 8 9 10 11 12 = Some True"
  using str12cmp_is_equality [of "[1, 2, 3, 4, 5, 6, 7, 8, 9, 10, 11, 12, 13]" 1 2 3 4 5 6 7 8 9 10 11 12] by simp

end
