(* ===== verification/Cc_Expr.thy ===== *)
theory Cc_Expr
  imports Cc_Bstring
begin

text \<open>
  The integer expressions of the option module (\<^verbatim>\<open>src/src/cc_option.c\<close>): the conversion to reverse
  Polish notation by the shunting-yard algorithm and the evaluation of its result. The theory shows
  that no input of at most 341 characters leaves the buffers of either step, that the overflow checks
  of the evaluation are exact, and what the pair computes on the expressions it handles; the last
  section has the inputs on which it computes something else.

  A C string is the list of the bytes before its terminator. The stacks have their top at the head of
  a list; each push and each byte written is checked against the size of its array.
\<close>

definition OPTLINE_MAXLEN :: nat where
  "OPTLINE_MAXLEN = 1024"

abbreviation ch_plus :: u8 where "ch_plus \<equiv> 43"
abbreviation ch_minus :: u8 where "ch_minus \<equiv> 45"
abbreviation ch_star :: u8 where "ch_star \<equiv> 42"
abbreviation ch_slash :: u8 where "ch_slash \<equiv> 47"
abbreviation ch_open :: u8 where "ch_open \<equiv> 40"
abbreviation ch_close :: u8 where "ch_close \<equiv> 41"
abbreviation ch_space :: u8 where "ch_space \<equiv> 32"
abbreviation ch_tab :: u8 where "ch_tab \<equiv> 9"

definition isop :: "u8 \<Rightarrow> bool" where
  "isop c \<longleftrightarrow> c = ch_plus \<or> c = ch_minus \<or> c = ch_star \<or> c = ch_slash"

definition iswhite :: "u8 \<Rightarrow> bool" where
  "iswhite c \<longleftrightarrow> c = ch_space \<or> c = ch_tab"


section \<open>Conversion to reverse Polish notation\<close>

definition option_comp_op_precedence :: "u8 \<Rightarrow> u8 \<Rightarrow> bool" where
  "option_comp_op_precedence op1 op2 \<longleftrightarrow>
     (op1 = ch_star \<or> op1 = ch_slash) \<and> (op2 = ch_plus \<or> op2 = ch_minus)"

definition put :: "bytes \<Rightarrow> u8 \<Rightarrow> bytes option" where
  "put rpn c = (if length rpn < OPTLINE_MAXLEN then Some (rpn @ [c]) else None)"

definition push_op :: "bytes \<Rightarrow> u8 \<Rightarrow> bytes option" where
  "push_op st c = (if length st < OPTLINE_MAXLEN then Some (c # st) else None)"

fun pop_higher :: "u8 \<Rightarrow> bytes \<Rightarrow> bytes \<Rightarrow> (bytes \<times> bytes) option" where
  "pop_higher c rpn [] = Some (rpn, [])"
| "pop_higher c rpn (t # st) =
     (if t \<noteq> ch_open \<and> option_comp_op_precedence t c then put rpn t \<bind> (\<lambda>rpn. pop_higher c rpn st)
      else Some (rpn, t # st))"

fun pop_to_open :: "bytes \<Rightarrow> bytes \<Rightarrow> (bytes \<times> bytes) option" where
  "pop_to_open rpn [] = Some (rpn, [])"
| "pop_to_open rpn (t # st) =
     (if t \<noteq> ch_open then do { rpn \<leftarrow> put rpn ch_space; rpn \<leftarrow> put rpn t; pop_to_open rpn st }
      else Some (rpn, t # st))"

fun pop_all :: "bytes \<Rightarrow> bytes \<Rightarrow> (rstatus \<times> bytes) option" where
  "pop_all rpn [] = Some (CC_OK, rpn)"
| "pop_all rpn (t # st) =
     (if t = ch_open then Some (CC_ERROR, rpn)
      else do { rpn \<leftarrow> put rpn ch_space; rpn \<leftarrow> put rpn t; pop_all rpn st })"

text \<open>The main loop returns the output and the stack that are left at the end of the input.\<close>

fun convert_loop :: "bytes \<Rightarrow> bytes \<Rightarrow> bytes \<Rightarrow> (rstatus \<times> bytes \<times> bytes) option" where
  "convert_loop [] rpn st = Some (CC_OK, rpn, st)"
| "convert_loop (c # cs) rpn st =
     (if isdigit c then put rpn c \<bind> (\<lambda>rpn. convert_loop cs rpn st)
      else if isop c then do {
        rpn \<leftarrow> put rpn ch_space;
        (rpn, st) \<leftarrow> pop_higher c rpn st;
        st \<leftarrow> push_op st c;
        convert_loop cs rpn st
      }
      else if c = ch_open then push_op st c \<bind> (\<lambda>st. convert_loop cs rpn st)
      else if c = ch_close then do {
        (rpn, st) \<leftarrow> pop_to_open rpn st;
        case st of
          [] \<Rightarrow> Some (CC_ERROR, rpn, st)
        | t # st' \<Rightarrow> do { ASSERT (t = ch_open); convert_loop cs rpn st' }
      }
      else if iswhite c then convert_loop cs rpn st
      else Some (CC_ERROR, rpn, st))"

definition option_convert_rpn :: "bytes \<Rightarrow> (rstatus \<times> bytes) option" where
  "option_convert_rpn val_str = do {
     (r, rpn, st) \<leftarrow> convert_loop val_str [] [];
     if r \<noteq> CC_OK then Some (r, rpn)
     else do {
       (r, rpn) \<leftarrow> pop_all rpn st;
       if r \<noteq> CC_OK then Some (r, rpn)
       else do { _ \<leftarrow> put rpn 0; Some (CC_OK, rpn) }
     }
   }"


section \<open>Evaluation\<close>

text \<open>
  \<^verbatim>\<open>strtok\<close> with the delimiter \<open>' '\<close> returns the maximal runs of other bytes in turn. \<^verbatim>\<open>atoll\<close> reads
  the leading digits; as in the C library of Linux, a number that is too large gives the greatest
  \<^verbatim>\<open>long long\<close>.
\<close>

function strtok_space :: "bytes \<Rightarrow> bytes list" where
  "strtok_space [] = []"
| "strtok_space (c # cs) =
     (if c = ch_space then strtok_space cs
      else (c # takeWhile (\<lambda>c. c \<noteq> ch_space) cs) # strtok_space (dropWhile (\<lambda>c. c \<noteq> ch_space) cs))"
  by pat_completeness auto
termination
  by (relation "measure length") (auto simp: le_imp_less_Suc length_dropWhile_le)

definition atoll :: "bytes \<Rightarrow> u64" where
  "atoll token = word_of_int (min (int (numval 0 (takeWhile isdigit token))) 9223372036854775807)"

definition push_val :: "u64 list \<Rightarrow> u64 \<Rightarrow> u64 list option" where
  "push_val st v = (if length st < OPTLINE_MAXLEN then Some (v # st) else None)"

text \<open>One operator on two values; \<^term>\<open>Inl\<close> is the early return with an error.\<close>

definition eval_op :: "u8 \<Rightarrow> u64 \<Rightarrow> u64 \<Rightarrow> (rstatus + u64) option" where
  "eval_op c fst_v snd_v =
     (if c = ch_plus then
        (let result = fst_v + snd_v in Some (if result < fst_v then Inl CC_ERROR else Inr result))
      else if c = ch_minus then
        (let result = fst_v - snd_v in Some (if fst_v < result then Inl CC_ERROR else Inr result))
      else if c = ch_star then
        (let result = fst_v * snd_v in
         Some (if fst_v \<noteq> 0 \<and> result div fst_v \<noteq> snd_v then Inl CC_ERROR else Inr result))
      else if c = ch_slash then
        Some (if snd_v = 0 then Inl CC_ERROR else Inr (fst_v div snd_v))
      else None)"

fun eval_loop :: "bytes list \<Rightarrow> u64 list \<Rightarrow> (rstatus \<times> u64 list) option" where
  "eval_loop [] st = Some (CC_OK, st)"
| "eval_loop (token # ts) st =
     (if isdigit (hd token) then push_val st (atoll token) \<bind> eval_loop ts
      else case st of
        snd_v # fst_v # st' \<Rightarrow> do {
          r \<leftarrow> eval_op (hd token) fst_v snd_v;
          case r of Inl e \<Rightarrow> Some (e, st') | Inr result \<Rightarrow> push_val st' result \<bind> eval_loop ts
        }
      | _ \<Rightarrow> Some (CC_ERROR, st))"

definition option_eval_rpn :: "bytes \<Rightarrow> u64 \<Rightarrow> (rstatus \<times> u64) option" where
  "option_eval_rpn rpn val0 = do {
     (r, st) \<leftarrow> eval_loop (strtok_space rpn) [];
     if r \<noteq> CC_OK then Some (r, val0)
     else case st of [v] \<Rightarrow> Some (CC_OK, v) | _ \<Rightarrow> Some (CC_ERROR, val0)
   }"

definition option_eval_int_expr :: "bytes \<Rightarrow> u64 \<Rightarrow> (rstatus \<times> u64) option" where
  "option_eval_int_expr val_str val0 = do {
     (r, rpn) \<leftarrow> option_convert_rpn val_str;
     if r \<noteq> CC_OK then Some (r, val0) else option_eval_rpn rpn val0
   }"


section \<open>No input leaves the buffers\<close>

lemma put_Some [simp]: "length rpn < 1024 \<Longrightarrow> put rpn c = Some (rpn @ [c])"
  by (simp add: put_def OPTLINE_MAXLEN_def)

lemma push_op_Some [simp]: "length st < 1024 \<Longrightarrow> push_op st c = Some (c # st)"
  by (simp add: push_op_def OPTLINE_MAXLEN_def)

lemma push_val_Some [simp]: "length st < 1024 \<Longrightarrow> push_val st v = Some (v # st)"
  by (simp add: push_val_def OPTLINE_MAXLEN_def)

text \<open>
  The bytes of the output and those of the stack. A byte of the stack can cost two of the output, and
  each byte of the input adds at most three to the sum.
\<close>

abbreviation rpn_char :: "u8 \<Rightarrow> bool" where
  "rpn_char c \<equiv> isdigit c \<or> isop c \<or> c = ch_space"

definition rpn_inv :: "nat \<Rightarrow> bytes \<Rightarrow> bytes \<Rightarrow> bool" where
  "rpn_inv n rpn st \<longleftrightarrow> length rpn + 2 * length st \<le> n \<and> list_all rpn_char rpn \<and>
     list_all (\<lambda>c. isop c \<or> c = ch_open) st"

lemma pop_higher_ok:
  assumes "rpn_inv n rpn st" "n < 1024"
  shows "\<exists>rpn' st'. pop_higher c rpn st = Some (rpn', st') \<and> rpn_inv n rpn' st'"
  using assms by (induction c rpn st rule: pop_higher.induct) (fastforce simp: rpn_inv_def)+

lemma pop_to_open_ok:
  assumes "rpn_inv n rpn st" "n < 1024"
  shows "\<exists>rpn' st'. pop_to_open rpn st = Some (rpn', st') \<and> rpn_inv n rpn' st' \<and>
    (st' = [] \<or> hd st' = ch_open)"
  using assms by (induction rpn st rule: pop_to_open.induct) (fastforce simp: rpn_inv_def)+

lemma pop_all_ok:
  assumes "rpn_inv n rpn st" "n < 1024"
  shows "\<exists>r rpn'. pop_all rpn st = Some (r, rpn') \<and> r \<in> {CC_OK, CC_ERROR} \<and> rpn_inv n rpn' []"
  using assms
proof (induction rpn st rule: pop_all.induct)
  case (2 rpn t st)
  then show ?case by (cases "t = ch_open") (auto simp: rpn_inv_def)
qed simp

lemma rpn_inv_put: "rpn_inv n rpn st \<Longrightarrow> rpn_char c \<Longrightarrow> rpn_inv (n + 1) (rpn @ [c]) st"
  by (auto simp: rpn_inv_def)

lemma rpn_inv_push: "rpn_inv n rpn st \<Longrightarrow> isop c \<or> c = ch_open \<Longrightarrow> rpn_inv (n + 2) rpn (c # st)"
  by (auto simp: rpn_inv_def)

lemma rpn_inv_mono: "rpn_inv n rpn st \<Longrightarrow> n \<le> m \<Longrightarrow> rpn_inv m rpn st"
  by (auto simp: rpn_inv_def)

lemma rpn_inv_bounds: "rpn_inv n rpn st \<Longrightarrow> n < 1024 \<Longrightarrow> length rpn < 1024 \<and> length st < 1024"
  by (auto simp: rpn_inv_def)

lemma rpn_inv_pop: "rpn_inv n rpn (c # st) \<Longrightarrow> rpn_inv n rpn st"
  by (auto simp: rpn_inv_def)

definition converts :: "nat \<Rightarrow> (rstatus \<times> bytes \<times> bytes) option \<Rightarrow> bool" where
  "converts n x \<longleftrightarrow> (\<exists>r rpn st. x = Some (r, rpn, st) \<and> r \<in> {CC_OK, CC_ERROR} \<and> rpn_inv n rpn st)"

lemma convertsI [intro]: "r \<in> {CC_OK, CC_ERROR} \<Longrightarrow> rpn_inv n rpn st \<Longrightarrow> converts n (Some (r, rpn, st))"
  by (simp add: converts_def)

lemma convert_loop_ok:
  assumes "rpn_inv n rpn st" "n + 3 * length cs < 1024"
  shows "converts (n + 3 * length cs) (convert_loop cs rpn st)"
  using assms
proof (induction cs arbitrary: n rpn st)
  case (Cons c cs)
  let ?n = "n + 3 * length (c # cs)"
  note inv = Cons.prems(1) and b = rpn_inv_bounds [OF Cons.prems(1)]
  have IH: "converts ?n (convert_loop cs rpn' st')" if "rpn_inv (n + 3) rpn' st'" for rpn' st'
    using Cons.IH [OF that] Cons.prems(2) by (simp add: add.assoc)
  have err: "converts ?n (Some (CC_ERROR, rpn', st'))" if "rpn_inv m rpn' st'" "m \<le> n + 3" for m rpn' st'
    using rpn_inv_mono [OF that(1)] that(2) by auto
  consider "isdigit c" | "isop c" "\<not> isdigit c" | "c = ch_open" "\<not> isdigit c" "\<not> isop c" | "c = ch_close" "\<not> isdigit c" "\<not> isop c"
    | "c \<noteq> ch_open" "c \<noteq> ch_close" "\<not> isdigit c" "\<not> isop c" by blast
  then show ?case
  proof cases
    case 1
    then show ?thesis using b IH rpn_inv_mono [OF rpn_inv_put [OF inv, of c]] Cons.prems(2) by simp
  next
    case 2
    have "rpn_inv (n + 1) (rpn @ [ch_space]) st" using rpn_inv_put [OF inv, of ch_space] by simp
    moreover have n1: "n + 1 < 1024" using Cons.prems(2) by simp
    ultimately obtain rpn' st' where p: "pop_higher c (rpn @ [ch_space]) st = Some (rpn', st')" "rpn_inv (n + 1) rpn' st'"
      using pop_higher_ok by blast
    have "rpn_inv (n + 3) rpn' (c # st')" using rpn_inv_mono [OF rpn_inv_push [OF p(2), of c]] 2(1) by simp
    then show ?thesis using 2 p(1) b IH rpn_inv_bounds [OF p(2) n1] Cons.prems(2) by simp
  next
    case 3
    then show ?thesis using b IH rpn_inv_mono [OF rpn_inv_push [OF inv, of c]] Cons.prems(2) by simp
  next
    case 4
    obtain rpn' st' where p: "pop_to_open rpn st = Some (rpn', st')" "rpn_inv n rpn' st'" "st' = [] \<or> hd st' = ch_open"
      using pop_to_open_ok [OF inv, of] Cons.prems(2) by auto
    then show ?thesis
      using 4 IH rpn_inv_mono [OF rpn_inv_pop] err [OF p(2)] by (cases st') simp_all
  next
    case 5
    then show ?thesis using IH [OF rpn_inv_mono [OF inv]] err [OF inv] by simp
  qed
qed (auto simp: converts_def)

lemma option_convert_rpn_ok:
  assumes "length val_str \<le> 341"
  shows "\<exists>r rpn. option_convert_rpn val_str = Some (r, rpn) \<and> r \<in> {CC_OK, CC_ERROR} \<and> length rpn < 1024 \<and>
    list_all rpn_char rpn"
proof -
  have "converts (3 * length val_str) (convert_loop val_str [] [])"
    using convert_loop_ok [of 0 "[]" "[]" val_str] assms by (simp add: rpn_inv_def)
  then obtain r rpn st where c: "convert_loop val_str [] [] = Some (r, rpn, st)" "r \<in> {CC_OK, CC_ERROR}"
      and inv: "rpn_inv (3 * length val_str) rpn st" unfolding converts_def by blast
  have n: "3 * length val_str < 1024" using assms by simp
  obtain r' rpn' where p: "pop_all rpn st = Some (r', rpn')" "r' \<in> {CC_OK, CC_ERROR}" "rpn_inv (3 * length val_str) rpn' []"
    using pop_all_ok [OF inv n] by blast
  show ?thesis
    using c p inv n by (auto simp: option_convert_rpn_def rpn_inv_def)
qed

text \<open>The evaluation: the output has one-character operators only where a token starts.\<close>

lemma strtok_space_tokens:
  "list_all P s \<Longrightarrow> token \<in> set (strtok_space s) \<Longrightarrow> token \<noteq> [] \<and> hd token \<noteq> ch_space \<and> P (hd token)"
proof (induction s rule: strtok_space.induct)
  case (2 c cs)
  have "list_all P (dropWhile (\<lambda>c. c \<noteq> ch_space) cs)" using 2(3) by (auto simp: list_all_iff dest: set_dropWhileD)
  then show ?case using 2 by (auto split: if_splits)
qed simp

lemma strtok_space_length: "length (strtok_space s) \<le> length s"
proof (induction s rule: strtok_space.induct)
  case (2 c cs)
  then show ?case using length_dropWhile_le [of "\<lambda>c. c \<noteq> ch_space" cs] by auto
qed simp

lemma eval_op_ok: "isop c \<Longrightarrow> \<exists>r. eval_op c a b = Some r \<and> (\<forall>e. r = Inl e \<longrightarrow> e = CC_ERROR)"
  by (auto simp: eval_op_def isop_def Let_def)

lemma eval_loop_ok:
  assumes "\<forall>t \<in> set ts. isdigit (hd t) \<or> isop (hd t)" "length st + length ts < 1024"
  shows "\<exists>r st'. eval_loop ts st = Some (r, st') \<and> r \<in> {CC_OK, CC_ERROR}"
  using assms
proof (induction ts arbitrary: st)
  case (Cons t ts)
  show ?case
  proof (cases "isdigit (hd t)")
    case False
    then obtain r where r: "\<And>a b. \<exists>r. eval_op (hd t) a b = Some r \<and> (\<forall>e. r = Inl e \<longrightarrow> e = CC_ERROR)"
      using eval_op_ok Cons.prems(1) by simp
    show ?thesis
    proof (cases "length st < 2")
      case True
      then show ?thesis using False by (cases st rule: remdups_adj.cases) auto
    next
      case long: False
      then obtain b a st' where st: "st = b # a # st'" by (cases st rule: remdups_adj.cases) auto
      obtain x where x: "eval_op (hd t) a b = Some x" "\<forall>e. x = Inl e \<longrightarrow> e = CC_ERROR" using r by blast
      show ?thesis using False st x Cons.prems Cons.IH [of "_ # st'"] by (cases x) simp_all
    qed
  qed (use Cons in simp)
qed simp

text \<open>
  Whatever the string, as long as it has at most 341 characters (a value of an option file has at
  most 255), converting and evaluating it stays within all four arrays and returns a status, and a
  value only with \<^verbatim>\<open>CC_OK\<close>.
\<close>

lemma option_eval_int_expr_ok:
  assumes "length s \<le> 341"
  shows "\<exists>r v. option_eval_int_expr s val0 = Some (r, v) \<and> (r = CC_OK \<or> r = CC_ERROR \<and> v = val0)"
proof -
  obtain r rpn where c: "option_convert_rpn s = Some (r, rpn)" "r \<in> {CC_OK, CC_ERROR}" "length rpn < 1024" "list_all rpn_char rpn"
    using option_convert_rpn_ok [OF assms] by blast
  have "\<forall>t \<in> set (strtok_space rpn). isdigit (hd t) \<or> isop (hd t)" using strtok_space_tokens [OF c(4)] by blast
  moreover have "length (strtok_space rpn) < 1024" using strtok_space_length [of rpn] c(3) by linarith
  ultimately obtain r' st where "eval_loop (strtok_space rpn) [] = Some (r', st)" "r' \<in> {CC_OK, CC_ERROR}"
    using eval_loop_ok [of "strtok_space rpn" "[]"] by auto
  then show ?thesis
    using c by (auto simp: option_eval_int_expr_def option_eval_rpn_def split: list.splits)
qed


section \<open>The overflow checks are exact\<close>

fun op_result :: "u8 \<Rightarrow> nat \<Rightarrow> nat \<Rightarrow> nat option" where
  "op_result c a b =
     (if c = ch_plus then (if a + b < 2 ^ 64 then Some (a + b) else None)
      else if c = ch_minus then (if b \<le> a then Some (a - b) else None)
      else if c = ch_star then (if a * b < 2 ^ 64 then Some (a * b) else None)
      else if b = 0 then None else Some (a div b))"

lemma u64_lt2p: "unat a < 2 ^ 64" for a :: u64
  by simp

lemma add_check: "(a + b < a) = (2 ^ 64 \<le> unat a + unat b)" for a b :: u64
proof (cases "unat a + unat b < 2 ^ 64")
  case True
  then have "unat (a + b) = unat a + unat b" by (simp add: unat_add_lem [THEN iffD1])
  then show ?thesis using True by (simp add: word_less_nat_alt)
next
  case False
  then have "unat (a + b) = unat a + unat b - 2 ^ 64" by (simp add: unat_plus_if')
  then have "unat (a + b) < unat a" using False u64_lt2p [of b] by linarith
  then show ?thesis using False by (simp add: word_less_nat_alt)
qed

lemma sub_check: "(a < a - b) = (unat a < unat b)" for a b :: u64
proof (cases "unat b \<le> unat a")
  case True
  then have "unat (a - b) = unat a - unat b" by (simp add: unat_sub_if')
  then show ?thesis using True by (simp add: word_less_nat_alt)
next
  case False
  then have "unat (a - b) = 2 ^ 64 + unat a - unat b" by (simp add: unat_sub_if')
  then have "unat a < unat (a - b)" using u64_lt2p [of b] by linarith
  then show ?thesis using False by (simp add: word_less_nat_alt)
qed

lemma mul_check: "a \<noteq> 0 \<Longrightarrow> (a * b div a \<noteq> b) = (2 ^ 64 \<le> unat a * unat b)" for a b :: u64
proof (cases "unat a * unat b < 2 ^ 64")
  case True
  assume "a \<noteq> 0"
  then have "0 < unat a" by (simp add: unat_gt_0)
  moreover have "unat (a * b) = unat a * unat b" using True by (simp add: unat_word_ariths)
  ultimately have "unat (a * b div a) = unat b" by (simp add: unat_div)
  then have "a * b div a = b" by (rule unsigned_word_eqI)
  then show ?thesis using True by simp
next
  case False
  assume "a \<noteq> 0"
  have "unat (a * b) < unat a * unat b" using False u64_lt2p [of "a * b"] by linarith
  then have "unat (a * b) div unat a < unat b" by (simp add: div_less_iff_less_mult less_mult_imp_div_less mult.commute)
  then have "unat (a * b div a) \<noteq> unat b" by (simp add: unat_div)
  then show ?thesis using False by auto
qed

lemma eval_op_exact:
  assumes "isop c"
  shows "eval_op c a b = Some (case op_result c (unat a) (unat b) of None \<Rightarrow> Inl CC_ERROR | Some v \<Rightarrow> Inr (of_nat v))"
proof -
  have "of_nat (unat a - unat b) = a - b" if "unat b \<le> unat a" using that by (simp add: of_nat_diff)
  moreover have "of_nat (unat a div unat b) = a div b" by (simp add: word_arith_nat_div)
  moreover have "unat b = 0 \<longleftrightarrow> b = 0" by (simp add: unat_eq_0)
  moreover have "(a \<noteq> 0 \<and> a * b div a \<noteq> b) = (\<not> unat a * unat b < 2 ^ 64)"
    using mul_check [of a b] by (cases "a = 0") auto
  moreover have "c = ch_plus \<or> c = ch_minus \<or> c = ch_star \<or> c = ch_slash" using assms by (simp add: isop_def)
  ultimately show ?thesis
    by (elim disjE) (simp_all add: eval_op_def add_check sub_check del: unat_u64_lt)
qed


section \<open>Expressions and their value\<close>

text \<open>
  The expressions the converter handles: the left operand of an operator is a number or a
  parenthesised expression, and after a multiplication or division no addition or subtraction follows
  on the same level. Operators of one level thus associate to the right, as the code evaluates them.
\<close>

datatype expr = Num nat | Paren expr | Bin u8 expr expr

fun atomic :: "expr \<Rightarrow> bool" where
  "atomic (Bin _ _ _) = False"
| "atomic _ = True"

definition low :: "u8 \<Rightarrow> bool" where
  "low c \<longleftrightarrow> c = ch_plus \<or> c = ch_minus"

fun head_low :: "expr \<Rightarrow> bool" where
  "head_low (Bin c _ _) = low c"
| "head_low _ = False"

fun handled :: "expr \<Rightarrow> bool" where
  "handled (Num n) = (n < 2 ^ 63)"
| "handled (Paren e) = handled e"
| "handled (Bin c a b) = (isop c \<and> atomic a \<and> handled a \<and> handled b \<and> (\<not> low c \<longrightarrow> \<not> head_low b))"

fun show_expr :: "expr \<Rightarrow> bytes" where
  "show_expr (Num n) = dec n"
| "show_expr (Paren e) = ch_open # show_expr e @ [ch_close]"
| "show_expr (Bin c a b) = show_expr a @ c # show_expr b"

fun expr_val :: "expr \<Rightarrow> nat option" where
  "expr_val (Num n) = Some n"
| "expr_val (Paren e) = expr_val e"
| "expr_val (Bin c a b) = do { x \<leftarrow> expr_val a; y \<leftarrow> expr_val b; op_result c x y }"

text \<open>What the converter has written and stacked after an expression, and the tokens in the end.\<close>

fun rpn_ops :: "expr \<Rightarrow> bytes" where
  "rpn_ops (Bin c a b) = rpn_ops b @ [c]"
| "rpn_ops _ = []"

definition flush_ops :: "bytes \<Rightarrow> bytes" where
  "flush_ops st = concat (map (\<lambda>c. [ch_space, c]) st)"

fun rpn_text :: "expr \<Rightarrow> bytes" where
  "rpn_text (Num n) = dec n"
| "rpn_text (Paren e) = rpn_text e @ flush_ops (rpn_ops e)"
| "rpn_text (Bin c a b) = rpn_text a @ ch_space # rpn_text b"

fun postfix :: "expr \<Rightarrow> bytes list" where
  "postfix (Num n) = [dec n]"
| "postfix (Paren e) = postfix e"
| "postfix (Bin c a b) = postfix a @ postfix b @ [[c]]"

lemma isop_facts: "isop c \<Longrightarrow> \<not> isdigit c \<and> c \<noteq> ch_open \<and> c \<noteq> ch_close \<and> c \<noteq> ch_space \<and> \<not> iswhite c"
  by (auto simp: isop_def isdigit_def iswhite_def)

lemma isdigit_facts: "isdigit c \<Longrightarrow> c \<noteq> ch_space \<and> \<not> isop c \<and> \<not> iswhite c"
  by (auto simp: isop_def isdigit_def iswhite_def)

lemma paren_facts: "\<not> isdigit ch_open" "\<not> isop ch_open" "\<not> isdigit ch_close" "\<not> isop ch_close"
  by (simp_all add: isop_def isdigit_def)

lemma convert_white: "convert_loop cs rpn st = convert_loop (filter (\<lambda>c. \<not> iswhite c) cs) rpn st"
proof (induction cs arbitrary: rpn st)
  case (Cons c cs)
  have IH: "convert_loop cs = convert_loop (filter (\<lambda>c. \<not> iswhite c) cs)" using Cons.IH by (intro ext)
  show ?case
  proof (cases "iswhite c")
    case True
    then have "\<not> isdigit c" "\<not> isop c" "c \<noteq> ch_open" "c \<noteq> ch_close" by (auto simp: isop_def isdigit_def iswhite_def)
    then show ?thesis using True Cons.IH by simp
  qed (simp add: IH cong: list.case_cong)
qed simp

lemma convert_digits:
  "list_all isdigit ds \<Longrightarrow> length rpn + length ds \<le> 1024 \<Longrightarrow>
   convert_loop (ds @ rest) rpn st = convert_loop rest (rpn @ ds) st"
  by (induction ds arbitrary: rpn) simp_all

lemma rpn_ops_isop: "handled e \<Longrightarrow> list_all isop (rpn_ops e)"
  by (induction e) simp_all

lemma flush_simps [simp]:
  "flush_ops [] = []" "flush_ops (c # st) = ch_space # c # flush_ops st" "flush_ops (a @ b) = flush_ops a @ flush_ops b"
  by (simp_all add: flush_ops_def)

lemma length_flush [simp]: "length (flush_ops st) = 2 * length st"
  by (induction st) simp_all

lemma rpn_length: "length (rpn_text e) + 2 * length (rpn_ops e) \<le> 3 * length (show_expr e)"
  by (induction e) simp_all

lemma pop_to_open_ops:
  "list_all isop ops \<Longrightarrow> length rpn + 2 * length ops \<le> 1024 \<Longrightarrow>
   pop_to_open rpn (ops @ ch_open # st) = Some (rpn @ flush_ops ops, ch_open # st)"
  by (induction ops arbitrary: rpn) (simp_all add: isop_facts)

lemma pop_all_ops:
  "list_all isop ops \<Longrightarrow> length rpn + 2 * length ops \<le> 1024 \<Longrightarrow> pop_all rpn ops = Some (CC_OK, rpn @ flush_ops ops)"
  by (induction ops arbitrary: rpn) (simp_all add: isop_facts)

text \<open>No operator on the stack gives way to the first one of the expression.\<close>

definition keeps :: "bytes \<Rightarrow> bool \<Rightarrow> bool" where
  "keeps st lo \<longleftrightarrow> st = [] \<or> hd st = ch_open \<or> hd st = ch_plus \<or> hd st = ch_minus \<or> \<not> lo"

lemma pop_higher_keeps: "keeps st (low c) \<Longrightarrow> pop_higher c rpn st = Some (rpn, st)"
  by (cases st) (auto simp: keeps_def low_def option_comp_op_precedence_def)

lemma convert_expr:
  assumes "handled e" "keeps st (head_low e)" "length rpn + 2 * length st + 3 * length (show_expr e) < 1024"
  shows "convert_loop (show_expr e @ rest) rpn st = convert_loop rest (rpn @ rpn_text e) (rpn_ops e @ st)"
  using assms
proof (induction e arbitrary: rpn st rest)
  case (Num n)
  then show ?case using dec_digits [of _ n] by (simp add: convert_digits list_all_iff)
next
  case (Paren e)
  have "length rpn + length (rpn_text e) + 2 * length (rpn_ops e) \<le> 1024"
    using Paren.prems(3) rpn_length [of e] by simp
  moreover have "convert_loop (show_expr e @ ch_close # rest) rpn (ch_open # st) =
      convert_loop (ch_close # rest) (rpn @ rpn_text e) (rpn_ops e @ ch_open # st)"
    using Paren.prems by (intro Paren.IH) (simp_all add: keeps_def)
  ultimately show ?case
    using Paren.prems rpn_ops_isop [of e] by (simp add: pop_to_open_ops paren_facts)
next
  case (Bin c a b)
  have a: "rpn_ops a = []" "\<not> head_low a" using Bin.prems(1) by (cases a; simp)+
  have la: "length (rpn_text a) \<le> 3 * length (show_expr a)" using rpn_length [of a] by simp
  have "convert_loop (show_expr a @ c # show_expr b @ rest) rpn st =
      convert_loop (c # show_expr b @ rest) (rpn @ rpn_text a) st"
    using Bin.IH(1) [of st rpn "c # show_expr b @ rest"] Bin.prems a by (simp add: keeps_def)
  also have "\<dots> = convert_loop (show_expr b @ rest) (rpn @ rpn_text a @ [ch_space]) (c # st)"
    using Bin.prems la by (simp add: isop_facts pop_higher_keeps)
  also have "\<dots> = convert_loop rest ((rpn @ rpn_text a @ [ch_space]) @ rpn_text b) (rpn_ops b @ c # st)"
    using Bin.prems la by (intro Bin.IH(2)) (auto simp: keeps_def low_def isop_def)
  finally show ?case by simp
qed

lemma take_drop_word:
  "ch_space \<notin> set cs \<Longrightarrow> takeWhile (\<lambda>c. c \<noteq> ch_space) cs = cs \<and> dropWhile (\<lambda>c. c \<noteq> ch_space) cs = []"
  "ch_space \<notin> set cs \<Longrightarrow> takeWhile (\<lambda>c. c \<noteq> ch_space) (cs @ ch_space # ys) = cs \<and>
     dropWhile (\<lambda>c. c \<noteq> ch_space) (cs @ ch_space # ys) = ch_space # ys"
  by (induction cs) auto

lemma strtok_append: "strtok_space (xs @ ch_space # ys) = strtok_space xs @ strtok_space ys"
proof (induction xs rule: strtok_space.induct)
  case (2 c cs)
  show ?case
  proof (cases "c = ch_space \<or> ch_space \<in> set cs")
    case True
    then show ?thesis using 2 by (auto simp: takeWhile_append1 dropWhile_append1 take_drop_word)
  next
    case False
    then show ?thesis by (simp add: take_drop_word)
  qed
qed simp

lemma strtok_word: "xs \<noteq> [] \<Longrightarrow> ch_space \<notin> set xs \<Longrightarrow> strtok_space xs = [xs]"
  by (cases xs) (auto simp: take_drop_word)

lemma tokens_expr: "handled e \<Longrightarrow> strtok_space (rpn_text e @ flush_ops (rpn_ops e)) = postfix e"
proof (induction e)
  case (Num n)
  have "ch_space \<notin> set (dec n)" using dec_digits [of ch_space n] isdigit_facts by blast
  then show ?case by (simp add: strtok_word)
next
  case (Bin c a b)
  have a: "rpn_ops a = []" using Bin.prems by (cases a) simp_all
  have c: "strtok_space [c] = [[c]]" using Bin.prems isop_facts [of c] by (intro strtok_word) auto
  have "strtok_space (rpn_text a @ ch_space # (rpn_text b @ flush_ops (rpn_ops b)) @ ch_space # [c]) =
      postfix a @ postfix b @ [[c]]"
    using Bin a c by (simp only: strtok_append) simp
  then show ?case by simp
qed simp

lemma atoll_dec: "n < 2 ^ 63 \<Longrightarrow> atoll (dec n) = of_nat n"
  using dec_digits [of _ n] by (simp add: atoll_def numval_dec takeWhile_eq_all_conv [THEN iffD2])

lemma hd_dec: "isdigit (hd (dec n))"
  using dec_digits [of "hd (dec n)" n] by simp

lemma op_result_bound: "isop c \<Longrightarrow> op_result c a b = Some v \<Longrightarrow> a < 2 ^ 64 \<Longrightarrow> v < 2 ^ 64"
  by (auto simp: isop_def le_less_trans [OF div_le_dividend] split: if_splits)

lemma expr_val_bound: "handled e \<Longrightarrow> expr_val e = Some v \<Longrightarrow> v < 2 ^ 64"
proof (induction e arbitrary: v)
  case (Bin c a b)
  then obtain x y where "expr_val a = Some x" "op_result c x y = Some v" by (auto split: bind_splits)
  then show ?case using Bin op_result_bound [of c x y v] by simp
qed auto

lemma eval_expr:
  assumes "handled e" "length st + length (postfix e) \<le> 1024"
  shows "case expr_val e of
      Some v \<Rightarrow> eval_loop (postfix e @ ts) st = eval_loop ts (of_nat v # st)
    | None \<Rightarrow> \<exists>st'. eval_loop (postfix e @ ts) st = Some (CC_ERROR, st')"
  using assms
proof (induction e arbitrary: st ts)
  case (Num n)
  then show ?case by (simp add: hd_dec atoll_dec)
next
  case (Bin c a b)
  let ?r = "postfix b @ [c] # ts"
  have A: "case expr_val a of Some v \<Rightarrow> eval_loop (postfix a @ ?r) st = eval_loop ?r (of_nat v # st)
      | None \<Rightarrow> \<exists>st'. eval_loop (postfix a @ ?r) st = Some (CC_ERROR, st')"
    using Bin by (intro Bin.IH(1)) auto
  show ?case
  proof (cases "expr_val a")
    case (Some x)
    have B: "case expr_val b of Some v \<Rightarrow> eval_loop ?r (of_nat x # st) = eval_loop ([c] # ts) (of_nat v # of_nat x # st)
        | None \<Rightarrow> \<exists>st'. eval_loop ?r (of_nat x # st) = Some (CC_ERROR, st')"
      using Bin by (intro Bin.IH(2)) (auto simp: Suc_le_eq)
    show ?thesis
    proof (cases "expr_val b")
      case y: (Some y)
      have "unat (of_nat x :: u64) = x" "unat (of_nat y :: u64) = y"
        using expr_val_bound [OF _ Some] expr_val_bound [OF _ y] Bin.prems(1) by (simp_all add: unat_of_nat)
      then have "eval_op c (of_nat x) (of_nat y) =
          Some (case op_result c x y of None \<Rightarrow> Inl CC_ERROR | Some v \<Rightarrow> Inr (of_nat v))"
        using eval_op_exact [of c "of_nat x" "of_nat y"] Bin.prems(1) by simp
      then show ?thesis
        using A B Some y Bin.prems isop_facts [of c] by (cases "op_result c x y") simp_all
    qed (use A B Some in simp)
  qed (use A in simp)
next
  case (Paren e)
  then show ?case by (cases "expr_val e") simp_all
qed

lemma eval_shown:
  assumes "handled e" "length (show_expr e) \<le> 341"
  shows "option_eval_int_expr (show_expr e) val0 =
      Some (case expr_val e of Some v \<Rightarrow> (CC_OK, of_nat v) | None \<Rightarrow> (CC_ERROR, val0))"
proof -
  let ?rpn = "rpn_text e @ flush_ops (rpn_ops e)"
  have l: "length (rpn_text e) + 2 * length (rpn_ops e) \<le> 1023" using rpn_length [of e] assms(2) by simp
  have "convert_loop (show_expr e) [] [] = Some (CC_OK, rpn_text e, rpn_ops e)"
    using convert_expr [of e "[]" "[]" "[]"] assms by (simp add: keeps_def)
  then have "option_convert_rpn (show_expr e) = Some (CC_OK, ?rpn)"
    using pop_all_ops [OF rpn_ops_isop [OF assms(1)], of "rpn_text e"] l by (simp add: option_convert_rpn_def)
  moreover have "length (postfix e) \<le> 1023"
    using strtok_space_length [of ?rpn] tokens_expr [OF assms(1)] l by simp
  then have "case expr_val e of
      Some v \<Rightarrow> eval_loop (strtok_space ?rpn) [] = Some (CC_OK, [of_nat v])
    | None \<Rightarrow> \<exists>st'. eval_loop (strtok_space ?rpn) [] = Some (CC_ERROR, st')"
    using eval_expr [OF assms(1), of "[]" "[]"] tokens_expr [OF assms(1)] by (cases "expr_val e") simp_all
  ultimately show ?thesis
    by (cases "expr_val e") (auto simp: option_eval_int_expr_def option_eval_rpn_def)
qed




section \<open>What the grammar leaves out\<close>

text \<open>
  Operators of one level associate to the right: \<open>8-4-2\<close> is \<open>8-(4-2)\<close>. A number after a popped operator
  is written without a space and becomes part of its token: \<open>2*3+1\<close> is an error and \<open>2*3*4+1\<close> is
  \<open>2+3*4\<close>. White space does not separate numbers.
\<close>

lemma sub_is_right_associative: "option_eval_int_expr [56, 45, 52, 45, 50] 0 = Some (CC_OK, 6)"
  by code_simp

lemma product_then_sum_fails: "option_eval_int_expr [50, 42, 51, 43, 49] 0 = Some (CC_ERROR, 0)"
  by code_simp

lemma products_then_sum_wrong: "option_eval_int_expr [50, 42, 51, 42, 52, 43, 49] 0 = Some (CC_OK, 14)"
  by code_simp

lemma blanks_join_numbers: "option_eval_int_expr [49, 32, 50] 0 = Some (CC_OK, 12)"
  by code_simp

end
