(* ===== verification/Cc_Option.thy ===== *)
theory Cc_Option
  imports Cc_Expr Cc_Mm
begin

text \<open>
  The option module, \<^verbatim>\<open>include/cc_option.h\<close> and \<^verbatim>\<open>src/src/cc_option.c\<close>: options of four types, setting one
  from a string, parsing a line of a configuration file, and loading a whole file.

  The type parameter \<open>'d\<close> is the type \<^verbatim>\<open>double\<close>, and \<open>strtod\<close> is a parameter that returns the value, the
  number of characters it has consumed and whether it has set \<^verbatim>\<open>errno\<close> to \<^verbatim>\<open>ERANGE\<close>. The state of
  \<^verbatim>\<open>errno\<close> (is it \<^verbatim>\<open>ERANGE\<close>?) is passed along, as no code of the module clears it. A file is the
  list of its bytes. \<^verbatim>\<open>isspace\<close> and \<^verbatim>\<open>isalnum\<close> are those of the C locale.
\<close>

definition OPTNAME_MAXLEN :: nat where
  "OPTNAME_MAXLEN = 31"

definition OPTVAL_MAXLEN :: nat where
  "OPTVAL_MAXLEN = 255"

datatype option_type =
    OPTION_TYPE_BOOL | OPTION_TYPE_UINT | OPTION_TYPE_FPN | OPTION_TYPE_STR | OPTION_TYPE_SENTINEL

text \<open>The union, tagged with the member written last; reading another member is not defined.\<close>

datatype 'd option_val = Vbool bool | Vuint u64 | Vfpn 'd | Vstr "bytes ptr"

record 'd option_s =
  op_name :: bytes
  op_set :: bool
  op_type :: option_type
  op_default :: "'d option_val"
  op_val :: "'d option_val"
  op_description :: bytes

definition option_bool :: "'d option_s \<Rightarrow> bool option" where
  "option_bool opt = (case op_val opt of Vbool b \<Rightarrow> Some b | _ \<Rightarrow> None)"

definition option_uint :: "'d option_s \<Rightarrow> u64 option" where
  "option_uint opt = (case op_val opt of Vuint n \<Rightarrow> Some n | _ \<Rightarrow> None)"

definition option_fpn :: "'d option_s \<Rightarrow> 'd option" where
  "option_fpn opt = (case op_val opt of Vfpn x \<Rightarrow> Some x | _ \<Rightarrow> None)"

definition option_str :: "'d option_s \<Rightarrow> bytes ptr option" where
  "option_str opt = (case op_val opt of Vstr s \<Rightarrow> Some s | _ \<Rightarrow> None)"

text \<open>The characters of a literal, and the string in a block of memory.\<close>

abbreviation lit :: "string \<Rightarrow> bytes" where
  "lit s \<equiv> map of_char s"

definition cstr :: "bytes \<Rightarrow> bytes" where
  "cstr m = takeWhile (\<lambda>c. c \<noteq> 0) m"


section \<open>Setting an option\<close>

definition option_parse_bool :: "'d option_s \<Rightarrow> bytes \<Rightarrow> (rstatus \<times> 'd option_s) option" where
  "option_parse_bool opt val_str = do {
     let m = val_str @ [0];
     y \<leftarrow> (if length val_str = 3 then str3cmp m (of_char CHR ''y'') (of_char CHR ''e'') (of_char CHR ''s'') else Some False);
     if y then Some (CC_OK, opt\<lparr>op_set := True, op_val := Vbool True\<rparr>)
     else do {
       n \<leftarrow> (if length val_str = 2 then str2cmp m (of_char CHR ''n'') (of_char CHR ''o'') else Some False);
       if n then Some (CC_OK, opt\<lparr>op_set := True, op_val := Vbool False\<rparr>)
       else Some (CC_ERROR, opt)
     }
   }"

definition option_parse_uint :: "'d option_s \<Rightarrow> bytes \<Rightarrow> (rstatus \<times> 'd option_s) option" where
  "option_parse_uint opt val_str = do {
     (r, v) \<leftarrow> option_eval_int_expr val_str 0;
     if r \<noteq> CC_OK then Some (CC_ERROR, opt)
     else Some (CC_OK, opt\<lparr>op_set := True, op_val := Vuint v\<rparr>)
   }"

definition option_parse_fpn ::
  "(bytes \<Rightarrow> 'd \<times> nat \<times> bool) \<Rightarrow> bool \<Rightarrow> 'd option_s \<Rightarrow> bytes \<Rightarrow> (rstatus \<times> 'd option_s \<times> bool) option" where
  "option_parse_fpn strtod erange opt val_str = do {
     let (v, loc, range) = strtod val_str;
     let erange = (erange \<or> range);
     if erange then Some (CC_ERROR, opt, erange)
     else do {
       ASSERT (loc \<le> length val_str);
       if loc \<noteq> length val_str then Some (CC_ERROR, opt, erange)
       else Some (CC_OK, opt\<lparr>op_set := True, op_val := Vfpn v\<rparr>, erange)
     }
   }"

text \<open>\<^verbatim>\<open>cc_alloc (strlen (s) + 1)\<close> and \<^verbatim>\<open>strcpy\<close> into the new block.\<close>

definition copy_str :: "malloc_fn \<Rightarrow> bytes \<Rightarrow> bytes ptr option" where
  "copy_str malloc s = (case cc_alloc malloc (of_nat (length s) + 1) of
       Null \<Rightarrow> Some Null
     | Ptr d \<Rightarrow> map_option Ptr (mem_write d 0 (s @ [0])))"

definition option_parse_str :: "malloc_fn \<Rightarrow> 'd option_s \<Rightarrow> bytes ptr \<Rightarrow> (rstatus \<times> 'd option_s) option" where
  "option_parse_str malloc opt val_str = do {
     let opt = opt\<lparr>op_set := True\<rparr>;
     _ \<leftarrow> option_str opt;
     case val_str of
       Null \<Rightarrow> Some (CC_OK, opt\<lparr>op_val := Vstr Null\<rparr>)
     | Ptr s \<Rightarrow> do {
         d \<leftarrow> copy_str malloc s;
         Some (if d = Null then CC_ERROR else CC_OK, opt\<lparr>op_val := Vstr d\<rparr>)
       }
   }"

definition option_default :: "malloc_fn \<Rightarrow> 'd option_s \<Rightarrow> (rstatus \<times> 'd option_s) option" where
  "option_default malloc opt = do {
     let opt = opt\<lparr>op_set := True\<rparr>;
     case op_type opt of
       OPTION_TYPE_BOOL \<Rightarrow> (case op_default opt of Vbool b \<Rightarrow> Some (CC_OK, opt\<lparr>op_val := Vbool b\<rparr>) | _ \<Rightarrow> None)
     | OPTION_TYPE_UINT \<Rightarrow> (case op_default opt of Vuint n \<Rightarrow> Some (CC_OK, opt\<lparr>op_val := Vuint n\<rparr>) | _ \<Rightarrow> None)
     | OPTION_TYPE_FPN \<Rightarrow> (case op_default opt of Vfpn x \<Rightarrow> Some (CC_OK, opt\<lparr>op_val := Vfpn x\<rparr>) | _ \<Rightarrow> None)
     | OPTION_TYPE_STR \<Rightarrow> (case op_default opt of
           Vstr Null \<Rightarrow> Some (CC_OK, opt\<lparr>op_val := Vstr Null\<rparr>)
         | Vstr (Ptr s) \<Rightarrow> do {
             d \<leftarrow> copy_str malloc (cstr s);
             Some (if d = Null then CC_ERROR else CC_OK, opt\<lparr>op_val := Vstr d\<rparr>)
           }
         | _ \<Rightarrow> None)
     | OPTION_TYPE_SENTINEL \<Rightarrow> Some (CC_ERROR, opt\<lparr>op_set := False\<rparr>)
   }"

definition option_set ::
  "(bytes \<Rightarrow> 'd \<times> nat \<times> bool) \<Rightarrow> malloc_fn \<Rightarrow> bool \<Rightarrow> 'd option_s \<Rightarrow> bytes ptr \<Rightarrow>
   (rstatus \<times> 'd option_s \<times> bool) option" where
  "option_set strtod malloc erange opt val_str =
     (case op_type opt of
        OPTION_TYPE_BOOL \<Rightarrow> do {
          ASSERT (val_str \<noteq> Null);
          (r, opt) \<leftarrow> option_parse_bool opt (deref val_str);
          Some (r, opt, erange)
        }
      | OPTION_TYPE_UINT \<Rightarrow> do {
          ASSERT (val_str \<noteq> Null);
          (r, opt) \<leftarrow> option_parse_uint opt (deref val_str);
          Some (r, opt, erange)
        }
      | OPTION_TYPE_FPN \<Rightarrow> do {
          ASSERT (val_str \<noteq> Null);
          option_parse_fpn strtod erange opt (deref val_str)
        }
      | OPTION_TYPE_STR \<Rightarrow> do {
          (r, opt) \<leftarrow> option_parse_str malloc opt val_str;
          Some (r, opt, erange)
        }
      | OPTION_TYPE_SENTINEL \<Rightarrow> Some (CC_ERROR, opt, erange))"


section \<open>Parsing a line\<close>

definition isspace :: "u8 \<Rightarrow> bool" where
  "isspace c \<longleftrightarrow> c = 32 \<or> (9 \<le> c \<and> c \<le> 13)"

definition isalnum :: "u8 \<Rightarrow> bool" where
  "isalnum c \<longleftrightarrow> isdigit c \<or> (65 \<le> c \<and> c \<le> 90) \<or> (97 \<le> c \<and> c \<le> 122)"

definition allowed_in_name :: "u8 \<Rightarrow> bool" where
  "allowed_in_name c \<longleftrightarrow> isalnum c \<or> c = 95"

text \<open>The byte at a position of the string, its terminator included.\<close>

definition line_at :: "bytes \<Rightarrow> nat \<Rightarrow> u8 option" where
  "line_at line i = (if i < length line then Some (line ! i) else if i = length line then Some 0 else None)"

function name_loop :: "bytes \<Rightarrow> nat \<Rightarrow> bytes \<Rightarrow> (rstatus \<times> nat \<times> bytes) option" where
  "name_loop line p name = do {
     c \<leftarrow> line_at line p;
     if c \<noteq> 58 \<and> p < min (length line) (OPTNAME_MAXLEN + 1)
     then (if allowed_in_name c then do {
             ASSERT (length name < OPTNAME_MAXLEN + 1);
             name_loop line (p + 1) (name @ [c])
           }
           else Some (CC_ERROR, p, name))
     else Some (CC_OK, p, name)
   }"
  by pat_completeness auto
termination
  by (relation "measure (\<lambda>(line, p, _). length line - p)") auto

declare name_loop.simps [simp del]

function ltrim :: "bytes \<Rightarrow> nat \<Rightarrow> nat \<Rightarrow> nat option" where
  "ltrim line p q = do {
     c \<leftarrow> line_at line p;
     if isspace c \<and> p < q then ltrim line (p + 1) q else Some p
   }"
  by pat_completeness auto
termination
  by (relation "measure (\<lambda>(line, p, q). q - p)") auto

declare ltrim.simps [simp del]

fun rtrim :: "bytes \<Rightarrow> nat \<Rightarrow> nat \<Rightarrow> nat option" where
  "rtrim line p 0 = do {
     c \<leftarrow> line_at line 0;
     if isspace c \<and> 0 \<ge> p then None else Some 0
   }"
| "rtrim line p (Suc q) = do {
     c \<leftarrow> line_at line (Suc q);
     if isspace c \<and> Suc q \<ge> p then rtrim line p q else Some (Suc q)
   }"

definition option_parse :: "bytes \<Rightarrow> (rstatus \<times> bytes \<times> bytes) option" where
  "option_parse line = do {
     let llen = length line;
     if llen = 0 \<or> isspace (hd line) \<or> hd line = 35 then Some (CC_EEMPTY, [], [])
     else if llen > OPTLINE_MAXLEN then Some (CC_ERROR, [], [])
     else do {
       (r, p, name) \<leftarrow> name_loop line 0 [];
       if r \<noteq> CC_OK then Some (r, name, [])
       else if p = llen then Some (CC_ERROR, name, [])
       else if p > OPTNAME_MAXLEN then Some (CC_ERROR, name, [])
       else do {
         ASSERT (length name < OPTNAME_MAXLEN + 1);
         p \<leftarrow> ltrim line (p + 1) (llen - 1);
         q \<leftarrow> rtrim line p (llen - 1);
         if p > q then Some (CC_ERROR, name, [])
         else do {
           let vlen = q - p + 1;
           if vlen > OPTVAL_MAXLEN then Some (CC_ERROR, name, [])
           else do { val \<leftarrow> mem_read line p vlen; Some (CC_OK, name, val) }
         }
       }
     }
   }"


section \<open>Loading\<close>

text \<open>\<^verbatim>\<open>fgets\<close> reads up to a newline, which it keeps, and at most \<open>n - 1\<close> bytes.\<close>

definition fgets :: "nat \<Rightarrow> bytes \<Rightarrow> (bytes \<times> bytes) option" where
  "fgets n file = (let k = min (n - 1) (length (takeWhile (\<lambda>c. c \<noteq> 10) file) + 1) in
     if file = [] then None else Some (take k file, drop k file))"

fun find_option :: "bytes \<Rightarrow> 'd option_s list \<Rightarrow> nat option" where
  "find_option name [] = None"
| "find_option name (opt # opts) = (if name = op_name opt then Some 0 else map_option Suc (find_option name opts))"

function load_loop ::
  "(bytes \<Rightarrow> 'd \<times> nat \<times> bool) \<Rightarrow> (nat \<Rightarrow> malloc_fn) \<Rightarrow> nat \<Rightarrow> bool \<Rightarrow> bytes \<Rightarrow> 'd option_s list \<Rightarrow>
   (rstatus \<times> 'd option_s list \<times> bool) option" where
  "load_loop strtod malloc k erange file opts =
     (case fgets (OPTLINE_MAXLEN + 1) file of
        None \<Rightarrow> Some (CC_OK, opts, erange)
      | Some (line, rest) \<Rightarrow> do {
          (r, name, val) \<leftarrow> option_parse (cstr line);
          if r = CC_EEMPTY then load_loop strtod malloc k erange rest opts
          else if r \<noteq> CC_OK then Some (CC_ERROR, opts, erange)
          else case find_option name opts of
            None \<Rightarrow> Some (CC_ERROR, opts, erange)
          | Some i \<Rightarrow> do {
              (r, opt, erange) \<leftarrow> option_set strtod (malloc k) erange (opts ! i) (Ptr val);
              if r \<noteq> CC_OK then Some (CC_ERROR, opts[i := opt], erange)
              else load_loop strtod malloc (Suc k) erange rest (opts[i := opt])
            }
        })"
  by pat_completeness auto

lemma fgets_shorter: "fgets (Suc OPTLINE_MAXLEN) file = Some (line, rest) \<Longrightarrow> length rest < length file"
  by (auto simp: fgets_def OPTLINE_MAXLEN_def Let_def split: if_splits)

termination load_loop
  by (relation "measure (\<lambda>(_, _, _, _, file, _). length file)") (auto dest: fgets_shorter)

declare load_loop.simps [simp del]

definition option_load_file ::
  "(bytes \<Rightarrow> 'd \<times> nat \<times> bool) \<Rightarrow> (nat \<Rightarrow> malloc_fn) \<Rightarrow> bool \<Rightarrow> bytes \<Rightarrow> bool \<Rightarrow> 'd option_s list \<Rightarrow>
   (rstatus \<times> 'd option_s list \<times> bool) option" where
  "option_load_file strtod malloc erange file fe opts = do {
     (r, opts, erange) \<leftarrow> load_loop strtod malloc 0 erange file opts;
     if r \<noteq> CC_OK then Some (r, opts, erange)
     else Some (if fe then CC_ERROR else CC_OK, opts, erange)
   }"

fun option_load_default :: "(nat \<Rightarrow> malloc_fn) \<Rightarrow> nat \<Rightarrow> 'd option_s list \<Rightarrow> (rstatus \<times> 'd option_s list) option" where
  "option_load_default malloc k [] = Some (CC_OK, [])"
| "option_load_default malloc k (opt # opts) = do {
     (r, opt) \<leftarrow> option_default (malloc k) opt;
     if r \<noteq> CC_OK then Some (r, opt # opts)
     else do {
       (r, opts) \<leftarrow> option_load_default malloc (Suc k) opts;
       Some (r, opt # opts)
     }
   }"

text \<open>The blocks that are returned to the allocator; the options keep their dangling pointers.\<close>

fun option_free :: "'d option_s list \<Rightarrow> bytes list option" where
  "option_free [] = Some []"
| "option_free (opt # opts) =
     (if op_type opt = OPTION_TYPE_STR then do {
        s \<leftarrow> option_str opt;
        bs \<leftarrow> option_free opts;
        Some (if s = Null then bs else deref s # bs)
      }
      else option_free opts)"


section \<open>Printing\<close>

text \<open>
  The text of a value, cut to the buffer as by \<^verbatim>\<open>snprintf\<close>; \<open>fmt_f\<close> is the conversion \<^verbatim>\<open>%f\<close>. The printing
  functions give the lines that they hand to \<^verbatim>\<open>log_stdout\<close>.
\<close>

definition option_print_val :: "('d \<Rightarrow> bytes) \<Rightarrow> nat \<Rightarrow> option_type \<Rightarrow> 'd option_val \<Rightarrow> bytes option" where
  "option_print_val fmt_f len type val =
     map_option (take (len - 1))
       (case (type, val) of
          (OPTION_TYPE_BOOL, Vbool b) \<Rightarrow> Some (if b then lit ''yes'' else lit ''no'')
        | (OPTION_TYPE_UINT, Vuint n) \<Rightarrow> Some (dec (unat n))
        | (OPTION_TYPE_FPN, Vfpn x) \<Rightarrow> Some (fmt_f x)
        | (OPTION_TYPE_STR, Vstr s) \<Rightarrow> Some (case s of Null \<Rightarrow> lit ''NULL'' | Ptr m \<Rightarrow> cstr m)
        | _ \<Rightarrow> None)"

definition PATH_MAX :: nat where
  "PATH_MAX = 4096"

fun option_type_str :: "option_type \<Rightarrow> bytes option" where
  "option_type_str OPTION_TYPE_BOOL = Some (lit ''boolean'')"
| "option_type_str OPTION_TYPE_UINT = Some (lit ''unsigned int'')"
| "option_type_str OPTION_TYPE_FPN = Some (lit ''double'')"
| "option_type_str OPTION_TYPE_STR = Some (lit ''string'')"
| "option_type_str OPTION_TYPE_SENTINEL = None"

definition pad :: "nat \<Rightarrow> bytes \<Rightarrow> bytes" where
  "pad n s = s @ replicate (n - length s) 32"

definition option_print :: "('d \<Rightarrow> bytes) \<Rightarrow> 'd option_s \<Rightarrow> bytes option" where
  "option_print fmt_f opt = do {
     default_s \<leftarrow> option_print_val fmt_f PATH_MAX (op_type opt) (op_default opt);
     current_s \<leftarrow> option_print_val fmt_f PATH_MAX (op_type opt) (op_val opt);
     ty \<leftarrow> option_type_str (op_type opt);
     Some (lit ''name: '' @ pad 31 (op_name opt) @ lit '' type: '' @ pad 15 ty @ lit ''  current: '' @ pad 20 current_s @
           lit '' ( default: '' @ pad 20 default_s @ lit '' )'')
   }"

fun option_print_all :: "('d \<Rightarrow> bytes) \<Rightarrow> 'd option_s list \<Rightarrow> bytes list option" where
  "option_print_all fmt_f [] = Some []"
| "option_print_all fmt_f (opt # opts) = do {
     l \<leftarrow> option_print fmt_f opt;
     ls \<leftarrow> option_print_all fmt_f opts;
     Some (l # ls)
   }"

definition describe_fmt :: "bytes \<Rightarrow> bytes \<Rightarrow> bytes \<Rightarrow> bytes \<Rightarrow> bytes" where
  "describe_fmt a b c d = pad 31 a @ lit '' '' @ pad 15 b @ lit '' '' @ pad 20 c @ lit '' '' @ d"

definition option_describe :: "('d \<Rightarrow> bytes) \<Rightarrow> 'd option_s \<Rightarrow> bytes option" where
  "option_describe fmt_f opt = do {
     default_s \<leftarrow> option_print_val fmt_f (PATH_MAX + 10) (op_type opt) (op_default opt);
     ty \<leftarrow> option_type_str (op_type opt);
     Some (describe_fmt (op_name opt) ty default_s (op_description opt))
   }"

fun describe_loop :: "('d \<Rightarrow> bytes) \<Rightarrow> 'd option_s list \<Rightarrow> bytes list option" where
  "describe_loop fmt_f [] = Some []"
| "describe_loop fmt_f (opt # opts) = do {
     l \<leftarrow> option_describe fmt_f opt;
     ls \<leftarrow> describe_loop fmt_f opts;
     Some (l # ls)
   }"

definition option_describe_all :: "('d \<Rightarrow> bytes) \<Rightarrow> 'd option_s list \<Rightarrow> bytes list option" where
  "option_describe_all fmt_f opts = do {
     ls \<leftarrow> describe_loop fmt_f opts;
     Some (describe_fmt (lit ''NAME'') (lit ''TYPE'') (lit ''DEFAULT'') (lit ''DESCRIPTION'') # ls)
   }"

end
