(* ===== verification/Cc_Option_Facts.thy ===== *)
theory Cc_Option_Facts
  imports Cc_Option
begin

text \<open>
  What the option module guarantees: loading any file is defined and keeps every option well typed;
  a line of the documented form is split into its name and its value; a file of such lines has the
  effect of setting the options one by one; printed values can be read back.
\<close>


section \<open>Well-typed options\<close>

text \<open>The value and the default are the members of the union that the type names; strings are terminated.\<close>

fun has_type :: "option_type \<Rightarrow> 'd option_val \<Rightarrow> bool" where
  "has_type OPTION_TYPE_BOOL (Vbool _) = True"
| "has_type OPTION_TYPE_UINT (Vuint _) = True"
| "has_type OPTION_TYPE_FPN (Vfpn _) = True"
| "has_type OPTION_TYPE_STR (Vstr s) = (s = Null \<or> 0 \<in> set (deref s) \<and> length (deref s) < 18446744073709551616)"
| "has_type OPTION_TYPE_SENTINEL _ = True"
| "has_type _ _ = False"

definition wt :: "'d option_s \<Rightarrow> bool" where
  "wt opt \<longleftrightarrow> has_type (op_type opt) (op_val opt) \<and> has_type (op_type opt) (op_default opt)"

definition same_decl :: "'d option_s \<Rightarrow> 'd option_s \<Rightarrow> bool" where
  "same_decl a b \<longleftrightarrow> op_name a = op_name b \<and> op_type a = op_type b \<and> op_default a = op_default b \<and>
     op_description a = op_description b"

text \<open>The end pointer of \<^verbatim>\<open>strtod\<close> is within the string.\<close>

definition strtod_spec :: "(bytes \<Rightarrow> 'd \<times> nat \<times> bool) \<Rightarrow> bool" where
  "strtod_spec strtod \<longleftrightarrow> (\<forall>s. fst (snd (strtod s)) \<le> length s)"

lemma copy_str_ok:
  assumes "malloc_spec malloc" "length s < 18446744073709551615"
  shows "\<exists>d. copy_str malloc s = Some d \<and> (d = Null \<or> d = Ptr (s @ [0]))"
proof (cases "cc_alloc malloc (of_nat (length s) + 1)")
  case (Ptr d)
  have "unat (of_nat (length s) + 1 :: u64) = length s + 1"
  proof -
    have "(of_nat (length s) + 1 :: u64) = of_nat (length s + 1)" by simp
    then show ?thesis using assms(2) by (simp only: unat_of_nat) simp
  qed
  then have "length d = length s + 1" using cc_alloc_length [OF assms(1) Ptr] by simp
  then show ?thesis using Ptr by (simp add: copy_str_def mem_write_def)
qed (simp add: copy_str_def)

lemma option_parse_bool_ok:
  "\<exists>r opt'. option_parse_bool opt s = Some (r, opt') \<and> r \<in> {CC_OK, CC_ERROR} \<and> same_decl opt' opt \<and>
    (op_val opt' = op_val opt \<or> (\<exists>b. op_val opt' = Vbool b))"
  by (auto simp: option_parse_bool_def Let_def str3cmp_ok str2cmp_ok same_decl_def)

lemma option_parse_uint_ok:
  "length s \<le> 341 \<Longrightarrow> \<exists>r opt'. option_parse_uint opt s = Some (r, opt') \<and> r \<in> {CC_OK, CC_ERROR} \<and> same_decl opt' opt \<and>
    (op_val opt' = op_val opt \<or> (\<exists>n. op_val opt' = Vuint n))"
  using option_eval_int_expr_ok [of s 0] by (auto simp: option_parse_uint_def same_decl_def)

lemma option_parse_fpn_ok:
  "strtod_spec strtod \<Longrightarrow> \<exists>r opt' e'. option_parse_fpn strtod e opt s = Some (r, opt', e') \<and> r \<in> {CC_OK, CC_ERROR} \<and>
    same_decl opt' opt \<and> (op_val opt' = op_val opt \<or> (\<exists>x. op_val opt' = Vfpn x))"
  using spec [of "\<lambda>s. fst (snd (strtod s)) \<le> length s" s]
  by (cases "strtod s") (auto simp: option_parse_fpn_def strtod_spec_def same_decl_def Let_def)

lemma option_parse_str_ok:
  assumes "malloc_spec malloc" "length s < 18446744073709551615" "op_val opt = Vstr s0"
  shows "\<exists>r opt'. option_parse_str malloc opt (Ptr s) = Some (r, opt') \<and> same_decl opt' opt \<and>
    (r = CC_OK \<and> op_val opt' = Vstr (Ptr (s @ [0])) \<or> r = CC_ERROR \<and> op_val opt' = Vstr Null)"
  using copy_str_ok [OF assms(1,2)] assms(3) by (auto simp: option_parse_str_def option_str_def same_decl_def)

lemma option_set_ok:
  assumes "wt opt" "malloc_spec malloc" "strtod_spec strtod" "length s \<le> 255"
  shows "\<exists>r opt' e'. option_set strtod malloc e opt (Ptr s) = Some (r, opt', e') \<and> r \<in> {CC_OK, CC_ERROR} \<and>
    wt opt' \<and> same_decl opt' opt"
proof (cases "op_type opt")
  case OPTION_TYPE_BOOL
  then show ?thesis
    using option_parse_bool_ok [of opt s] assms(1) by (auto simp: option_set_def wt_def same_decl_def)
next
  case OPTION_TYPE_UINT
  then show ?thesis
    using option_parse_uint_ok [of s opt] assms(1,4) by (auto simp: option_set_def wt_def same_decl_def)
next
  case OPTION_TYPE_FPN
  then show ?thesis
    using option_parse_fpn_ok [OF assms(3), of e opt s] assms(1) by (auto simp: option_set_def wt_def same_decl_def)
next
  case OPTION_TYPE_STR
  then obtain s0 where "op_val opt = Vstr s0" using assms(1) by (cases "op_val opt") (auto simp: wt_def)
  then show ?thesis
    using option_parse_str_ok [OF assms(2), of s opt] OPTION_TYPE_STR assms(1,4)
    by (auto simp: option_set_def wt_def same_decl_def)
next
  case OPTION_TYPE_SENTINEL
  then show ?thesis using assms(1) by (simp add: option_set_def same_decl_def)
qed

lemma option_default_ok:
  assumes "wt opt" "malloc_spec malloc"
  shows "\<exists>r opt'. option_default malloc opt = Some (r, opt') \<and> r \<in> {CC_OK, CC_ERROR} \<and> wt opt' \<and> same_decl opt' opt"
proof (cases "op_type opt")
  case OPTION_TYPE_STR
  then obtain p where p: "op_default opt = Vstr p" "p = Null \<or> 0 \<in> set (deref p) \<and> length (deref p) < 18446744073709551616"
    using assms(1) by (cases "op_default opt") (auto simp: wt_def)
  show ?thesis
  proof (cases p)
    case (Ptr m)
    then have "cstr m \<noteq> m" using p(2) set_takeWhileD [of 0 "\<lambda>c. c \<noteq> 0" m] by (auto simp: cstr_def)
    then have "length (cstr m) < length m"
      using length_takeWhile_le [of "\<lambda>c. c \<noteq> 0" m] takeWhile_eq_take [of "\<lambda>c. c \<noteq> 0" m]
      by (metis cstr_def le_neq_implies_less take_all_iff order_refl)
    then have l: "length (cstr m) < 18446744073709551615" using p(2) Ptr by simp
    show ?thesis
      using copy_str_ok [OF assms(2) l] OPTION_TYPE_STR p Ptr assms(1) l
      by (auto simp: option_default_def wt_def same_decl_def)
  qed (use OPTION_TYPE_STR p assms(1) in \<open>simp add: option_default_def wt_def same_decl_def\<close>)
qed (use assms(1) in \<open>cases "op_default opt"; auto simp: option_default_def wt_def same_decl_def\<close>)+

lemma option_load_default_ok:
  assumes "\<forall>k. malloc_spec (malloc k)" "list_all wt opts"
  shows "\<exists>r opts'. option_load_default malloc k opts = Some (r, opts') \<and> r \<in> {CC_OK, CC_ERROR} \<and> list_all wt opts' \<and>
    list_all2 same_decl opts' opts"
  using assms(2)
proof (induction opts arbitrary: k)
  case (Cons opt opts)
  obtain r opt' where d: "option_default (malloc k) opt = Some (r, opt')" "r \<in> {CC_OK, CC_ERROR}" "wt opt'" "same_decl opt' opt"
    using option_default_ok [of opt "malloc k"] assms(1) Cons.prems by auto
  obtain r' opts' where IH: "option_load_default malloc (Suc k) opts = Some (r', opts')" "r' \<in> {CC_OK, CC_ERROR}" "list_all wt opts'"
      "list_all2 same_decl opts' opts"
    using Cons.IH [of "Suc k"] Cons.prems by auto
  have "list_all2 same_decl opts opts" by (simp add: list_all2_same same_decl_def)
  then show ?case using d IH Cons.prems by auto
qed simp


section \<open>Parsing is total\<close>

lemma name_loop_ok:
  assumes "p \<le> length line" "length name = p" "p \<le> 32"
  shows "\<exists>r p' name'. name_loop line p name = Some (r, p', name') \<and> r \<in> {CC_OK, CC_ERROR} \<and> p' \<le> length line \<and>
    p' \<le> 32 \<and> length name' = p'"
  using assms
proof (induction line p name rule: name_loop.induct)
  case (1 line p name)
  show ?case
  proof (cases "p < length line \<and> p < 32 \<and> line ! p \<noteq> 58 \<and> allowed_in_name (line ! p)")
    case True
    then have "\<exists>r p' name'. name_loop line (p + 1) (name @ [line ! p]) = Some (r, p', name') \<and> r \<in> {CC_OK, CC_ERROR} \<and>
        p' \<le> length line \<and> p' \<le> 32 \<and> length name' = p'"
      using 1 by (intro "1.IH") (auto simp: line_at_def OPTNAME_MAXLEN_def)
    then show ?thesis using True 1 by (subst name_loop.simps) (simp add: line_at_def OPTNAME_MAXLEN_def)
  qed (use 1 in \<open>subst name_loop.simps; auto simp: line_at_def OPTNAME_MAXLEN_def\<close>)
qed

lemma ltrim_ok:
  assumes "p \<le> length line" "q < length line"
  shows "\<exists>p'. ltrim line p q = Some p' \<and> p \<le> p'"
  using assms
proof (induction line p q rule: ltrim.induct)
  case (1 line p q)
  show ?case
  proof (cases "p < q \<and> isspace (line ! p)")
    case True
    then have "\<exists>p'. ltrim line (p + 1) q = Some p' \<and> p + 1 \<le> p'"
      using 1 by (intro "1.IH") (auto simp: line_at_def)
    then show ?thesis using True 1 by (subst ltrim.simps) (auto simp: line_at_def)
  qed (use 1 in \<open>subst ltrim.simps; auto simp: line_at_def\<close>)
qed

lemma rtrim_ok: "1 \<le> p \<Longrightarrow> q < length line \<Longrightarrow> \<exists>q'. rtrim line p q = Some q' \<and> q' \<le> q"
  by (induction line p q rule: rtrim.induct) (fastforce simp: line_at_def)+

lemma option_parse_ok:
  "\<exists>r name val. option_parse line = Some (r, name, val) \<and> r \<in> {CC_OK, CC_ERROR, CC_EEMPTY} \<and> length val \<le> 255"
proof (cases "line = [] \<or> isspace (hd line) \<or> hd line = 35 \<or> length line > 1024")
  case False
  obtain r p name where n: "name_loop line 0 [] = Some (r, p, name)" "r \<in> {CC_OK, CC_ERROR}" "p \<le> length line"
      "p \<le> 32" "length name = p"
    using name_loop_ok [of 0 line "[]"] by auto
  show ?thesis
  proof (cases "r = CC_OK \<and> p < length line \<and> p \<le> 31")
    case True
    have ll: "length line - 1 < length line" using False by simp
    obtain p' where p': "ltrim line (p + 1) (length line - 1) = Some p'" "p + 1 \<le> p'"
      using ltrim_ok [of "p + 1" line "length line - 1"] True ll by auto
    obtain q where q: "rtrim line p' (length line - 1) = Some q" "q \<le> length line - 1"
      using rtrim_ok [of p' "length line - 1" line] p'(2) ll by auto
    have "p' \<le> q \<Longrightarrow> mem_read line p' (q - p' + 1) = Some (take (q - p' + 1) (drop p' line))"
      using q(2) ll by (intro mem_read_Some) simp
    then show ?thesis
      using False n True p'(1) q(1)
      by (auto simp: option_parse_def OPTLINE_MAXLEN_def OPTNAME_MAXLEN_def OPTVAL_MAXLEN_def Let_def)
  qed (use False n in \<open>auto simp: option_parse_def OPTLINE_MAXLEN_def OPTNAME_MAXLEN_def Let_def\<close>)
qed (auto simp: option_parse_def OPTLINE_MAXLEN_def Let_def)

lemma find_option_Some: "find_option name opts = Some i \<Longrightarrow> i < length opts \<and> op_name (opts ! i) = name"
  by (induction opts arbitrary: i) (auto split: if_splits)

lemma same_decl_update:
  "list_all2 same_decl opts' (opts[i := opt]) \<Longrightarrow> i < length opts \<Longrightarrow> same_decl opt (opts ! i) \<Longrightarrow> list_all2 same_decl opts' opts"
  by (auto simp: list_all2_conv_all_nth nth_list_update same_decl_def split: if_splits)

lemma load_loop_ok:
  assumes "\<forall>k. malloc_spec (malloc k)" "strtod_spec strtod" "list_all wt opts"
  shows "\<exists>r opts' e'. load_loop strtod malloc k e fl opts = Some (r, opts', e') \<and>
    r \<in> {CC_OK, CC_ERROR} \<and> list_all wt opts' \<and> list_all2 same_decl opts' opts"
  using assms
proof (induction strtod malloc k e fl opts rule: load_loop.induct)
  case (1 strtod malloc k e fl opts)
  have sd0: "list_all2 same_decl opts opts" by (simp add: list_all2_same same_decl_def)
  show ?case
  proof (cases "fgets (OPTLINE_MAXLEN + 1) fl")
    case None
    then show ?thesis using 1 sd0 by (subst load_loop.simps) simp
  next
    case (Some lr)
    obtain line rest where lr: "lr = (line, rest)" by (cases lr)
    obtain r name val where p: "option_parse (cstr line) = Some (r, name, val)" "r \<in> {CC_OK, CC_ERROR, CC_EEMPTY}" "length val \<le> 255"
      using option_parse_ok by blast
    consider "r = CC_EEMPTY" | "r = CC_ERROR" | "r = CC_OK" "find_option name opts = None"
      | i where "r = CC_OK" "find_option name opts = Some i" using p(2) by (cases "find_option name opts") auto
    then show ?thesis
    proof cases
      case 1
      then show ?thesis
        using Some lr p "1.IH"(1) [OF Some lr [symmetric] p(1) refl refl] "1.prems" by (subst load_loop.simps) simp
    next
      case 4
      have i: "i < length opts" using find_option_Some [OF 4(2)] by blast
      then have "wt (opts ! i)" using "1.prems"(3) by (simp add: list_all_length)
      then obtain r' opt e' where o: "option_set strtod (malloc k) e (opts ! i) (Ptr val) = Some (r', opt, e')"
          "r' \<in> {CC_OK, CC_ERROR}" "wt opt" "same_decl opt (opts ! i)"
        using option_set_ok "1.prems"(1,2) p(3) by blast
      have wt: "list_all wt (opts[i := opt])" using "1.prems"(3) o(3) i by (auto simp: list_all_length nth_list_update)
      have sd: "list_all2 same_decl (opts[i := opt]) opts" using o(4) i sd0 by (auto simp: list_all2_conv_all_nth nth_list_update)
      show ?thesis
      proof (cases "r' = CC_OK")
        case True
        have "\<exists>r opts' e''. load_loop strtod malloc (Suc k) e' rest (opts[i := opt]) = Some (r, opts', e'') \<and>
            r \<in> {CC_OK, CC_ERROR} \<and> list_all wt opts' \<and> list_all2 same_decl opts' (opts[i := opt])"
          using "1.IH"(2) [OF Some lr [symmetric] p(1) refl refl _ _ 4(2) o(1)] 4(1) True "1.prems" wt by simp
        then show ?thesis
          using Some lr p 4 o(1) True same_decl_update [OF _ i o(4)] by (subst load_loop.simps) auto
      qed (use Some lr p 4 o wt sd in \<open>subst load_loop.simps; auto\<close>)
    qed (use Some lr p "1.prems" sd0 in \<open>subst load_loop.simps; auto\<close>)+
  qed
qed


section \<open>Lines of the documented form\<close>

definition legal :: "bytes \<Rightarrow> bytes \<Rightarrow> bool" where
  "legal name val \<longleftrightarrow> name \<noteq> [] \<and> length name \<le> 31 \<and> list_all allowed_in_name name \<and>
     val \<noteq> [] \<and> length val \<le> 255 \<and> \<not> isspace (hd val) \<and> \<not> isspace (last val) \<and> 0 \<notin> set val"

lemma allowed_facts: "allowed_in_name c \<Longrightarrow> c \<noteq> 58 \<and> \<not> isspace c \<and> c \<noteq> 35 \<and> c \<noteq> 0 \<and> c \<noteq> 10"
  by (auto simp: allowed_in_name_def isalnum_def isdigit_def isspace_def) (simp_all add: word_le_nat_alt word_less_nat_alt)

lemma name_loop_name:
  "list_all allowed_in_name b \<Longrightarrow> length a + length b \<le> 31 \<Longrightarrow>
   name_loop (a @ b @ 58 # rest) (length a) a = Some (CC_OK, length a + length b, a @ b)"
proof (induction b arbitrary: a)
  case Nil
  then show ?case by (subst name_loop.simps) (simp add: line_at_def)
next
  case (Cons c b)
  have "name_loop ((a @ [c]) @ b @ 58 # rest) (length (a @ [c])) (a @ [c]) =
      Some (CC_OK, length (a @ [c]) + length b, (a @ [c]) @ b)"
    using Cons.prems by (intro Cons.IH) simp_all
  then show ?case
    using Cons.prems allowed_facts [of c] by (subst name_loop.simps) (simp add: line_at_def OPTNAME_MAXLEN_def)
qed

lemma ltrim_blanks:
  "list_all isspace b \<Longrightarrow> \<not> isspace x \<Longrightarrow> length a + length b \<le> q \<Longrightarrow>
   ltrim (a @ b @ x # rest) (length a) q = Some (length a + length b)"
proof (induction b arbitrary: a)
  case Nil
  then show ?case by (subst ltrim.simps) (simp add: line_at_def)
next
  case (Cons c b)
  have "ltrim ((a @ [c]) @ b @ x # rest) (length (a @ [c])) q = Some (length (a @ [c]) + length b)"
    using Cons.prems by (intro Cons.IH) simp_all
  then show ?case using Cons.prems by (subst ltrim.simps) (simp add: line_at_def)
qed

lemma rtrim_blanks:
  "list_all isspace b \<Longrightarrow> \<not> isspace y \<Longrightarrow> p \<le> length a \<Longrightarrow>
   rtrim (a @ y # b @ c) p (length a + length b) = Some (length a)"
proof (induction b arbitrary: c rule: rev_induct)
  case Nil
  then show ?case by (cases "length a") (auto simp: line_at_def nth_append)
next
  case (snoc x b)
  then show ?case using snoc.IH [of "x # c"] by (simp add: line_at_def nth_append)
qed

lemma option_parse_legal:
  assumes "legal name val" "list_all isspace b1" "list_all isspace b2"
    "length (name @ 58 # b1 @ val @ b2) \<le> 1024"
  shows "option_parse (name @ 58 # b1 @ val @ b2) = Some (CC_OK, name, val)"
proof -
  let ?line = "name @ 58 # b1 @ val @ b2"
  let ?p = "length name + 1 + length b1"
  obtain x v where v: "val = x # v" using assms(1) by (cases val) (auto simp: legal_def)
  obtain u y where u: "val = u @ [y]" using assms(1) by (cases val rule: rev_exhaust) (auto simp: legal_def)
  have sp: "\<not> isspace x" "\<not> isspace y" using assms(1) v last_snoc [of u y] unfolding u legal_def by auto
  have lv: "length val = length u + 1" using u by simp
  have "name_loop ?line 0 [] = Some (CC_OK, length name, name)"
    using name_loop_name [of name "[]"] assms(1) by (simp add: legal_def)
  moreover have "ltrim ?line (length name + 1) (length ?line - 1) = Some ?p"
    using ltrim_blanks [OF assms(2) sp(1), of "name @ [58]" "length ?line - 1" "v @ b2"] v by simp
  moreover have "rtrim ?line ?p (length ?line - 1) = Some (?p + length u)"
    using rtrim_blanks [OF assms(3) sp(2), of ?p "name @ 58 # b1 @ u" "[]"] u by (simp add: ac_simps)
  moreover have "mem_read ?line ?p (length val) = Some val"
    using mem_read_Some [of ?p "length val" ?line] by simp
  moreover have "hd ?line \<noteq> 35 \<and> \<not> isspace (hd ?line)"
    using assms(1) allowed_facts [of "hd name"] by (cases name) (auto simp: legal_def)
  ultimately show ?thesis
    using assms(1,4) lv by (simp add: option_parse_def OPTLINE_MAXLEN_def OPTNAME_MAXLEN_def OPTVAL_MAXLEN_def legal_def del: rtrim.simps)
qed


section \<open>Properties\<close>

text \<open>
  C10. Loading a configuration. For every file, whatever bytes it holds, \<^verbatim>\<open>option_load_file\<close> returns
  \<^verbatim>\<open>CC_OK\<close> or \<^verbatim>\<open>CC_ERROR\<close>: no buffer is overrun and no assertion fails. Every option has a value
  of its own type afterwards, and its name, type, default and description are the old ones.
\<close>

theorem load_file_well_typed:
  assumes "list_all wt opts" "\<forall>k. malloc_spec (malloc k)" "strtod_spec strtod"
  shows "\<exists>r opts' e'. option_load_file strtod malloc e file fe opts = Some (r, opts', e') \<and>
    (r = CC_OK \<or> r = CC_ERROR) \<and> list_all wt opts' \<and> list_all2 same_decl opts' opts"
proof -
  have "\<exists>r opts' e'. load_loop strtod malloc 0 e file opts = Some (r, opts', e') \<and>
      r \<in> {CC_OK, CC_ERROR} \<and> list_all wt opts' \<and> list_all2 same_decl opts' opts"
    using load_loop_ok [OF assms(2,3,1)] .
  then show ?thesis by (auto simp: option_load_file_def)
qed

text \<open>One option of each type; there is no memory for the string.\<close>

definition sample_options :: "nat option_s list" where
  "sample_options = [
     \<lparr>op_name = lit ''daemonize'', op_set = False, op_type = OPTION_TYPE_BOOL, op_default = Vbool False,
      op_val = Vbool False, op_description = []\<rparr>,
     \<lparr>op_name = lit ''slab_size'', op_set = False, op_type = OPTION_TYPE_UINT, op_default = Vuint 1024,
      op_val = Vuint 0, op_description = []\<rparr>,
     \<lparr>op_name = lit ''log'', op_set = False, op_type = OPTION_TYPE_STR, op_default = Vstr Null,
      op_val = Vstr Null, op_description = []\<rparr>]"

theorem load_file_well_typed_witness:
  "\<exists>r opts' e'. option_load_file (\<lambda>_. (0, 0, False)) (\<lambda>_ _. Null) False (lit ''slab_size: 4 * 4'') False sample_options =
      Some (r, opts', e') \<and> (r = CC_OK \<or> r = CC_ERROR) \<and> list_all wt opts' \<and> list_all2 same_decl opts' sample_options"
  by (rule load_file_well_typed) (simp_all add: sample_options_def wt_def malloc_spec_def strtod_spec_def)

text \<open>The effect of a list of settings, in order and up to the first one that fails.\<close>

fun option_set_all ::
  "(bytes \<Rightarrow> 'd \<times> nat \<times> bool) \<Rightarrow> (nat \<Rightarrow> malloc_fn) \<Rightarrow> nat \<Rightarrow> bool \<Rightarrow> (bytes \<times> bytes) list \<Rightarrow> 'd option_s list \<Rightarrow>
   (rstatus \<times> 'd option_s list \<times> bool) option" where
  "option_set_all strtod malloc k e [] opts = Some (CC_OK, opts, e)"
| "option_set_all strtod malloc k e ((name, val) # ss) opts =
     (case find_option name opts of
        None \<Rightarrow> Some (CC_ERROR, opts, e)
      | Some i \<Rightarrow> do {
          (r, opt, e) \<leftarrow> option_set strtod (malloc k) e (opts ! i) (Ptr val);
          if r = CC_OK then option_set_all strtod malloc (Suc k) e ss (opts[i := opt])
          else Some (CC_ERROR, opts[i := opt], e)
        })"

definition config_line :: "bytes \<times> bytes \<Rightarrow> bytes" where
  "config_line s = (case s of (name, val) \<Rightarrow> name @ 58 # 32 # val @ [10])"

definition setting_ok :: "bytes \<times> bytes \<Rightarrow> bool" where
  "setting_ok s \<longleftrightarrow> legal (fst s) (snd s) \<and> 10 \<notin> set (snd s)"

lemma fgets_line:
  assumes "10 \<notin> set l" "length l < 1023"
  shows "fgets (OPTLINE_MAXLEN + 1) (l @ 10 # rest) = Some (l @ [10], rest)"
proof -
  have "takeWhile (\<lambda>c. c \<noteq> 10) (l @ 10 # rest) = l" using assms(1) by (induction l) auto
  then show ?thesis using assms(2) by (simp add: fgets_def OPTLINE_MAXLEN_def min_def)
qed

lemma cstr_id: "0 \<notin> set l \<Longrightarrow> cstr l = l"
  by (induction l) (auto simp: cstr_def)

lemma load_config_line:
  assumes "setting_ok (name, val)"
  shows "load_loop strtod malloc k e (config_line (name, val) @ rest) opts =
    (case find_option name opts of
        None \<Rightarrow> Some (CC_ERROR, opts, e)
      | Some i \<Rightarrow> do {
          (r, opt, e) \<leftarrow> option_set strtod (malloc k) e (opts ! i) (Ptr val);
          if r \<noteq> CC_OK then Some (CC_ERROR, opts[i := opt], e)
          else load_loop strtod malloc (Suc k) e rest (opts[i := opt])
        })"
proof -
  let ?l = "name @ 58 # 32 # val"
  have nm: "c \<in> set name \<Longrightarrow> c \<noteq> 10 \<and> c \<noteq> 0" for c
    using assms allowed_facts by (auto simp: setting_ok_def legal_def list_all_iff)
  have "fgets (OPTLINE_MAXLEN + 1) (?l @ 10 # rest) = Some (?l @ [10], rest)"
    using assms nm [of 10] by (intro fgets_line) (auto simp: setting_ok_def legal_def)
  moreover have "cstr (?l @ [10]) = ?l @ [10]"
    using assms nm [of 0] by (intro cstr_id) (auto simp: setting_ok_def legal_def)
  moreover have "option_parse (?l @ [10]) = Some (CC_OK, name, val)"
    using option_parse_legal [of name val "[32]" "[10]"] assms by (simp add: setting_ok_def isspace_def legal_def)
  ultimately show ?thesis by (subst load_loop.simps) (simp add: config_line_def)
qed

text \<open>
  C26. Loading is setting. A file of lines \<^verbatim>\<open>name: value\<close> is loaded as if the options were set one by
  one from the values, in the order of the lines and up to the first failure.
\<close>

theorem load_file_is_settings:
  assumes "list_all setting_ok ss"
  shows "option_load_file strtod malloc e (concat (map config_line ss)) False opts =
    option_set_all strtod malloc 0 e ss opts"
proof -
  have "load_loop strtod malloc k e (concat (map config_line ss)) opts = option_set_all strtod malloc k e ss opts" for k
    using assms
  proof (induction ss arbitrary: k e opts)
    case Nil
    then show ?case by (subst load_loop.simps) (simp add: fgets_def)
  next
    case (Cons s ss)
    then show ?case
      by (cases s) (auto simp: load_config_line split: option.splits intro!: Option.bind_cong)
  qed
  then show ?thesis by (cases "option_set_all strtod malloc 0 e ss opts") (auto simp: option_load_file_def)
qed

theorem load_file_is_settings_witness:
  "option_load_file (\<lambda>_. (0, 0, False)) (\<lambda>_ _. Null) False (lit ''daemonize: yes'' @ [10]) False sample_options =
    Some (CC_OK, sample_options[0 := (sample_options ! 0)\<lparr>op_set := True, op_val := Vbool True\<rparr>], False)"
  using load_file_is_settings [of "[(lit ''daemonize'', lit ''yes'')]" "\<lambda>_. (0, 0, False)" "\<lambda>_ _. Null" False sample_options]
  by (simp add: setting_ok_def legal_def allowed_in_name_def isalnum_def isdigit_def isspace_def config_line_def
      sample_options_def option_set_def option_parse_bool_def str3cmp_ok)



text \<open>\<^verbatim>\<open>errno\<close> is tested but never cleared: once it is \<^verbatim>\<open>ERANGE\<close>, no value of type double is accepted.\<close>

lemma fpn_stale_errno: "option_parse_fpn strtod True opt s = Some (CC_ERROR, opt, True)"
  by (simp add: option_parse_fpn_def split: prod.splits)

text \<open>A setting that fails for want of memory has already released the old string.\<close>

lemma parse_str_loses_value:
  "op_val opt = Vstr (Ptr m) \<Longrightarrow> option_parse_str (\<lambda>_. Null) opt (Ptr s) = Some (CC_ERROR, opt\<lparr>op_set := True, op_val := Vstr Null\<rparr>)"
  by (simp add: option_parse_str_def option_str_def copy_str_def cc_alloc_def)

end
