(* ===== verification/Cc_Channel.thy ===== *)
theory Cc_Channel
  imports Cc_Prelude Cc_Metric
begin

text \<open>
  The channel interface of \<^verbatim>\<open>include/channel/cc_channel.h\<close> and the system calls behind the channels.

  The kernel is external: it is a function from the calls made so far, with their results, and the
  next call to its result, and is a component of the state, so that all that is known about it is an
  invariant of that state (\<open>kernel_ok\<close>). The trace records every call with its result, the latest
  first; \<open>inbound\<close> and \<open>outbound\<close> are the bytes that have come in and gone out on a descriptor
  according to the trace.
\<close>

section \<open>Levels and states of a channel\<close>

datatype ch_level = CHANNEL_INVALID | CHANNEL_META | CHANNEL_BASE

datatype ch_state =
    CHANNEL_UNKNOWN | CHANNEL_LISTEN | CHANNEL_OPEN | CHANNEL_ESTABLISHED | CHANNEL_TERM | CHANNEL_ERROR
  | CHANNEL_SENTINEL


section \<open>System calls\<close>

datatype sockopt = SO_REUSEADDR | TCP_NODELAY | SO_KEEPALIVE | SO_LINGER | SO_SNDBUF | SO_RCVBUF | SO_ERROR

record addrinfo =
  ai_family :: int
  ai_socktype :: int
  ai_protocol :: int
  ai_addr :: bytes

text \<open>Handlers of signals; a handler of the program is known by a number.\<close>

datatype sig_fn = SIG_DFL | SIG_IGN | Sig_Fn nat

record signal =
  sg_info :: string
  sg_flags :: int
  sg_handler :: sig_fn
  sg_mask :: u32

datatype scall =
    Sys_socket int int int
  | Sys_connect int bytes
  | Sys_bind int bytes
  | Sys_listen int int
  | Sys_accept int int
  | Sys_close int
  | Sys_getfl int
  | Sys_setfl int int
  | Sys_setsockopt int sockopt "int list"
  | Sys_getsockopt int sockopt
  | Sys_read int nat
  | Sys_write int bytes
  | Sys_readv int "nat list"
  | Sys_writev int "bytes list"
  | Sys_pipe
  | Sys_sigaction int int "int list" sig_fn
  | Sys_open "bytes ptr" int
  | Sys_rename "bytes ptr" bytes
  | Sys_epoll_create int
  | Sys_epoll_ctl int int int u32 "nat ptr"
  | Sys_epoll_wait int int int

record sres =
  sr_ret :: int
  sr_errno :: int
  sr_data :: bytes
  sr_vals :: "int list"

type_synonym trace = "(scall \<times> sres) list"
type_synonym kernel = "trace \<Rightarrow> scall \<Rightarrow> sres"

text \<open>The system as a process sees it, with the table \<^verbatim>\<open>signals\<close> of the library.\<close>

record os =
  os_kernel :: kernel
  os_trace :: trace
  os_errno :: int
  os_signals :: "signal list"

definition EINTR :: int where "EINTR = 4"
definition EAGAIN :: int where "EAGAIN = 11"
definition EWOULDBLOCK :: int where "EWOULDBLOCK = EAGAIN"
definition EINPROGRESS :: int where "EINPROGRESS = 115"
definition O_NONBLOCK :: int where "O_NONBLOCK = 2048"
definition SOCK_NONBLOCK :: int where "SOCK_NONBLOCK = 2048"

text \<open>A call that fails sets \<^verbatim>\<open>errno\<close>; one that succeeds leaves it.\<close>

definition syscall :: "scall \<Rightarrow> os \<Rightarrow> sres \<times> os" where
  "syscall c s = (let r = os_kernel s (os_trace s) c in
     (r, s\<lparr>os_trace := (c, r) # os_trace s, os_errno := (if sr_ret r < 0 then sr_errno r else os_errno s)\<rparr>))"

definition SIGNAL_MIN :: nat where "SIGNAL_MIN = 1"
definition SIGNAL_MAX :: nat where "SIGNAL_MAX = 31"
definition SIGHUP :: int where "SIGHUP = 1"
definition SIGSEGV :: int where "SIGSEGV = 11"
definition SIGPIPE :: int where "SIGPIPE = 13"

text \<open>\<^verbatim>\<open>signal_override\<close> of \<^verbatim>\<open>src/cc_signal.c\<close>; an entry outside of the table is undefined.\<close>

definition signal_override :: "int \<Rightarrow> string \<Rightarrow> int \<Rightarrow> u32 \<Rightarrow> sig_fn \<Rightarrow> os \<Rightarrow> (int \<times> os) option" where
  "signal_override signo info flags msk handler s = do {
     ASSERT (0 \<le> signo \<and> nat signo < length (os_signals s));
     let s = s\<lparr>os_signals := (os_signals s)[nat signo :=
       \<lparr>sg_info = info, sg_flags = flags, sg_handler = handler, sg_mask = msk\<rparr>]\<rparr>;
     let sa_mask = map int (filter (bit msk) [SIGNAL_MIN ..< SIGNAL_MAX]);
     let (r, s) = syscall (Sys_sigaction signo flags sa_mask handler) s;
     Some (sr_ret r, s)
   }"

definition channel_sigpipe_ignore :: "os \<Rightarrow> (int \<times> os) option" where
  "channel_sigpipe_ignore = signal_override SIGPIPE ''ignoring sigpipe'' 0 0 SIG_IGN"

text \<open>The table has no entry for signal 31, and the mask never contains it.\<close>

lemma signal_31: "length (os_signals s) = SIGNAL_MAX \<Longrightarrow> signal_override 31 info flags msk handler s = None"
  by (simp add: signal_override_def SIGNAL_MAX_def)

text \<open>What the documentation of the calls promises about their results.\<close>

fun result_ok :: "scall \<Rightarrow> sres \<Rightarrow> bool" where
  "result_ok (Sys_read fd n) r = (if sr_ret r < 0 then sr_data r = [] else int (length (sr_data r)) = sr_ret r \<and> length (sr_data r) \<le> n)"
| "result_ok (Sys_readv fd ns) r =
     (if sr_ret r < 0 then sr_data r = [] else int (length (sr_data r)) = sr_ret r \<and> length (sr_data r) \<le> sum_list ns)"
| "result_ok (Sys_write fd bs) r = (sr_ret r \<le> int (length bs))"
| "result_ok (Sys_writev fd bss) r = (sr_ret r \<le> int (length (concat bss)))"
| "result_ok _ _ = True"

definition interrupted :: "sres \<Rightarrow> bool" where
  "interrupted r \<longleftrightarrow> sr_ret r < 0 \<and> sr_errno r = EINTR"

text \<open>The trace after the same call has been tried \<open>m\<close> times.\<close>

fun tried :: "kernel \<Rightarrow> scall \<Rightarrow> trace \<Rightarrow> nat \<Rightarrow> trace" where
  "tried k c t 0 = t"
| "tried k c t (Suc m) = (let t' = tried k c t m in (c, k t' c) # t')"

text \<open>A kernel returns proper results, and does not interrupt one call for ever.\<close>

definition kernel_ok :: "kernel \<Rightarrow> bool" where
  "kernel_ok k \<longleftrightarrow> (\<forall>t c. result_ok c (k t c)) \<and> (\<forall>t c. \<exists>m. \<not> interrupted (k (tried k c t m) c))"


section \<open>Repeating an interrupted call\<close>

text \<open>\<^verbatim>\<open>for (;;)\<close> with a body that continues (\<^term>\<open>Inl\<close>) or returns (\<^term>\<open>Inr\<close>).\<close>

partial_function (option) retry :: "('s \<Rightarrow> 's + 'a) \<Rightarrow> 's \<Rightarrow> 'a option" where
  [code]: "retry body s = (case body s of Inl s' \<Rightarrow> retry body s' | Inr a \<Rightarrow> Some a)"

lemma retry_Inr: "body s = Inr a \<Longrightarrow> retry body s = Some a"
  by (subst retry.simps) simp

lemma retry_Inl: "body s = Inl s' \<Longrightarrow> retry body s = retry body s'"
  by (subst retry.simps) simp

text \<open>
  A loop around one system call \<open>c\<close> that goes on exactly when the call is interrupted ends, and its
  result is that of the body in a state where the call is not interrupted. The relation \<open>R\<close> is kept by
  the interruptions.
\<close>

lemma retry_ends:
  assumes k: "kernel_ok k" and s0: "R s0" "os_kernel (osof s0) = k"
    and step: "\<And>s. R s \<Longrightarrow> os_kernel (osof s) = k \<Longrightarrow> interrupted (k (os_trace (osof s)) c) \<Longrightarrow>
      \<exists>s'. body s = Inl s' \<and> R s' \<and> os_kernel (osof s') = k \<and> os_trace (osof s') = (c, k (os_trace (osof s)) c) # os_trace (osof s)"
    and stop: "\<And>s. R s \<Longrightarrow> os_kernel (osof s) = k \<Longrightarrow> \<not> interrupted (k (os_trace (osof s)) c) \<Longrightarrow> \<exists>a. body s = Inr a"
  shows "\<exists>s a. R s \<and> os_kernel (osof s) = k \<and> \<not> interrupted (k (os_trace (osof s)) c) \<and> body s = Inr a \<and> retry body s0 = Some a"
proof -
  have "\<exists>s a. R s \<and> os_kernel (osof s) = k \<and> \<not> interrupted (k (os_trace (osof s)) c) \<and> body s = Inr a \<and> retry body s0 = Some a"
    if "R s0" "os_kernel (osof s0) = k" "\<not> interrupted (k (tried k c (os_trace (osof s0)) m) c)" for m s0
    using that
  proof (induction m arbitrary: s0)
    case 0
    then show ?case using stop [of s0] retry_Inr by fastforce
  next
    case (Suc m)
    show ?case
    proof (cases "interrupted (k (os_trace (osof s0)) c)")
      case True
      obtain s' where s': "body s0 = Inl s'" "R s'" "os_kernel (osof s') = k"
          "os_trace (osof s') = (c, k (os_trace (osof s0)) c) # os_trace (osof s0)"
        using step [OF Suc.prems(1,2) True] by blast
      have "tried k c (os_trace (osof s')) m = tried k c (os_trace (osof s0)) (Suc m)"
        unfolding s'(4) by (induction m) (simp_all add: Let_def)
      then show ?thesis using Suc.IH [OF s'(2,3)] Suc.prems(3) retry_Inl [of body, OF s'(1)] by simp
    next
      case False
      then show ?thesis using stop [OF Suc.prems(1,2)] retry_Inr Suc.prems by fastforce
    qed
  qed
  then show ?thesis using s0 k unfolding kernel_ok_def by blast
qed


section \<open>Bytes in and out\<close>

fun in_of :: "int \<Rightarrow> scall \<times> sres \<Rightarrow> bytes" where
  "in_of fd (Sys_read f n, r) = (if f = fd \<and> sr_ret r > 0 then sr_data r else [])"
| "in_of fd (Sys_readv f ns, r) = (if f = fd \<and> sr_ret r > 0 then sr_data r else [])"
| "in_of fd _ = []"

fun out_of :: "int \<Rightarrow> scall \<times> sres \<Rightarrow> bytes" where
  "out_of fd (Sys_write f bs, r) = (if f = fd then take (nat (sr_ret r)) bs else [])"
| "out_of fd (Sys_writev f bss, r) = (if f = fd then take (nat (sr_ret r)) (concat bss) else [])"
| "out_of fd _ = []"

definition inbound :: "int \<Rightarrow> trace \<Rightarrow> bytes" where
  "inbound fd t = concat (rev (map (in_of fd) t))"

definition outbound :: "int \<Rightarrow> trace \<Rightarrow> bytes" where
  "outbound fd t = concat (rev (map (out_of fd) t))"

lemma inbound_Cons [simp]: "inbound fd (e # t) = inbound fd t @ in_of fd e"
  by (simp add: inbound_def)

lemma outbound_Cons [simp]: "outbound fd (e # t) = outbound fd t @ out_of fd e"
  by (simp add: outbound_def)

section \<open>The environment of a channel\<close>

text \<open>The metrics of its module and the system. An operation counts its calls in the metrics.\<close>

record 'm io_env =
  te_metrics :: "'m metrics"
  te_os :: os

definition te_incr :: "'m \<Rightarrow> 'm io_env \<Rightarrow> 'm io_env" where
  "te_incr x e = e\<lparr>te_metrics := INCR (te_metrics e) x\<rparr>"

definition te_incr_n :: "'m \<Rightarrow> int \<Rightarrow> 'm io_env \<Rightarrow> 'm io_env" where
  "te_incr_n x n e = e\<lparr>te_metrics := INCR_N (te_metrics e) x (word_of_int n)\<rparr>"

definition te_call :: "(os \<Rightarrow> 'a \<times> os) \<Rightarrow> 'm io_env \<Rightarrow> 'a \<times> 'm io_env" where
  "te_call f e = (let (a, s) = f (te_os e) in (a, e\<lparr>te_os := s\<rparr>))"

lemma te_simps [simp]:
  "te_os (te_incr x e) = te_os e" "te_os (te_incr_n x n e) = te_os e"
  by (simp_all add: te_incr_def te_incr_n_def)

lemma te_call_syscall: "te_call (syscall c) e =
  (let r = os_kernel (te_os e) (os_trace (te_os e)) c in
   (r, e\<lparr>te_os := (te_os e)\<lparr>os_trace := (c, r) # os_trace (te_os e),
      os_errno := (if sr_ret r < 0 then sr_errno r else os_errno (te_os e))\<rparr>\<rparr>))"
  by (simp add: te_call_def syscall_def Let_def)

lemma kernel_result: "kernel_ok k \<Longrightarrow> result_ok c (k t c)"
  by (simp add: kernel_ok_def)

lemma interrupted_quiet:
  "interrupted r \<Longrightarrow> in_of fd (c, r) = []" "interrupted r \<Longrightarrow> out_of fd (c, r) = []"
  by (cases c; simp add: interrupted_def)+

text \<open>
  Operations on a channel whose loop repeats one call while it is interrupted: they return, with the
  result of the body in an environment in which no further byte has come in or gone out.
\<close>

definition repeated :: "scall \<Rightarrow> 'm io_env \<Rightarrow> 'm io_env \<Rightarrow> bool" where
  "repeated sc e e' \<longleftrightarrow> os_kernel (te_os e') = os_kernel (te_os e) \<and>
     (\<exists>v. os_trace (te_os e') = v @ os_trace (te_os e) \<and> (\<forall>x \<in> set v. fst x = sc \<and> interrupted (snd x)))"

lemma inbound_append: "inbound fd (v @ t) = inbound fd t @ inbound fd v"
  by (simp add: inbound_def)

lemma outbound_append: "outbound fd (v @ t) = outbound fd t @ outbound fd v"
  by (simp add: outbound_def)

lemma quiet_bytes: "(\<forall>x \<in> set v. interrupted (snd x)) \<Longrightarrow> inbound fd v = [] \<and> outbound fd v = []"
  by (induction v) (auto simp: interrupted_quiet inbound_def outbound_def)

lemma repeated_bytes:
  assumes "repeated sc e e'"
  shows "inbound fd (os_trace (te_os e')) = inbound fd (os_trace (te_os e))"
    "outbound fd (os_trace (te_os e')) = outbound fd (os_trace (te_os e))"
proof -
  obtain v where "os_trace (te_os e') = v @ os_trace (te_os e)" "\<forall>x \<in> set v. interrupted (snd x)"
    using assms by (auto simp: repeated_def)
  then show "inbound fd (os_trace (te_os e')) = inbound fd (os_trace (te_os e))"
    "outbound fd (os_trace (te_os e')) = outbound fd (os_trace (te_os e))"
    using quiet_bytes [of v fd] by (simp_all add: inbound_append outbound_append)
qed

lemma repeated_more:
  assumes "repeated sc e e'" "os_kernel (te_os e'') = os_kernel (te_os e')" "interrupted r"
    "os_trace (te_os e'') = (sc, r) # os_trace (te_os e')"
  shows "repeated sc e e''"
proof -
  obtain v where "os_trace (te_os e') = v @ os_trace (te_os e)" "\<forall>x \<in> set v. fst x = sc \<and> interrupted (snd x)"
    using assms by (auto simp: repeated_def)
  then have "os_trace (te_os e'') = ((sc, r) # v) @ os_trace (te_os e) \<and>
      (\<forall>x \<in> set ((sc, r) # v). fst x = sc \<and> interrupted (snd x))"
    using assms by simp
  then show ?thesis using assms(1,2) unfolding repeated_def by metis
qed

lemma retry_call:
  assumes k: "kernel_ok (os_kernel (te_os e))"
    and step: "\<And>e. interrupted (os_kernel (te_os e) (os_trace (te_os e)) sc) \<Longrightarrow>
      \<exists>e'. body (c, e) = Inl (c, e') \<and> te_os e' = snd (syscall sc (te_os e))"
    and stop: "\<And>e. \<not> interrupted (os_kernel (te_os e) (os_trace (te_os e)) sc) \<Longrightarrow> \<exists>a. body (c, e) = Inr a"
  obtains e' a where "body (c, e') = Inr a" "retry body (c, e) = Some a" "repeated sc e e'"
proof -
  let ?k = "os_kernel (te_os e)" and ?R = "\<lambda>s. fst s = c \<and> repeated sc e (snd s)" and ?os = "\<lambda>s. te_os (snd s)"
  have "\<exists>s a. ?R s \<and> os_kernel (?os s) = ?k \<and> \<not> interrupted (?k (os_trace (?os s)) sc) \<and> body s = Inr a \<and> retry body (c, e) = Some a"
    using k
  proof (rule retry_ends)
    fix s assume s: "?R s" "os_kernel (?os s) = ?k"
    show "\<exists>s'. body s = Inl s' \<and> ?R s' \<and> os_kernel (?os s') = ?k \<and> os_trace (?os s') = (sc, ?k (os_trace (?os s)) sc) # os_trace (?os s)"
      if i: "interrupted (?k (os_trace (?os s)) sc)"
    proof -
      obtain e' where e': "body s = Inl (c, e')" "te_os e' = snd (syscall sc (?os s))"
        using step [of "snd s"] i s by (cases s) auto
      then have "os_trace (te_os e') = (sc, ?k (os_trace (?os s)) sc) # os_trace (?os s)" "os_kernel (te_os e') = ?k"
        using s by (simp_all add: syscall_def Let_def)
      then show ?thesis using e' repeated_more [of sc e "snd s" e'] i s by simp
    qed
    show "\<exists>a. body s = Inr a" if "\<not> interrupted (?k (os_trace (?os s)) sc)"
      using stop [of "snd s"] that s by (cases s) auto
  qed (simp_all add: repeated_def)
  then show thesis using that by auto
qed


section \<open>Descriptors and the contract of a channel\<close>

text \<open>
  The open descriptors. A process starts with the three standard ones; a descriptor is released by
  \<^verbatim>\<open>close\<close> whatever it returns, as on Linux.
\<close>

fun open_fds :: "trace \<Rightarrow> int set" where
  "open_fds [] = {0, 1, 2}"
| "open_fds ((Sys_socket a b d, r) # t) = (if sr_ret r < 0 then open_fds t else insert (sr_ret r) (open_fds t))"
| "open_fds ((Sys_accept fd fl, r) # t) = (if sr_ret r < 0 then open_fds t else insert (sr_ret r) (open_fds t))"
| "open_fds ((Sys_open a b, r) # t) = (if sr_ret r < 0 then open_fds t else insert (sr_ret r) (open_fds t))"
| "open_fds ((Sys_epoll_create a, r) # t) = (if sr_ret r < 0 then open_fds t else insert (sr_ret r) (open_fds t))"
| "open_fds ((Sys_pipe, r) # t) = (if sr_ret r < 0 then open_fds t else set (sr_vals r) \<union> open_fds t)"
| "open_fds ((Sys_close fd, r) # t) = open_fds t - {fd}"
| "open_fds (_ # t) = open_fds t"

text \<open>A new descriptor is one that is not open.\<close>

definition fresh_fds :: "kernel \<Rightarrow> bool" where
  "fresh_fds k \<longleftrightarrow> (\<forall>t a b d. 0 \<le> sr_ret (k t (Sys_socket a b d)) \<longrightarrow> sr_ret (k t (Sys_socket a b d)) \<notin> open_fds t) \<and>
     (\<forall>t fd fl. 0 \<le> sr_ret (k t (Sys_accept fd fl)) \<longrightarrow> sr_ret (k t (Sys_accept fd fl)) \<notin> open_fds t)"

text \<open>
  The effect of receiving and of sending on the bytes that have come in (\<open>got\<close>) and gone out
  (\<open>sent\<close>) and on the two byte counts of a channel. The first component of a result is the number
  returned: a count, 0 at the end, or the code of an error.
\<close>

definition received ::
  "('s \<Rightarrow> bool) \<Rightarrow> ('s \<Rightarrow> bytes) \<Rightarrow> ('s \<Rightarrow> bytes) \<Rightarrow> ('s \<Rightarrow> u64) \<Rightarrow> ('s \<Rightarrow> u64) \<Rightarrow> nat \<Rightarrow> 's \<Rightarrow> int \<times> bytes \<times> 's \<Rightarrow> bool" where
  "received ok got sent nrecv nsend n s a \<longleftrightarrow> (case a of (code, d, s') \<Rightarrow>
     ok s' \<and> got s' = got s @ d \<and> sent s' = sent s \<and> length d \<le> n \<and> (0 \<le> code \<longrightarrow> int (length d) = code) \<and>
     (code < 0 \<longrightarrow> d = []) \<and> nrecv s' = nrecv s + of_nat (length d) \<and> nsend s' = nsend s)"

definition transmitted ::
  "('s \<Rightarrow> bool) \<Rightarrow> ('s \<Rightarrow> bytes) \<Rightarrow> ('s \<Rightarrow> bytes) \<Rightarrow> ('s \<Rightarrow> u64) \<Rightarrow> ('s \<Rightarrow> u64) \<Rightarrow> bytes \<Rightarrow> 's \<Rightarrow> int \<times> 's \<Rightarrow> bool" where
  "transmitted ok got sent nrecv nsend bs s a \<longleftrightarrow> (case a of (code, s') \<Rightarrow>
     ok s' \<and> got s' = got s \<and> sent s' = sent s @ take (nat code) bs \<and> nat code \<le> length bs \<and>
     nrecv s' = nrecv s \<and> nsend s' = nsend s + of_nat (nat code))"

text \<open>The contract of the receive and send operations of a channel.\<close>

locale channel_io =
  fixes recv :: "nat \<Rightarrow> 's \<Rightarrow> (int \<times> bytes \<times> 's) option" and send :: "bytes \<Rightarrow> 's \<Rightarrow> (int \<times> 's) option"
    and ok :: "'s \<Rightarrow> bool" and got sent :: "'s \<Rightarrow> bytes" and nrecv nsend :: "'s \<Rightarrow> u64"
  assumes recv_law: "ok s \<Longrightarrow> 0 < n \<Longrightarrow> \<exists>a. recv n s = Some a \<and> received ok got sent nrecv nsend n s a"
    and send_law: "ok s \<Longrightarrow> bs \<noteq> [] \<Longrightarrow> \<exists>a. send bs s = Some a \<and> transmitted ok got sent nrecv nsend bs s a"

end
