(* ===== verification/Cc_Tcp.thy ===== *)
theory Cc_Tcp
  imports Cc_Channel Cc_Pooled
begin

text \<open>
  TCP connections, \<^verbatim>\<open>include/channel/cc_tcp.h\<close> and \<^verbatim>\<open>src/channel/cc_tcp.c\<close>: the pool of connections
  and the operations on one connection over the system calls of theory \<open>Cc_Channel\<close>. An operation
  acts on the connection and on an environment, the module's metrics and the system. The link of
  the pool's queue is a cell of that queue.
\<close>

section \<open>Connections and their pool\<close>

datatype tcp_metric =
    M_tcp_conn_create | M_tcp_conn_create_ex | M_tcp_conn_destroy | M_tcp_conn_curr | M_tcp_conn_borrow
  | M_tcp_conn_borrow_ex | M_tcp_conn_return | M_tcp_conn_active | M_tcp_accept | M_tcp_accept_ex
  | M_tcp_reject | M_tcp_reject_ex | M_tcp_connect | M_tcp_connect_ex | M_tcp_close
  | M_tcp_recv | M_tcp_recv_ex | M_tcp_recv_byte | M_tcp_send | M_tcp_send_ex | M_tcp_send_byte

record tcp_conn =
  tc_free :: bool
  tc_level :: ch_level
  tc_sd :: int
  tc_recv_nbyte :: u64
  tc_send_nbyte :: u64
  tc_state :: ch_state
  tc_flags :: u16
  tc_err :: int

record tcp_world =
  tcw_arena :: "tcp_conn arena"
  tcw_metrics :: "tcp_metric metrics"

record tcp_module = "tcp_world pmodule" +
  tm_max_backlog :: int

definition TCP_POOLSIZE :: u32 where
  "TCP_POOLSIZE = 0"

definition TCP_BACKLOG :: int where
  "TCP_BACKLOG = 128"

definition TCP_CONN_SIZE :: u64 where
  "TCP_CONN_SIZE = 48"

definition tcp_conn_reset :: "tcp_conn \<Rightarrow> tcp_conn" where
  "tcp_conn_reset c = c\<lparr>tc_free := False, tc_level := CHANNEL_INVALID, tc_sd := 0, tc_recv_nbyte := 0,
     tc_send_nbyte := 0, tc_state := CHANNEL_UNKNOWN, tc_flags := 0, tc_err := 0\<rparr>"

text \<open>Memory as the allocator hands it out; every field is written by the reset that follows.\<close>

definition tcp_conn_raw :: tcp_conn where
  "tcp_conn_raw = \<lparr>tc_free = False, tc_level = CHANNEL_INVALID, tc_sd = 0, tc_recv_nbyte = 0, tc_send_nbyte = 0,
     tc_state = CHANNEL_UNKNOWN, tc_flags = 0, tc_err = 0\<rparr>"

definition tcp_conn_create :: "tcp_world \<Rightarrow> (nat ptr \<times> tcp_world) option" where
  "tcp_conn_create w =
     (case arena_request TCP_CONN_SIZE (tcw_arena w) of
        (Null, ar) \<Rightarrow> Some (Null, w\<lparr>tcw_arena := ar, tcw_metrics := INCR (tcw_metrics w) M_tcp_conn_create_ex\<rparr>)
      | (Ptr (a, _), ar) \<Rightarrow>
          Some (Ptr a, w\<lparr>tcw_arena := arena_put a (tcp_conn_reset tcp_conn_raw) ar,
                         tcw_metrics := INCR (INCR (tcw_metrics w) M_tcp_conn_create) M_tcp_conn_curr\<rparr>))"

definition tcp_conn_destroy :: "nat \<Rightarrow> tcp_world \<Rightarrow> tcp_world option" where
  "tcp_conn_destroy a w = do {
     _ \<leftarrow> ar_objs (tcw_arena w) a;
     Some (w\<lparr>tcw_arena := arena_free a (tcw_arena w),
             tcw_metrics := DECR (INCR (tcw_metrics w) M_tcp_conn_destroy) M_tcp_conn_curr\<rparr>)
   }"

definition tcp_conn_pool_destroy :: "tcp_module \<Rightarrow> tcp_module option" where
  "tcp_conn_pool_destroy m =
     (if \<not> pm_pool_init m then Some m
      else do {
        (p, w) \<leftarrow> FREEPOOL_DESTROY tcp_conn_destroy (pm_pool m) (pm_world m);
        Some (m\<lparr>pm_pool := p, pm_world := w, pm_pool_init := False\<rparr>)
      })"

text \<open>\<^verbatim>\<open>exit\<close> when the pool cannot be filled is a result of its own: \<^term>\<open>Inl ()\<close>.\<close>

definition tcp_conn_pool_create :: "u32 \<Rightarrow> tcp_module \<Rightarrow> (unit + tcp_module) option" where
  "tcp_conn_pool_create mx m = do {
     m \<leftarrow> (if pm_pool_init m then tcp_conn_pool_destroy m else Some m);
     p \<leftarrow> FREEPOOL_CREATE mx (pm_pool m);
     (p', w) \<leftarrow> FREEPOOL_PREALLOC tcp_conn_create mx p (pm_world m);
     Some (if pl_nfree p' < mx then Inl () else Inr (m\<lparr>pm_pool := p', pm_world := w, pm_pool_init := True\<rparr>))
   }"

definition tcp_conn_borrow :: "tcp_module \<Rightarrow> (nat ptr \<times> tcp_module) option" where
  "tcp_conn_borrow m = do {
     (r, p, w) \<leftarrow> FREEPOOL_BORROW tcp_conn_create (pm_pool m) (pm_world m);
     (case r of
        Null \<Rightarrow> Some (Null, m\<lparr>pm_pool := p, pm_world := w\<lparr>tcw_metrics := INCR (tcw_metrics w) M_tcp_conn_borrow_ex\<rparr>\<rparr>)
      | Ptr a \<Rightarrow> do {
          c \<leftarrow> ar_objs (tcw_arena w) a;
          Some (Ptr a, m\<lparr>pm_pool := p\<lparr>pl_freeq := set_cell (NextOf a) Null (pl_freeq p)\<rparr>,
            pm_world := w\<lparr>tcw_arena := arena_put a (tcp_conn_reset c) (tcw_arena w),
              tcw_metrics := INCR (INCR (tcw_metrics w) M_tcp_conn_borrow) M_tcp_conn_active\<rparr>\<rparr>)
        })
   }"

definition tcp_conn_return :: "nat ptr \<Rightarrow> tcp_module \<Rightarrow> (nat ptr \<times> tcp_module) option" where
  "tcp_conn_return c m =
     (case c of
        Null \<Rightarrow> Some (c, m)
      | Ptr a \<Rightarrow> do {
          x \<leftarrow> ar_objs (tcw_arena (pm_world m)) a;
          if tc_free x then Some (c, m)
          else do {
            p \<leftarrow> FREEPOOL_RETURN a (pm_pool m);
            let w = pm_world m;
            Some (Null, m\<lparr>pm_pool := p,
              pm_world := w\<lparr>tcw_arena := arena_put a (x\<lparr>tc_free := True\<rparr>) (tcw_arena w),
                tcw_metrics := DECR (INCR (tcw_metrics w) M_tcp_conn_return) M_tcp_conn_active\<rparr>\<rparr>)
          }
        })"

text \<open>The options are the backlog, stored in an \<^verbatim>\<open>int\<close>, and the pool size, stored in a \<^verbatim>\<open>uint32_t\<close>.\<close>

definition tcp_setup ::
  "(u64 \<times> u64) ptr \<Rightarrow> tcp_metric metrics \<Rightarrow> tcp_module \<Rightarrow> os \<Rightarrow> (unit + tcp_module \<times> os) option" where
  "tcp_setup options metrics m s = do {
     let m = m\<lparr>pm_world := (pm_world m)\<lparr>tcw_metrics := metrics\<rparr>\<rparr>;
     let (m, mx) = (case options of
         Null \<Rightarrow> (m, TCP_POOLSIZE)
       | Ptr (backlog, poolsize) \<Rightarrow> (m\<lparr>tm_max_backlog := sint (ucast backlog :: u32)\<rparr>, ucast poolsize));
     r \<leftarrow> tcp_conn_pool_create mx m;
     (case r of
        Inl u \<Rightarrow> Some (Inl u)
      | Inr m \<Rightarrow> do { (_, s) \<leftarrow> channel_sigpipe_ignore s; Some (Inr (m\<lparr>pm_init := True\<rparr>, s)) })
   }"

definition tcp_teardown :: "tcp_module \<Rightarrow> tcp_module option" where
  "tcp_teardown m = do {
     m \<leftarrow> tcp_conn_pool_destroy m;
     Some (m\<lparr>pm_world := (pm_world m)\<lparr>tcw_metrics := Null\<rparr>, pm_init := False\<rparr>)
   }"


section \<open>Attributes of a socket\<close>

definition tcp_set_blocking :: "int \<Rightarrow> os \<Rightarrow> int \<times> os" where
  "tcp_set_blocking sd s = (let (r, s) = syscall (Sys_getfl sd) s; flags = sr_ret r in
     if flags < 0 then (flags, s)
     else let (r, s) = syscall (Sys_setfl sd (flags AND NOT O_NONBLOCK)) s in (sr_ret r, s))"

definition tcp_set_nonblocking :: "int \<Rightarrow> os \<Rightarrow> int \<times> os" where
  "tcp_set_nonblocking sd s = (let (r, s) = syscall (Sys_getfl sd) s; flags = sr_ret r in
     if flags < 0 then (flags, s)
     else let (r, s) = syscall (Sys_setfl sd (flags OR O_NONBLOCK)) s in (sr_ret r, s))"

definition setsockopt :: "int \<Rightarrow> sockopt \<Rightarrow> int list \<Rightarrow> os \<Rightarrow> int \<times> os" where
  "setsockopt sd opt vs s = (let (r, s) = syscall (Sys_setsockopt sd opt vs) s in (sr_ret r, s))"

text \<open>The status, and the variable handed over, which keeps its value when the call fails.\<close>

definition getsockopt :: "int \<Rightarrow> sockopt \<Rightarrow> int \<Rightarrow> os \<Rightarrow> int \<times> int \<times> os" where
  "getsockopt sd opt v s = (let (r, s) = syscall (Sys_getsockopt sd opt) s in
     (sr_ret r, (if sr_ret r < 0 \<or> sr_vals r = [] then v else hd (sr_vals r)), s))"

definition tcp_set_reuseaddr :: "int \<Rightarrow> os \<Rightarrow> int \<times> os" where
  "tcp_set_reuseaddr sd = setsockopt sd SO_REUSEADDR [1]"

definition tcp_set_tcpnodelay :: "int \<Rightarrow> os \<Rightarrow> int \<times> os" where
  "tcp_set_tcpnodelay sd = setsockopt sd TCP_NODELAY [1]"

definition tcp_set_keepalive :: "int \<Rightarrow> os \<Rightarrow> int \<times> os" where
  "tcp_set_keepalive sd = setsockopt sd SO_KEEPALIVE [1]"

definition tcp_set_linger :: "int \<Rightarrow> int \<Rightarrow> os \<Rightarrow> int \<times> os" where
  "tcp_set_linger sd timeout = setsockopt sd SO_LINGER [1, timeout]"

definition tcp_unset_linger :: "int \<Rightarrow> os \<Rightarrow> int \<times> os" where
  "tcp_unset_linger sd = setsockopt sd SO_LINGER [0, 0]"

definition tcp_set_sndbuf :: "int \<Rightarrow> int \<Rightarrow> os \<Rightarrow> int \<times> os" where
  "tcp_set_sndbuf sd sz = setsockopt sd SO_SNDBUF [sz]"

definition tcp_set_rcvbuf :: "int \<Rightarrow> int \<Rightarrow> os \<Rightarrow> int \<times> os" where
  "tcp_set_rcvbuf sd sz = setsockopt sd SO_RCVBUF [sz]"

definition tcp_get_sndbuf :: "int \<Rightarrow> os \<Rightarrow> int \<times> os" where
  "tcp_get_sndbuf sd s = (let (status, sz, s) = getsockopt sd SO_SNDBUF 0 s in
     if status < 0 then (status, s) else (sz, s))"

definition tcp_get_rcvbuf :: "int \<Rightarrow> os \<Rightarrow> int \<times> os" where
  "tcp_get_rcvbuf sd s = (let (status, sz, s) = getsockopt sd SO_RCVBUF 0 s in
     if status < 0 then (status, s) else (sz, s))"

definition tcp_get_soerror :: "int \<Rightarrow> os \<Rightarrow> int \<times> os" where
  "tcp_get_soerror sd s = (let (status, err, s) = getsockopt sd SO_ERROR 0 s in
     if status = 0 then (status, s\<lparr>os_errno := err\<rparr>) else (status, s))"

text \<open>The binary search; the sum of the bounds is an \<^verbatim>\<open>int\<close>.\<close>

function sndbuf_loop :: "int \<Rightarrow> int \<Rightarrow> int \<Rightarrow> os \<Rightarrow> os option" where
  "sndbuf_loop sd lo hi s =
     (if lo \<le> hi then do {
        ASSERT (lo + hi < 2147483648);
        let avg = (lo + hi) div 2;
        let (status, s) = tcp_set_sndbuf sd avg s;
        if status \<noteq> 0 then sndbuf_loop sd lo (avg - 1) s else sndbuf_loop sd (avg + 1) hi s
      }
      else Some s)"
  by pat_completeness auto
termination
  by (relation "measure (\<lambda>(sd, lo, hi, s). nat (hi - lo + 1))") auto

declare sndbuf_loop.simps [simp del]

definition tcp_maximize_sndbuf :: "int \<Rightarrow> os \<Rightarrow> os option" where
  "tcp_maximize_sndbuf sd s = (let (lo, s) = tcp_get_sndbuf sd s in
     if lo < 0 then Some s else sndbuf_loop sd lo (256 * 1024 * 1024) s)"


section \<open>Opening, accepting and closing\<close>

type_synonym tcp_env = "tcp_metric io_env"

definition connect_error :: "tcp_conn \<Rightarrow> tcp_env \<Rightarrow> bool \<times> tcp_conn \<times> tcp_env" where
  "connect_error c e =
     (let c = c\<lparr>tc_err := os_errno (te_os e)\<rparr>;
          e = (if tc_sd c > 0 then snd (te_call (syscall (Sys_close (tc_sd c))) e) else e)
      in (False, c, te_incr M_tcp_connect_ex e))"

definition tcp_connect :: "addrinfo \<Rightarrow> tcp_conn \<Rightarrow> tcp_env \<Rightarrow> bool \<times> tcp_conn \<times> tcp_env" where
  "tcp_connect ai c e =
     (let (r, e) = te_call (syscall (Sys_socket (ai_family ai) (ai_socktype ai) (ai_protocol ai))) e;
          c = c\<lparr>tc_sd := sr_ret r\<rparr>;
          e = te_incr M_tcp_connect e
      in if tc_sd c < 0 then connect_error c e
      else let (ret, e) = te_call (tcp_set_tcpnodelay (tc_sd c)) e in
        if ret < 0 then connect_error c e
        else let (r, e) = te_call (syscall (Sys_connect (tc_sd c) (ai_addr ai))) e in
          if sr_ret r < 0 \<and> os_errno (te_os e) \<noteq> EINPROGRESS then connect_error c e
          else let c = c\<lparr>tc_state := (if sr_ret r < 0 then CHANNEL_OPEN else CHANNEL_ESTABLISHED)\<rparr>;
                   (ret, e) = te_call (tcp_set_nonblocking (tc_sd c)) e in
            if ret < 0 then connect_error c e else (True, c, e))"

definition tcp_close :: "tcp_conn \<Rightarrow> tcp_env \<Rightarrow> tcp_env" where
  "tcp_close c e = (let e = te_incr M_tcp_close e; (r, e) = te_call (syscall (Sys_close (tc_sd c))) e in e)"

definition listen_error :: "tcp_conn \<Rightarrow> tcp_env \<Rightarrow> bool \<times> tcp_conn \<times> tcp_env" where
  "listen_error c e = (False, c, if tc_sd c > 0 then tcp_close c e else e)"

definition tcp_listen :: "int \<Rightarrow> addrinfo \<Rightarrow> tcp_conn \<Rightarrow> tcp_env \<Rightarrow> bool \<times> tcp_conn \<times> tcp_env" where
  "tcp_listen max_backlog ai c e =
     (let (r, e) = te_call (syscall (Sys_socket (ai_family ai) (ai_socktype ai) (ai_protocol ai))) e;
          c = c\<lparr>tc_sd := sr_ret r\<rparr>;
          sd = tc_sd c
      in if sd < 0 then listen_error c e
      else let (ret, e) = te_call (tcp_set_reuseaddr sd) e in
        if ret < 0 then listen_error c e
        else let (r, e) = te_call (syscall (Sys_bind sd (ai_addr ai))) e in
          if sr_ret r < 0 then listen_error c e
          else let (r, e) = te_call (syscall (Sys_listen sd max_backlog)) e in
            if sr_ret r < 0 then listen_error c e
            else let (ret, e) = te_call (tcp_set_nonblocking sd) e in
              if ret \<noteq> rstatus_code CC_OK then listen_error c e
              else let (ret, e) = te_call (tcp_set_tcpnodelay sd) e in
                (True, c\<lparr>tc_level := CHANNEL_META, tc_state := CHANNEL_LISTEN\<rparr>, e))"

text \<open>\<open>flags\<close> is \<open>SOCK_NONBLOCK\<close> in a build with \<^verbatim>\<open>accept4\<close> and 0 in one without.\<close>

definition accept_body :: "int \<Rightarrow> int \<Rightarrow> tcp_env \<Rightarrow> tcp_env + int \<times> tcp_env" where
  "accept_body flags sd e =
     (let (r, e) = te_call (syscall (Sys_accept sd flags)) e in
      if sr_ret r < 0 then
        (if os_errno (te_os e) = EAGAIN \<or> os_errno (te_os e) = EWOULDBLOCK then Inr (-1, e)
         else if os_errno (te_os e) = EINTR then Inl e
         else Inr (-1, te_incr M_tcp_accept_ex e))
      else Inr (sr_ret r, e))"

definition tcp_accept_sd :: "int \<Rightarrow> tcp_conn \<Rightarrow> tcp_env \<Rightarrow> (int \<times> tcp_env) option" where
  "tcp_accept_sd flags sc e = do { ASSERT (tc_sd sc \<ge> 0); retry (accept_body flags (tc_sd sc)) e }"

definition tcp_accept :: "int \<Rightarrow> tcp_conn \<Rightarrow> tcp_conn \<Rightarrow> tcp_env \<Rightarrow> (bool \<times> tcp_conn \<times> tcp_env) option" where
  "tcp_accept flags sc c e = do {
     (sd, e) \<leftarrow> tcp_accept_sd flags sc e;
     let e = te_incr M_tcp_accept e;
     if sd < 0 then Some (False, c, e)
     else
       Some (True, c\<lparr>tc_sd := sd, tc_level := CHANNEL_BASE, tc_state := CHANNEL_ESTABLISHED\<rparr>,
             (if flags = SOCK_NONBLOCK then e else snd (te_call (tcp_set_nonblocking sd) e)))
   }"

definition tcp_reject :: "int \<Rightarrow> tcp_conn \<Rightarrow> tcp_env \<Rightarrow> tcp_env option" where
  "tcp_reject flags sc e = do {
     (sd, e) \<leftarrow> tcp_accept_sd flags sc (te_incr M_tcp_reject e);
     if sd < 0 then Some (te_incr M_tcp_reject_ex e)
     else Some (let (r, e) = te_call (syscall (Sys_close sd)) e in
       if sr_ret r < 0 then te_incr M_tcp_reject_ex e else e)
   }"

definition reject_body :: "int \<Rightarrow> tcp_env \<Rightarrow> tcp_env + tcp_env" where
  "reject_body sd e =
     (let (r, e) = te_call (syscall (Sys_accept sd 0)) e in
      if sr_ret r < 0 then
        (if os_errno (te_os e) = EAGAIN \<or> os_errno (te_os e) = EWOULDBLOCK then Inr e
         else if os_errno (te_os e) = EINTR then Inl e
         else Inr (te_incr M_tcp_reject_ex e))
      else let (q, e) = te_call (syscall (Sys_close (sr_ret r))) e;
               e = (if sr_ret q < 0 then te_incr M_tcp_reject_ex e else e)
           in Inl (te_incr M_tcp_reject e))"

definition tcp_reject_all :: "tcp_conn \<Rightarrow> tcp_env \<Rightarrow> tcp_env option" where
  "tcp_reject_all sc e = retry (reject_body (tc_sd sc)) e"


section \<open>Receiving and sending\<close>

text \<open>The number returned is the count, 0 at the end, or the code of an error.\<close>

definition recv_body :: "nat \<Rightarrow> tcp_conn \<times> tcp_env \<Rightarrow> tcp_conn \<times> tcp_env + int \<times> bytes \<times> tcp_conn \<times> tcp_env" where
  "recv_body nbyte ce = (case ce of (c, e) \<Rightarrow>
     let (r, e) = te_call (syscall (Sys_read (tc_sd c) nbyte)) e;
         n = sr_ret r;
         e = te_incr M_tcp_recv e
     in if n > 0 then
          Inr (n, sr_data r, c\<lparr>tc_recv_nbyte := tc_recv_nbyte c + word_of_int n\<rparr>, te_incr_n M_tcp_recv_byte n e)
        else if n = 0 then Inr (n, [], c\<lparr>tc_state := CHANNEL_TERM\<rparr>, e)
        else let e = te_incr M_tcp_recv_ex e in
          if os_errno (te_os e) = EINTR then Inl (c, e)
          else if os_errno (te_os e) = EAGAIN \<or> os_errno (te_os e) = EWOULDBLOCK
          then Inr (rstatus_code CC_EAGAIN, [], c, e)
          else Inr (rstatus_code CC_ERROR, [], c\<lparr>tc_err := os_errno (te_os e)\<rparr>, e))"

definition tcp_recv :: "nat \<Rightarrow> tcp_conn \<times> tcp_env \<Rightarrow> (int \<times> bytes \<times> tcp_conn \<times> tcp_env) option" where
  "tcp_recv nbyte ce = do { ASSERT (0 < nbyte); retry (recv_body nbyte) ce }"

definition recvv_body :: "nat list \<Rightarrow> tcp_conn \<times> tcp_env \<Rightarrow> tcp_conn \<times> tcp_env + int \<times> bytes \<times> tcp_conn \<times> tcp_env" where
  "recvv_body lens ce = (case ce of (c, e) \<Rightarrow>
     let (r, e) = te_call (syscall (Sys_readv (tc_sd c) lens)) e;
         n = sr_ret r;
         e = te_incr M_tcp_recv e
     in if n > 0 then
          Inr (n, sr_data r, c\<lparr>tc_recv_nbyte := tc_recv_nbyte c + word_of_int n\<rparr>, te_incr_n M_tcp_recv n e)
        else if n = 0 then Inr (0, [], c, e)
        else let e = te_incr M_tcp_recv_ex e in
          if os_errno (te_os e) = EINTR then Inl (c, e)
          else if os_errno (te_os e) = EAGAIN \<or> os_errno (te_os e) = EWOULDBLOCK
          then Inr (rstatus_code CC_EAGAIN, [], c, e)
          else Inr (rstatus_code CC_ERROR, [], c\<lparr>tc_err := os_errno (te_os e)\<rparr>, e))"

definition tcp_recvv :: "nat list \<Rightarrow> nat \<Rightarrow> tcp_conn \<times> tcp_env \<Rightarrow> (int \<times> bytes \<times> tcp_conn \<times> tcp_env) option" where
  "tcp_recvv lens nbyte ce = do { ASSERT (lens \<noteq> []); ASSERT (nbyte \<noteq> 0); retry (recvv_body lens) ce }"

definition send_body :: "bytes \<Rightarrow> tcp_conn \<times> tcp_env \<Rightarrow> tcp_conn \<times> tcp_env + int \<times> tcp_conn \<times> tcp_env" where
  "send_body bs ce = (case ce of (c, e) \<Rightarrow>
     let (r, e) = te_call (syscall (Sys_write (tc_sd c) bs)) e;
         n = sr_ret r;
         e = te_incr M_tcp_send e
     in if n > 0 then
          Inr (n, c\<lparr>tc_send_nbyte := tc_send_nbyte c + word_of_int n\<rparr>, te_incr_n M_tcp_send_byte n e)
        else if n = 0 then Inr (0, c, e)
        else let e = te_incr M_tcp_send_ex e in
          if os_errno (te_os e) = EINTR then Inl (c, e)
          else if os_errno (te_os e) = EAGAIN \<or> os_errno (te_os e) = EWOULDBLOCK
          then Inr (rstatus_code CC_EAGAIN, c, e)
          else Inr (rstatus_code CC_ERROR, c\<lparr>tc_err := os_errno (te_os e)\<rparr>, e))"

definition tcp_send :: "bytes \<Rightarrow> tcp_conn \<times> tcp_env \<Rightarrow> (int \<times> tcp_conn \<times> tcp_env) option" where
  "tcp_send bs ce = do { ASSERT (0 < length bs); retry (send_body bs) ce }"

definition sendv_body :: "bytes list \<Rightarrow> tcp_conn \<times> tcp_env \<Rightarrow> tcp_conn \<times> tcp_env + int \<times> tcp_conn \<times> tcp_env" where
  "sendv_body bss ce = (case ce of (c, e) \<Rightarrow>
     let (r, e) = te_call (syscall (Sys_writev (tc_sd c) bss)) e;
         n = sr_ret r;
         e = te_incr M_tcp_send_ex e
     in if n > 0 then
          Inr (n, c\<lparr>tc_send_nbyte := tc_send_nbyte c + word_of_int n\<rparr>, te_incr_n M_tcp_send_byte n e)
        else if n = 0 then Inr (0, c, e)
        else let e = te_incr M_tcp_send_ex e in
          if os_errno (te_os e) = EINTR then Inl (c, e)
          else if os_errno (te_os e) = EAGAIN \<or> os_errno (te_os e) = EWOULDBLOCK
          then Inr (rstatus_code CC_EAGAIN, c, e)
          else Inr (rstatus_code CC_ERROR, c\<lparr>tc_err := os_errno (te_os e)\<rparr>, e))"

definition tcp_sendv :: "bytes list \<Rightarrow> nat \<Rightarrow> tcp_conn \<times> tcp_env \<Rightarrow> (int \<times> tcp_conn \<times> tcp_env) option" where
  "tcp_sendv bss nbyte ce = do { ASSERT (bss \<noteq> []); ASSERT (nbyte \<noteq> 0); retry (sendv_body bss) ce }"

definition tcp_read_id :: "tcp_conn \<Rightarrow> int" where
  "tcp_read_id c = tc_sd c"

definition tcp_write_id :: "tcp_conn \<Rightarrow> int" where
  "tcp_write_id c = tc_sd c"

end
