(* ===== verification/Cc_Sockio.thy ===== *)
theory Cc_Sockio
  imports Cc_Tcp Cc_Dbuf
begin

text \<open>
  Buffered sockets, \<^verbatim>\<open>include/stream/cc_sockio.h\<close> and \<^verbatim>\<open>src/stream/cc_sockio.c\<close>. A buffered socket
  owns a connection and two buffers; the pool functions work on the three heaps these live in. The
  functions that move data work on the objects themselves: \<open>io_sock\<close> is what a buffered socket
  points to.
\<close>

section \<open>Buffered sockets and their pool\<close>

datatype sockio_metric =
    M_buf_sock_create | M_buf_sock_create_ex | M_buf_sock_destroy | M_buf_sock_curr
  | M_buf_sock_borrow | M_buf_sock_borrow_ex | M_buf_sock_return | M_buf_sock_active

record buf_sock =
  bk_owner :: "nat ptr"
  bk_free :: bool
  bk_flag :: u64
  bk_data :: "nat ptr"
  bk_hdl :: "nat ptr"
  bk_ch :: "nat ptr"
  bk_rbuf :: "nat ptr"
  bk_wbuf :: "nat ptr"

record sock_world =
  sw_arena :: "buf_sock arena"
  sw_tcp :: tcp_world
  sw_buf :: buf_world
  sw_metrics :: "sockio_metric metrics"

type_synonym sock_module = "sock_world pmodule"

definition BUFSOCK_POOLSIZE :: u32 where
  "BUFSOCK_POOLSIZE = 0"

definition BUF_SOCK_SIZE :: u64 where
  "BUF_SOCK_SIZE = 72"

text \<open>The fields \<open>flag\<close> and \<open>data\<close> are not written by the creation.\<close>

definition buf_sock_raw :: buf_sock where
  "buf_sock_raw = \<lparr>bk_owner = Null, bk_free = False, bk_flag = 0, bk_data = Null, bk_hdl = Null,
     bk_ch = Null, bk_rbuf = Null, bk_wbuf = Null\<rparr>"

definition destroy_ptr :: "(nat \<Rightarrow> 'w \<Rightarrow> 'w option) \<Rightarrow> nat ptr \<Rightarrow> 'w \<Rightarrow> 'w option" where
  "destroy_ptr destroy p w = (case p of Null \<Rightarrow> Some w | Ptr a \<Rightarrow> destroy a w)"

definition buf_sock_destroy :: "nat \<Rightarrow> sock_world \<Rightarrow> sock_world option" where
  "buf_sock_destroy a w = do {
     s \<leftarrow> ar_objs (sw_arena w) a;
     tw \<leftarrow> destroy_ptr tcp_conn_destroy (bk_ch s) (sw_tcp w);
     bw \<leftarrow> destroy_ptr buf_destroy (bk_rbuf s) (sw_buf w);
     bw \<leftarrow> destroy_ptr buf_destroy (bk_wbuf s) bw;
     Some (w\<lparr>sw_tcp := tw, sw_buf := bw, sw_arena := arena_free a (sw_arena w),
             sw_metrics := DECR (INCR (sw_metrics w) M_buf_sock_destroy) M_buf_sock_curr\<rparr>)
   }"

definition sock_create_error :: "nat \<Rightarrow> buf_sock \<Rightarrow> sock_world \<Rightarrow> (nat ptr \<times> sock_world) option" where
  "sock_create_error a s w = do {
     let w = w\<lparr>sw_arena := arena_put a s (sw_arena w), sw_metrics := INCR (sw_metrics w) M_buf_sock_create_ex\<rparr>;
     w \<leftarrow> buf_sock_destroy a w;
     Some (Null, w)
   }"

definition buf_sock_create :: "sock_world \<Rightarrow> (nat ptr \<times> sock_world) option" where
  "buf_sock_create w =
     (case arena_request BUF_SOCK_SIZE (sw_arena w) of
        (Null, ar) \<Rightarrow> Some (Null, w\<lparr>sw_arena := ar, sw_metrics := INCR (sw_metrics w) M_buf_sock_create_ex\<rparr>)
      | (Ptr (a, _), ar) \<Rightarrow> do {
          let w = w\<lparr>sw_arena := ar\<rparr>;
          let s = buf_sock_raw;
          (ch, tw) \<leftarrow> tcp_conn_create (sw_tcp w);
          let w = w\<lparr>sw_tcp := tw\<rparr>;
          let s = s\<lparr>bk_ch := ch\<rparr>;
          if ch = Null then sock_create_error a s w
          else do {
            (rb, bw) \<leftarrow> buf_create (sw_buf w);
            let w = w\<lparr>sw_buf := bw\<rparr>;
            let s = s\<lparr>bk_rbuf := rb\<rparr>;
            if rb = Null then sock_create_error a s w
            else do {
              (wb, bw) \<leftarrow> buf_create (sw_buf w);
              let w = w\<lparr>sw_buf := bw\<rparr>;
              let s = s\<lparr>bk_wbuf := wb\<rparr>;
              if wb = Null then sock_create_error a s w
              else Some (Ptr a, w\<lparr>sw_arena := arena_put a s (sw_arena w),
                sw_metrics := INCR (INCR (sw_metrics w) M_buf_sock_create) M_buf_sock_curr\<rparr>)
            }
          }
        })"

definition buf_sock_pool_destroy :: "sock_module \<Rightarrow> sock_module option" where
  "buf_sock_pool_destroy m =
     (if \<not> pm_pool_init m then Some m
      else do {
        (p, w) \<leftarrow> FREEPOOL_DESTROY buf_sock_destroy (pm_pool m) (pm_world m);
        Some (m\<lparr>pm_pool := p, pm_world := w, pm_pool_init := False\<rparr>)
      })"

definition buf_sock_pool_create :: "u32 \<Rightarrow> sock_module \<Rightarrow> (unit + sock_module) option" where
  "buf_sock_pool_create mx m = do {
     m \<leftarrow> (if pm_pool_init m then buf_sock_pool_destroy m else Some m);
     p \<leftarrow> FREEPOOL_CREATE mx (pm_pool m);
     (p', w) \<leftarrow> FREEPOOL_PREALLOC buf_sock_create mx p (pm_world m);
     Some (if pl_nfree p' < mx then Inl () else Inr (m\<lparr>pm_pool := p', pm_world := w, pm_pool_init := True\<rparr>))
   }"

text \<open>The reset of a socket whose connection and buffers are \<open>c\<close>, \<open>r\<close> and \<open>t\<close>.\<close>

definition buf_sock_reset :: "nat \<Rightarrow> sock_world \<Rightarrow> sock_world option" where
  "buf_sock_reset a w = do {
     s \<leftarrow> ar_objs (sw_arena w) a;
     (case (bk_ch s, bk_rbuf s, bk_wbuf s) of
        (Ptr c, Ptr r, Ptr t) \<Rightarrow> do {
          conn \<leftarrow> ar_objs (tcw_arena (sw_tcp w)) c;
          let tw = (sw_tcp w)\<lparr>tcw_arena := arena_put c (tcp_conn_reset conn) (tcw_arena (sw_tcp w))\<rparr>;
          rb \<leftarrow> ar_objs (bw_arena (sw_buf w)) r;
          let bw = (sw_buf w)\<lparr>bw_arena := arena_put r (buf_reset rb) (bw_arena (sw_buf w))\<rparr>;
          wb \<leftarrow> ar_objs (bw_arena bw) t;
          let bw = bw\<lparr>bw_arena := arena_put t (buf_reset wb) (bw_arena bw)\<rparr>;
          Some (w\<lparr>sw_arena := arena_put a (s\<lparr>bk_owner := Null, bk_free := False, bk_flag := 0, bk_data := Null,
                     bk_hdl := Null\<rparr>) (sw_arena w),
                  sw_tcp := tw, sw_buf := bw\<rparr>)
        }
      | _ \<Rightarrow> None)
   }"

definition buf_sock_borrow :: "sock_module \<Rightarrow> (nat ptr \<times> sock_module) option" where
  "buf_sock_borrow m = do {
     (r, p, w) \<leftarrow> FREEPOOL_BORROW buf_sock_create (pm_pool m) (pm_world m);
     (case r of
        Null \<Rightarrow> Some (Null, m\<lparr>pm_pool := p, pm_world := w\<lparr>sw_metrics := INCR (sw_metrics w) M_buf_sock_borrow_ex\<rparr>\<rparr>)
      | Ptr a \<Rightarrow> do {
          w \<leftarrow> buf_sock_reset a w;
          Some (Ptr a, m\<lparr>pm_pool := p\<lparr>pl_freeq := set_cell (NextOf a) Null (pl_freeq p)\<rparr>,
            pm_world := w\<lparr>sw_metrics := INCR (INCR (sw_metrics w) M_buf_sock_borrow) M_buf_sock_active\<rparr>\<rparr>)
        })
   }"

definition buf_sock_return :: "nat ptr \<Rightarrow> sock_module \<Rightarrow> (nat ptr \<times> sock_module) option" where
  "buf_sock_return s m =
     (case s of
        Null \<Rightarrow> Some (s, m)
      | Ptr a \<Rightarrow> do {
          x \<leftarrow> ar_objs (sw_arena (pm_world m)) a;
          if bk_free x then Some (s, m)
          else do {
            p \<leftarrow> FREEPOOL_RETURN a (pm_pool m);
            let w = pm_world m;
            Some (Null, m\<lparr>pm_pool := p,
              pm_world := w\<lparr>sw_arena := arena_put a (x\<lparr>bk_free := True\<rparr>) (sw_arena w),
                sw_metrics := DECR (INCR (sw_metrics w) M_buf_sock_return) M_buf_sock_active\<rparr>\<rparr>)
          }
        })"

definition sockio_setup :: "u64 ptr \<Rightarrow> sockio_metric metrics \<Rightarrow> sock_module \<Rightarrow> (unit + sock_module) option" where
  "sockio_setup options metrics m = do {
     let m = m\<lparr>pm_world := (pm_world m)\<lparr>sw_metrics := metrics\<rparr>\<rparr>;
     let mx = (case options of Null \<Rightarrow> BUFSOCK_POOLSIZE | Ptr n \<Rightarrow> ucast n);
     r \<leftarrow> buf_sock_pool_create mx m;
     Some (case r of Inl u \<Rightarrow> Inl u | Inr m \<Rightarrow> Inr (m\<lparr>pm_init := True\<rparr>))
   }"

definition sockio_teardown :: "sock_module \<Rightarrow> sock_module option" where
  "sockio_teardown m = buf_sock_pool_destroy m"


section \<open>Moving data\<close>

type_synonym chan = "tcp_conn \<times> tcp_env"

text \<open>The two members of the handler that these functions call; a member may be \<^verbatim>\<open>NULL\<close>.\<close>

record channel_handler =
  hd_recv :: "(nat \<Rightarrow> chan \<Rightarrow> (int \<times> bytes \<times> chan) option) ptr"
  hd_send :: "(bytes \<Rightarrow> chan \<Rightarrow> (int \<times> chan) option) ptr"

record io_sock =
  is_ch :: chan
  is_hdl :: "channel_handler ptr"
  is_rbuf :: "buf ptr"
  is_wbuf :: "buf ptr"

definition set_state :: "ch_state \<Rightarrow> chan \<Rightarrow> chan" where
  "set_state st ce = (case ce of (c, e) \<Rightarrow> (c\<lparr>tc_state := st\<rparr>, e))"

definition buf_tcp_read :: "io_sock \<Rightarrow> (rstatus \<times> io_sock) option" where
  "buf_tcp_read s = do {
     ASSERT (is_rbuf s \<noteq> Null);
     ASSERT (is_hdl s \<noteq> Null \<and> hd_recv (deref (is_hdl s)) \<noteq> Null);
     let buf = deref (is_rbuf s);
     cap \<leftarrow> buf_wsize buf;
     if cap = 0 then Some (CC_ENOMEM, s)
     else do {
       (n, d, ce) \<leftarrow> deref (hd_recv (deref (is_hdl s))) (unat cap) (is_ch s);
       mem \<leftarrow> mem_write (b_begin buf) (b_wpos buf) d;
       let (status, ce) =
         (if n < 0 then
            (if n = rstatus_code CC_EAGAIN then (CC_OK, ce) else (CC_ERROR, set_state CHANNEL_ERROR ce))
          else if n = 0 then (CC_ERDHUP, set_state CHANNEL_TERM ce)
          else if n = int (unat cap) then (CC_ERETRY, ce)
          else (CC_OK, ce));
       let buf = buf\<lparr>b_begin := mem, b_wpos := (if n > 0 then b_wpos buf + nat n else b_wpos buf)\<rparr>;
       Some (status, s\<lparr>is_ch := ce, is_rbuf := Ptr buf\<rparr>)
     }
   }"

definition buf_tcp_write :: "io_sock \<Rightarrow> (rstatus \<times> io_sock) option" where
  "buf_tcp_write s = do {
     ASSERT (is_hdl s \<noteq> Null \<and> is_wbuf s \<noteq> Null);
     ASSERT (hd_send (deref (is_hdl s)) \<noteq> Null);
     let buf = deref (is_wbuf s);
     cap \<leftarrow> buf_rsize buf;
     if cap = 0 then Some (CC_EEMPTY, s)
     else do {
       bs \<leftarrow> mem_read (b_begin buf) (b_rpos buf) (unat cap);
       (n, ce) \<leftarrow> deref (hd_send (deref (is_hdl s))) bs (is_ch s);
       let (status, ce) =
         (if n < 0 then
            (if n = rstatus_code CC_EAGAIN then (CC_EAGAIN, ce) else (CC_ERROR, set_state CHANNEL_ERROR ce))
          else if n < int (unat cap) then (CC_ERETRY, ce)
          else (CC_OK, ce));
       let buf = buf\<lparr>b_rpos := (if n > 0 then b_rpos buf + nat n else b_rpos buf)\<rparr>;
       Some (status, s\<lparr>is_ch := ce, is_wbuf := Ptr buf\<rparr>)
     }
   }"

text \<open>
  One round of the loop of \<^verbatim>\<open>dbuf_tcp_read\<close> over the socket and the state of the resizable buffers.
  A failure inside the model is \<^term>\<open>Inr None\<close>; the buffer is alive after every failed doubling for
  which \<^verbatim>\<open>realloc\<close> keeps the old block.
\<close>

definition dbuf_read_grow ::
  "realloc_fn \<Rightarrow> io_sock \<times> dbuf_module \<Rightarrow> (rstatus \<times> u32 \<times> io_sock \<times> dbuf_module) option" where
  "dbuf_read_grow realloc sm = (case sm of (s, m) \<Rightarrow> do {
     cap \<leftarrow> buf_wsize (deref (is_rbuf s));
     if cap = 0 then do {
       (status, b, alive, m) \<leftarrow> dbuf_double realloc (deref (is_rbuf s)) m;
       ASSERT alive;
       let s = s\<lparr>is_rbuf := Ptr b\<rparr>;
       if status \<noteq> CC_OK then Some (CC_ERETRY, 0, s, m)
       else do { cap \<leftarrow> buf_wsize b; Some (CC_OK, cap, s, m) }
     }
     else Some (CC_OK, cap, s, m)
   })"

definition dbuf_read_round ::
  "realloc_fn \<Rightarrow> io_sock \<times> dbuf_module \<Rightarrow> (io_sock \<times> dbuf_module) + (rstatus \<times> io_sock \<times> dbuf_module) option" where
  "dbuf_read_round realloc sm =
     (case do {
        (status, cap, s, m) \<leftarrow> dbuf_read_grow realloc sm;
        if status \<noteq> CC_OK then Some (False, status, s, m)
        else do {
          let buf = deref (is_rbuf s);
          (n, d, ce) \<leftarrow> deref (hd_recv (deref (is_hdl s))) (unat cap) (is_ch s);
          mem \<leftarrow> mem_write (b_begin buf) (b_wpos buf) d;
          if n < 0 then
            (if n = rstatus_code CC_EAGAIN then Some (False, CC_OK, s\<lparr>is_ch := ce\<rparr>, m)
             else Some (False, CC_ERROR, s\<lparr>is_ch := set_state CHANNEL_ERROR ce\<rparr>, m))
          else if n = 0 then Some (False, CC_ERDHUP, s\<lparr>is_ch := set_state CHANNEL_TERM ce\<rparr>, m)
          else Some (n = int (unat cap), CC_OK,
                 s\<lparr>is_ch := ce, is_rbuf := Ptr (buf\<lparr>b_begin := mem, b_wpos := b_wpos buf + nat n\<rparr>)\<rparr>, m)
        }
      } of
        None \<Rightarrow> Inr None
      | Some (again, status, s, m) \<Rightarrow> if again then Inl (s, m) else Inr (Some (status, s, m)))"

definition dbuf_tcp_read ::
  "realloc_fn \<Rightarrow> io_sock \<Rightarrow> dbuf_module \<Rightarrow> (rstatus \<times> io_sock \<times> dbuf_module) option" where
  "dbuf_tcp_read realloc s m = do {
     ASSERT (is_hdl s \<noteq> Null \<and> is_rbuf s \<noteq> Null);
     ASSERT (hd_recv (deref (is_hdl s)) \<noteq> Null);
     r \<leftarrow> retry (dbuf_read_round realloc) (s, m);
     r
   }"

end
