(* ===== verification/Cc_Tcp_Facts.thy ===== *)
theory Cc_Tcp_Facts
  imports Cc_Tcp
begin

text \<open>
  What the TCP module guarantees: the pool hands out each connection once; receiving and sending
  fulfil the contract \<open>channel_io\<close> of theory \<open>Cc_Channel\<close>, interruptions being invisible; a failed
  connect or listen leaves no socket open; the search for the largest send buffer finds it.
\<close>

section \<open>The pool of connections\<close>

definition tcw_objs :: "tcp_world \<Rightarrow> nat \<Rightarrow> tcp_conn option" where
  "tcw_objs w = ar_objs (tcw_arena w)"

definition tcw_ok :: "tcp_world \<Rightarrow> bool" where
  "tcw_ok w \<longleftrightarrow> arena_ok (tcw_arena w)"

definition tcp_claim :: "nat \<Rightarrow> tcp_world \<Rightarrow> tcp_world" where
  "tcp_claim a w = w\<lparr>tcw_arena := arena_put a (tcp_conn_reset (the (tcw_objs w a))) (tcw_arena w),
     tcw_metrics := INCR (INCR (tcw_metrics w) M_tcp_conn_borrow) M_tcp_conn_active\<rparr>"

definition tcp_give :: "nat \<Rightarrow> tcp_world \<Rightarrow> tcp_world" where
  "tcp_give a w = w\<lparr>tcw_arena := arena_put a ((the (tcw_objs w a))\<lparr>tc_free := True\<rparr>) (tcw_arena w),
     tcw_metrics := DECR (INCR (tcw_metrics w) M_tcp_conn_return) M_tcp_conn_active\<rparr>"

definition tcp_fail :: "tcp_world \<Rightarrow> tcp_world" where
  "tcp_fail w = w\<lparr>tcw_metrics := INCR (tcw_metrics w) M_tcp_conn_borrow_ex\<rparr>"

lemma tcp_conn_create_cases:
  assumes ok: "tcw_ok w"
  shows "\<exists>r w'. tcp_conn_create w = Some (r, w') \<and> tcw_ok w' \<and>
     (r = Null \<and> tcw_objs w' = tcw_objs w \<or>
      (\<exists>e t. r = Ptr e \<and> e \<notin> dom (tcw_objs w) \<and> tcw_objs w' = (tcw_objs w)(e \<mapsto> t)))"
proof -
  obtain r ar where req: "arena_request TCP_CONN_SIZE (tcw_arena w) = (r, ar)" by fastforce
  have "arena_ok (tcw_arena w)" using ok by (simp add: tcw_ok_def)
  note ar = arena_request_ok [OF this req]
  show ?thesis
  proof (cases r)
    case Null
    then show ?thesis using req ar by (simp add: tcp_conn_create_def tcw_ok_def tcw_objs_def)
  next
    case (Ptr x)
    then obtain a blk where x: "r = Ptr (a, blk)" by (cases x) simp
    show ?thesis using req x ar(1,2) ar(3) [OF x] by (simp add: tcp_conn_create_def tcw_ok_def tcw_objs_def) blast
  qed
qed

interpretation tcpp: pooled_module tcp_conn_create tcp_conn_destroy "\<lambda>w. dom (tcw_objs w)" tcw_ok
  tcw_objs tc_free tcp_conn_reset "\<lambda>c. c\<lparr>tc_free := True\<rparr>" tcp_claim tcp_give tcp_fail
  pm_pool pm_world "\<lambda>p w m. m\<lparr>pm_pool := p, pm_world := w\<rparr>" tcp_conn_borrow tcp_conn_return
proof unfold_locales
  show "\<exists>r w'. tcp_conn_create w = Some (r, w') \<and> tcw_ok w' \<and> (r = Null \<and> dom (tcw_objs w') = dom (tcw_objs w) \<or>
      (\<exists>e. r = Ptr e \<and> e \<notin> dom (tcw_objs w) \<and> dom (tcw_objs w') = insert e (dom (tcw_objs w))))" if "tcw_ok w" for w
    using tcp_conn_create_cases [OF that] by fastforce
  show "\<exists>w'. tcp_conn_destroy e w = Some w' \<and> tcw_ok w' \<and> dom (tcw_objs w') = dom (tcw_objs w) - {e}"
    if "tcw_ok w" "e \<in> dom (tcw_objs w)" for w e
    using that by (auto simp: tcp_conn_destroy_def tcw_ok_def tcw_objs_def)
  show "tcw_objs w' e = tcw_objs w e"
    if "tcw_ok w" "tcp_conn_create w = Some (r, w')" "e \<in> dom (tcw_objs w)" for w r w' e
    using tcp_conn_create_cases [OF that(1)] that(2,3) by (auto split: if_splits)
  show "tcp_conn_borrow m = do {
        (r, p, w) \<leftarrow> FREEPOOL_BORROW tcp_conn_create (pm_pool m) (pm_world m);
        (case r of
           Null \<Rightarrow> Some (Null, m\<lparr>pm_pool := p, pm_world := tcp_fail w\<rparr>)
         | Ptr a \<Rightarrow> do {
             x \<leftarrow> tcw_objs w a;
             Some (Ptr a, m\<lparr>pm_pool := p\<lparr>pl_freeq := set_cell (NextOf a) Null (pl_freeq p)\<rparr>, pm_world := tcp_claim a w\<rparr>)
           })
      }" for m
    by (auto simp: tcp_conn_borrow_def tcp_claim_def tcp_fail_def tcw_objs_def intro!: Option.bind_cong split: ptr.splits)
  show "tcp_conn_return t m = do {
        (r, p, w) \<leftarrow> pooled_return tcw_objs tc_free tcp_give t (pm_pool m) (pm_world m);
        Some (r, if r = t then m else m\<lparr>pm_pool := p, pm_world := w\<rparr>)
      }" for t m
    by (auto simp: tcp_conn_return_def pooled_return_def tcp_give_def tcw_objs_def Let_def split: ptr.splits bind_splits)
qed (simp_all add: tcw_ok_def tcw_objs_def tcp_claim_def tcp_give_def tcp_fail_def tcp_conn_reset_def)


section \<open>Receiving and sending\<close>

abbreviation tcp_ok :: "tcp_conn \<times> tcp_env \<Rightarrow> bool" where
  "tcp_ok ce \<equiv> kernel_ok (os_kernel (te_os (snd ce)))"

abbreviation tcp_got :: "tcp_conn \<times> tcp_env \<Rightarrow> bytes" where
  "tcp_got ce \<equiv> inbound (tc_sd (fst ce)) (os_trace (te_os (snd ce)))"

abbreviation tcp_sent :: "tcp_conn \<times> tcp_env \<Rightarrow> bytes" where
  "tcp_sent ce \<equiv> outbound (tc_sd (fst ce)) (os_trace (te_os (snd ce)))"

abbreviation tcp_nrecv :: "tcp_conn \<times> tcp_env \<Rightarrow> u64" where
  "tcp_nrecv ce \<equiv> tc_recv_nbyte (fst ce)"

abbreviation tcp_nsend :: "tcp_conn \<times> tcp_env \<Rightarrow> u64" where
  "tcp_nsend ce \<equiv> tc_send_nbyte (fst ce)"

abbreviation "tcp_received \<equiv> received tcp_ok tcp_got tcp_sent tcp_nrecv tcp_nsend"
abbreviation "tcp_transmitted \<equiv> transmitted tcp_ok tcp_got tcp_sent tcp_nrecv tcp_nsend"

text \<open>What the bodies have done when they return.\<close>

lemma recv_body_law:
  assumes "recv_body n s = Inr a" "tcp_ok s"
  shows "tcp_received n s a"
proof -
  obtain c e where s: "s = (c, e)" by (cases s)
  define r where "r = os_kernel (te_os e) (os_trace (te_os e)) (Sys_read (tc_sd c) n)"
  have r: "result_ok (Sys_read (tc_sd c) n) r" unfolding r_def by (rule kernel_result) (use assms(2) s in simp)
  have call: "te_call (syscall (Sys_read (tc_sd c) n)) e = (r, e\<lparr>te_os := (te_os e)\<lparr>os_trace := (Sys_read (tc_sd c) n, r) # os_trace (te_os e),
      os_errno := (if sr_ret r < 0 then sr_errno r else os_errno (te_os e))\<rparr>\<rparr>)"
    by (simp add: te_call_syscall r_def Let_def)
  show ?thesis
  proof (cases "sr_ret r" "0 :: int" rule: linorder_cases)
    case greater
    then have d: "sr_ret r = int (length (sr_data r))" "length (sr_data r) \<le> n" using r by simp_all
    then have "sr_data r \<noteq> []" using greater by auto
    then show ?thesis using assms s d by (auto simp: recv_body_def call Let_def received_def)
  next
    case equal
    then show ?thesis using assms s by (auto simp: recv_body_def call Let_def received_def)
  next
    case less
    then show ?thesis using assms s by (auto simp: recv_body_def call Let_def received_def split: if_splits)
  qed
qed

lemma send_body_law:
  assumes "send_body bs s = Inr a" "tcp_ok s"
  shows "tcp_transmitted bs s a"
proof -
  obtain c e where s: "s = (c, e)" by (cases s)
  define r where "r = os_kernel (te_os e) (os_trace (te_os e)) (Sys_write (tc_sd c) bs)"
  have r: "result_ok (Sys_write (tc_sd c) bs) r" unfolding r_def by (rule kernel_result) (use assms(2) s in simp)
  have call: "te_call (syscall (Sys_write (tc_sd c) bs)) e = (r, e\<lparr>te_os := (te_os e)\<lparr>os_trace := (Sys_write (tc_sd c) bs, r) # os_trace (te_os e),
      os_errno := (if sr_ret r < 0 then sr_errno r else os_errno (te_os e))\<rparr>\<rparr>)"
    by (simp add: te_call_syscall r_def Let_def)
  show ?thesis
  proof (cases "sr_ret r" "0 :: int" rule: linorder_cases)
    case greater
    then have "(of_int (sr_ret r) :: u64) = of_nat (nat (sr_ret r))" by simp
    then show ?thesis using assms s greater r by (auto simp: send_body_def call Let_def transmitted_def)
  next
    case equal
    then show ?thesis using assms s by (auto simp: send_body_def call Let_def transmitted_def)
  next
    case less
    then show ?thesis using assms s by (auto simp: send_body_def call Let_def transmitted_def split: if_splits)
  qed
qed

lemma tcp_recv_law:
  assumes k: "tcp_ok ce" and n: "0 < n"
  shows "\<exists>a. tcp_recv n ce = Some a \<and> tcp_received n ce a"
proof -
  obtain c e where ce: "ce = (c, e)" by (cases ce)
  have "kernel_ok (os_kernel (te_os e))" using k ce by simp
  then obtain e' a where r: "recv_body n (c, e') = Inr a" "retry (recv_body n) (c, e) = Some a" "repeated (Sys_read (tc_sd c) n) e e'"
    by (rule retry_call [of e "Sys_read (tc_sd c) n" "recv_body n" c])
       (auto simp: recv_body_def te_call_syscall syscall_def Let_def interrupted_def)
  then have "tcp_received n (c, e') a" using recv_body_law [OF r(1)] k r(3) ce by (simp add: repeated_def)
  then show ?thesis using r ce n by (auto simp: tcp_recv_def received_def repeated_bytes [OF r(3)])
qed

lemma tcp_send_law:
  assumes k: "tcp_ok ce" and n: "bs \<noteq> []"
  shows "\<exists>a. tcp_send bs ce = Some a \<and> tcp_transmitted bs ce a"
proof -
  obtain c e where ce: "ce = (c, e)" by (cases ce)
  have "kernel_ok (os_kernel (te_os e))" using k ce by simp
  then obtain e' a where r: "send_body bs (c, e') = Inr a" "retry (send_body bs) (c, e) = Some a" "repeated (Sys_write (tc_sd c) bs) e e'"
    by (rule retry_call [of e "Sys_write (tc_sd c) bs" "send_body bs" c])
       (auto simp: send_body_def te_call_syscall syscall_def Let_def interrupted_def)
  then have "tcp_transmitted bs (c, e') a" using send_body_law [OF r(1)] k r(3) ce by (simp add: repeated_def)
  then show ?thesis using r ce n by (auto simp: tcp_send_def transmitted_def repeated_bytes [OF r(3)])
qed

interpretation tcpio: channel_io tcp_recv tcp_send tcp_ok tcp_got tcp_sent tcp_nrecv tcp_nsend
  by unfold_locales (rule tcp_recv_law tcp_send_law; assumption)+

text \<open>
  The vector versions count otherwise than the plain ones: a successful \<^verbatim>\<open>tcp_recvv\<close> adds the bytes to
  the number of attempts, and every \<^verbatim>\<open>tcp_sendv\<close> counts as an exception and not as an attempt.
\<close>

lemma recvv_miscounts:
  "recvv_body lens (c, e) = Inr (n, d, c', e') \<Longrightarrow> 0 < n \<Longrightarrow>
   te_metrics e' = INCR_N (INCR (te_metrics e) M_tcp_recv) M_tcp_recv (word_of_int n)"
  by (auto simp: recvv_body_def te_call_def te_incr_def te_incr_n_def Let_def split: if_splits prod.splits)

lemma sendv_miscounts:
  "sendv_body bss (c, e) = Inr (n, c', e') \<Longrightarrow> 0 < n \<Longrightarrow>
   te_metrics e' = INCR_N (INCR (te_metrics e) M_tcp_send_ex) M_tcp_send_byte (word_of_int n)"
  by (auto simp: sendv_body_def te_call_def te_incr_def te_incr_n_def Let_def split: if_splits prod.splits)


section \<open>Descriptors\<close>

abbreviation te_open :: "tcp_env \<Rightarrow> int set" where
  "te_open e \<equiv> open_fds (os_trace (te_os e))"

lemma te_call_attr:
  assumes "te_call (f sd) e = (r, e')" "f \<in> {tcp_set_tcpnodelay, tcp_set_nonblocking, tcp_set_reuseaddr}"
  shows "te_open e' = te_open e \<and> os_kernel (te_os e') = os_kernel (te_os e)"
  using assms by (auto simp: te_call_def tcp_set_tcpnodelay_def tcp_set_nonblocking_def tcp_set_reuseaddr_def setsockopt_def
      syscall_def Let_def split: if_splits)

lemma te_call_sys_open:
  assumes "te_call (syscall c) e = (r, e')"
  shows "te_open e' = open_fds ((c, r) # os_trace (te_os e)) \<and> os_kernel (te_os e') = os_kernel (te_os e) \<and>
    r = os_kernel (te_os e) (os_trace (te_os e)) c"
  using assms by (auto simp: te_call_syscall Let_def)

definition opens :: "tcp_env \<Rightarrow> ch_state set \<Rightarrow> bool \<times> tcp_conn \<times> tcp_env \<Rightarrow> bool" where
  "opens e st res \<longleftrightarrow> (case res of (b, c', e') \<Rightarrow>
     if b then te_open e' = insert (tc_sd c') (te_open e) \<and> tc_sd c' \<notin> te_open e \<and> tc_state c' \<in> st
     else te_open e' = te_open e)"

lemma opens_error:
  assumes "te_open e' - (if 0 < tc_sd c then {tc_sd c} else {}) = te_open e"
  shows "opens e st (connect_error c e')" "opens e st (listen_error c e')"
  using assms by (auto simp: opens_def connect_error_def listen_error_def tcp_close_def te_call_syscall Let_def split: if_splits)

lemma tcp_connect_opens:
  assumes so: "te_call (syscall (Sys_socket (ai_family ai) (ai_socktype ai) (ai_protocol ai))) e = (r, e1)"
    and op: "te_open e1 = insert (sr_ret r) (te_open e)" "0 < sr_ret r" "sr_ret r \<notin> te_open e"
  shows "opens e {CHANNEL_OPEN, CHANNEL_ESTABLISHED} (tcp_connect ai c e)"
proof -
  let ?sd = "sr_ret r"
  obtain n2 e2 where c2: "te_call (tcp_set_tcpnodelay ?sd) (te_incr M_tcp_connect e1) = (n2, e2)" by fastforce
  obtain r3 e3 where c3: "te_call (syscall (Sys_connect ?sd (ai_addr ai))) e2 = (r3, e3)" by fastforce
  obtain n4 e4 where c4: "te_call (tcp_set_nonblocking ?sd) e3 = (n4, e4)" by fastforce
  have o: "te_open e2 = insert ?sd (te_open e)" "te_open e3 = insert ?sd (te_open e)" "te_open e4 = insert ?sd (te_open e)"
    using te_call_attr [of tcp_set_tcpnodelay, OF c2] te_call_sys_open [OF c3] te_call_attr [of tcp_set_nonblocking, OF c4] op(1) by simp_all
  let ?c1 = "c\<lparr>tc_sd := ?sd\<rparr>"
  let ?c2 = "?c1\<lparr>tc_state := (if sr_ret r3 < 0 then CHANNEL_OPEN else CHANNEL_ESTABLISHED)\<rparr>"
  have "tcp_connect ai c e = (if n2 < 0 then connect_error ?c1 e2
      else if sr_ret r3 < 0 \<and> os_errno (te_os e3) \<noteq> EINPROGRESS then connect_error ?c1 e3
      else if n4 < 0 then connect_error ?c2 e4 else (True, ?c2, e4))"
    using so c2 c3 c4 op(2) by (simp add: tcp_connect_def)
  then show ?thesis
    using opens_error(1) [of e2 ?c1 e] opens_error(1) [of e3 ?c1 e] opens_error(1) [of e4 ?c2 e] o op(2,3)
    by (simp add: opens_def)
qed

lemma tcp_listen_opens:
  assumes so: "te_call (syscall (Sys_socket (ai_family ai) (ai_socktype ai) (ai_protocol ai))) e = (r, e1)"
    and op: "te_open e1 = insert (sr_ret r) (te_open e)" "0 < sr_ret r" "sr_ret r \<notin> te_open e"
  shows "opens e {CHANNEL_LISTEN} (tcp_listen backlog ai c e)"
proof -
  let ?sd = "sr_ret r"
  obtain n2 e2 where c2: "te_call (tcp_set_reuseaddr ?sd) e1 = (n2, e2)" by fastforce
  obtain r3 e3 where c3: "te_call (syscall (Sys_bind ?sd (ai_addr ai))) e2 = (r3, e3)" by fastforce
  obtain r4 e4 where c4: "te_call (syscall (Sys_listen ?sd backlog)) e3 = (r4, e4)" by fastforce
  obtain n5 e5 where c5: "te_call (tcp_set_nonblocking ?sd) e4 = (n5, e5)" by fastforce
  obtain n6 e6 where c6: "te_call (tcp_set_tcpnodelay ?sd) e5 = (n6, e6)" by fastforce
  have o: "te_open e2 = insert ?sd (te_open e)" "te_open e3 = insert ?sd (te_open e)" "te_open e4 = insert ?sd (te_open e)"
      "te_open e5 = insert ?sd (te_open e)" "te_open e6 = insert ?sd (te_open e)"
    using te_call_attr [of tcp_set_reuseaddr, OF c2] te_call_sys_open [OF c3] te_call_sys_open [OF c4]
      te_call_attr [of tcp_set_nonblocking, OF c5] te_call_attr [of tcp_set_tcpnodelay, OF c6] op(1)
    by simp_all
  let ?c1 = "c\<lparr>tc_sd := ?sd\<rparr>"
  have "tcp_listen backlog ai c e = (if n2 < 0 then listen_error ?c1 e2
      else if sr_ret r3 < 0 then listen_error ?c1 e3 else if sr_ret r4 < 0 then listen_error ?c1 e4
      else if n5 \<noteq> rstatus_code CC_OK then listen_error ?c1 e5
      else (True, ?c1\<lparr>tc_level := CHANNEL_META, tc_state := CHANNEL_LISTEN\<rparr>, e6))"
    using so c2 c3 c4 c5 c6 op(2) by (simp add: tcp_listen_def)
  then show ?thesis
    using opens_error(2) [of e2 ?c1 e] opens_error(2) [of e3 ?c1 e] opens_error(2) [of e4 ?c1 e] opens_error(2) [of e5 ?c1 e]
      o op(2,3)
    by (simp add: opens_def)
qed


text \<open>A kernel that has one socket to give, and answers every other call with \<open>ret\<close>.\<close>

definition quiet_kernel :: "int \<Rightarrow> int \<Rightarrow> kernel" where
  "quiet_kernel sd ret t c = (case c of
      Sys_socket _ _ _ \<Rightarrow> \<lparr>sr_ret = (if sd \<in> open_fds t then -1 else sd), sr_errno = 24, sr_data = [], sr_vals = []\<rparr>
    | Sys_accept _ _ \<Rightarrow> \<lparr>sr_ret = -1, sr_errno = EAGAIN, sr_data = [], sr_vals = []\<rparr>
    | _ \<Rightarrow> \<lparr>sr_ret = ret, sr_errno = 1, sr_data = [], sr_vals = []\<rparr>)"

definition quiet_env :: "int \<Rightarrow> int \<Rightarrow> trace \<Rightarrow> tcp_env" where
  "quiet_env sd ret t = \<lparr>te_metrics = Null, te_os = \<lparr>os_kernel = quiet_kernel sd ret, os_trace = t, os_errno = 0, os_signals = []\<rparr>\<rparr>"

definition any_addr :: addrinfo where
  "any_addr = \<lparr>ai_family = 2, ai_socktype = 1, ai_protocol = 0, ai_addr = []\<rparr>"


text \<open>With the standard input closed, \<^verbatim>\<open>socket\<close> may return 0, which a failed connect does not close.\<close>

lemma tcp_connect_leaks_zero:
  "let t = [(Sys_close 0, \<lparr>sr_ret = 0, sr_errno = 0, sr_data = [], sr_vals = []\<rparr>)];
       (b, c, e) = tcp_connect any_addr tcp_conn_raw (quiet_env 0 (-1) t)
   in \<not> b \<and> 0 \<notin> open_fds t \<and> 0 \<in> te_open e"
  by (simp add: tcp_connect_def quiet_env_def quiet_kernel_def connect_error_def tcp_set_tcpnodelay_def
      setsockopt_def te_call_def syscall_def te_incr_def Let_def)


section \<open>The largest send buffer\<close>

text \<open>The size that was accepted last.\<close>

fun sndbuf_of :: "int \<Rightarrow> trace \<Rightarrow> int option" where
  "sndbuf_of sd [] = None"
| "sndbuf_of sd ((Sys_setsockopt fd SO_SNDBUF [v], r) # t) = (if fd = sd \<and> sr_ret r = 0 then Some v else sndbuf_of sd t)"
| "sndbuf_of sd (_ # t) = sndbuf_of sd t"

definition sndbuf_limit :: "int \<Rightarrow> int \<Rightarrow> kernel \<Rightarrow> bool" where
  "sndbuf_limit sd bnd k \<longleftrightarrow> (\<forall>t v. sr_ret (k t (Sys_setsockopt sd SO_SNDBUF [v])) = 0 \<longleftrightarrow> v \<le> bnd)"

lemma sndbuf_loop_finds:
  assumes "sndbuf_limit sd bnd (os_kernel s)" "0 \<le> lo" "lo \<le> bnd + 1" "bnd \<le> hi" "hi \<le> 268435456"
    "lo = lo0 \<or> sndbuf_of sd (os_trace s) = Some (lo - 1)" "hi - lo + 1 < 2 ^ m"
  shows "\<exists>s'. sndbuf_loop sd lo hi s = Some s' \<and> (bnd + 1 = lo0 \<or> sndbuf_of sd (os_trace s') = Some bnd) \<and>
    length (os_trace s') \<le> length (os_trace s) + m"
  using assms
proof (induction m arbitrary: lo hi s)
  case 0
  then show ?case by (subst sndbuf_loop.simps) auto
next
  case (Suc m)
  show ?case
  proof (cases "lo \<le> hi")
    case True
    define avg where "avg = (lo + hi) div 2"
    have avg: "lo \<le> avg" "avg \<le> hi" "hi - avg < 2 ^ m" "avg - lo < 2 ^ m" using True Suc.prems(7) by (auto simp: avg_def)
    define r where "r = os_kernel s (os_trace s) (Sys_setsockopt sd SO_SNDBUF [avg])"
    define s1 where "s1 = s\<lparr>os_trace := (Sys_setsockopt sd SO_SNDBUF [avg], r) # os_trace s,
      os_errno := (if sr_ret r < 0 then sr_errno r else os_errno s)\<rparr>"
    have call: "tcp_set_sndbuf sd avg s = (sr_ret r, s1)"
      by (simp add: tcp_set_sndbuf_def setsockopt_def syscall_def r_def s1_def Let_def)
    have r: "sr_ret r = 0 \<longleftrightarrow> avg \<le> bnd" using Suc.prems(1) by (simp add: sndbuf_limit_def r_def)
    have k: "os_kernel s1 = os_kernel s" by (simp add: s1_def)
    have ovf: "lo + hi < 2147483648" using True Suc.prems(5) by simp
    show ?thesis
    proof (cases "avg \<le> bnd")
      case ok: True
      have "\<exists>s'. sndbuf_loop sd (avg + 1) hi s1 = Some s' \<and> (bnd + 1 = lo0 \<or> sndbuf_of sd (os_trace s') = Some bnd) \<and>
          length (os_trace s') \<le> length (os_trace s1) + m"
        using Suc.prems avg ok r k by (intro Suc.IH) (simp_all add: s1_def)
      then show ?thesis
        using True ok r call ovf by (subst sndbuf_loop.simps) (auto simp: Let_def avg_def [symmetric] s1_def)
    next
      case no: False
      have "\<exists>s'. sndbuf_loop sd lo (avg - 1) s1 = Some s' \<and> (bnd + 1 = lo0 \<or> sndbuf_of sd (os_trace s') = Some bnd) \<and>
          length (os_trace s') \<le> length (os_trace s1) + m"
        using Suc.prems avg no r k by (intro Suc.IH) (simp_all add: s1_def)
      then show ?thesis
        using True no r call ovf by (subst sndbuf_loop.simps) (auto simp: Let_def avg_def [symmetric] s1_def)
    qed
  next
    case False
    then show ?thesis using Suc.prems by (subst sndbuf_loop.simps) auto
  qed
qed



end
