(* ===== verification/Cc_Sockio_Facts.thy ===== *)
theory Cc_Sockio_Facts
  imports Cc_Sockio Cc_Tcp_Facts
begin

text \<open>
  What the buffered sockets guarantee. Data: in any sequence of reads, writes and uses of the two
  buffers, the bytes the application consumes are the bytes received, in order, and the bytes sent
  are the bytes it produced. Pool: a borrowed socket, its connection and its buffers belong to one
  borrower.
\<close>

section \<open>The bytes of a buffered socket\<close>

abbreviation rdata :: "io_sock \<Rightarrow> bytes" where
  "rdata s \<equiv> buf_data (deref (is_rbuf s))"

abbreviation wdata :: "io_sock \<Rightarrow> bytes" where
  "wdata s \<equiv> buf_data (deref (is_wbuf s))"

definition bufs_wf :: "io_sock \<Rightarrow> bool" where
  "bufs_wf s \<longleftrightarrow> is_rbuf s \<noteq> Null \<and> buf_wf (deref (is_rbuf s)) \<and> is_wbuf s \<noteq> Null \<and> buf_wf (deref (is_wbuf s))"

lemma buf_append:
  assumes wf: "buf_wf b" and d: "length d \<le> b_end b - b_wpos b"
  obtains mem where "mem_write (b_begin b) (b_wpos b) d = Some mem"
    "buf_wf (b\<lparr>b_begin := mem, b_wpos := b_wpos b + length d\<rparr>)"
    "buf_data (b\<lparr>b_begin := mem, b_wpos := b_wpos b + length d\<rparr>) = buf_data b @ d"
proof -
  let ?mem = "take (b_wpos b) (b_begin b) @ d @ drop (b_wpos b + length d) (b_begin b)"
  have b: "b_wpos b + length d \<le> length (b_begin b)" "b_wpos b \<le> length (b_begin b)" "b_rpos b \<le> b_wpos b"
    using wf d by (auto simp: buf_wf_def)
  have "mem_write (b_begin b) (b_wpos b) d = Some ?mem" using b(1) by (rule mem_write_Some)
  moreover have "buf_wf (b\<lparr>b_begin := ?mem, b_wpos := b_wpos b + length d\<rparr>)" using wf d by (auto simp: buf_wf_def)
  moreover have "window ?mem (b_wpos b) (length d) = d" using window_written [of "b_wpos b" "b_begin b" d] b by simp
  moreover have "window ?mem (b_rpos b) (b_wpos b - b_rpos b) = buf_data b"
    using b by (simp add: buf_data_def window_before_write)
  ultimately show ?thesis
    using that [of ?mem] window_append [of ?mem "b_rpos b" "b_wpos b - b_rpos b" "length d"] b by (simp add: buf_data_def)
qed

text \<open>A channel whose state can be annotated without touching its data.\<close>

locale stream_channel = channel_io recv send ok got sent nrecv nsend
  for recv :: "nat \<Rightarrow> chan \<Rightarrow> (int \<times> bytes \<times> chan) option" and send ok got sent nrecv nsend +
  assumes set_state_law: "ok (set_state st c) = ok c" "got (set_state st c) = got c" "sent (set_state st c) = sent c"
begin

abbreviation handler :: channel_handler where
  "handler \<equiv> \<lparr>hd_recv = Ptr recv, hd_send = Ptr send\<rparr>"

definition sock_wf :: "io_sock \<Rightarrow> bool" where
  "sock_wf s \<longleftrightarrow> is_hdl s = Ptr handler \<and> ok (is_ch s) \<and> bufs_wf s"

text \<open>What has come in is in the read buffer, and the sending side is as it was; and the converse.\<close>

definition reads :: "io_sock \<Rightarrow> io_sock \<Rightarrow> bool" where
  "reads s s' \<longleftrightarrow> sock_wf s' \<and> sent (is_ch s') = sent (is_ch s) \<and> is_wbuf s' = is_wbuf s \<and>
     (\<exists>d. got (is_ch s') = got (is_ch s) @ d \<and> rdata s' = rdata s @ d)"

definition writes :: "io_sock \<Rightarrow> io_sock \<Rightarrow> bool" where
  "writes s s' \<longleftrightarrow> sock_wf s' \<and> got (is_ch s') = got (is_ch s) \<and> is_rbuf s' = is_rbuf s \<and>
     (\<exists>d. sent (is_ch s') = sent (is_ch s) @ d \<and> wdata s = d @ wdata s')"

lemma reads_refl: "sock_wf s \<Longrightarrow> reads s s"
  by (simp add: reads_def)

lemma reads_trans: "reads s t \<Longrightarrow> reads t u \<Longrightarrow> reads s u"
  by (auto simp: reads_def)

lemma set_state_ok [simp]: "ok (if b then set_state st c else c) = ok c" "got (if b then set_state st c else c) = got c"
  "sent (if b then set_state st c else c) = sent c"
  by (simp_all add: set_state_law)

lemma reads_step:
  assumes "sock_wf s" "received ok got sent nrecv nsend k (is_ch s) (n, d, ce)" "k = b_end (deref (is_rbuf s)) - b_wpos (deref (is_rbuf s))"
  obtains mem where "mem_write (b_begin (deref (is_rbuf s))) (b_wpos (deref (is_rbuf s))) d = Some mem"
    "reads s (s\<lparr>is_ch := ce, is_rbuf := Ptr ((deref (is_rbuf s))\<lparr>b_begin := mem, b_wpos := b_wpos (deref (is_rbuf s)) + length d\<rparr>)\<rparr>)"
    "n \<le> 0 \<Longrightarrow> d = []"
proof -
  let ?b = "deref (is_rbuf s)"
  have b: "buf_wf ?b" using assms(1) by (simp add: sock_wf_def bufs_wf_def)
  have r: "ok ce" "got ce = got (is_ch s) @ d" "sent ce = sent (is_ch s)" "length d \<le> k" "n \<le> 0 \<Longrightarrow> d = []"
    using assms(2) by (auto simp: received_def)
  obtain mem where "mem_write (b_begin ?b) (b_wpos ?b) d = Some mem" "buf_wf (?b\<lparr>b_begin := mem, b_wpos := b_wpos ?b + length d\<rparr>)"
      "buf_data (?b\<lparr>b_begin := mem, b_wpos := b_wpos ?b + length d\<rparr>) = buf_data ?b @ d"
    using buf_append [OF b, of d] r(4) assms(3) by auto
  then show ?thesis using that [of mem] assms(1) r by (simp add: reads_def sock_wf_def bufs_wf_def)
qed

lemma reads_set_state: "reads s (s\<lparr>is_ch := c, is_rbuf := b\<rparr>) \<Longrightarrow> reads s (s\<lparr>is_ch := set_state st c, is_rbuf := b\<rparr>)"
  by (auto simp: reads_def sock_wf_def bufs_wf_def set_state_law)

lemma buf_tcp_read_ok:
  assumes wf: "sock_wf s"
  shows "\<exists>st s'. buf_tcp_read s = Some (st, s') \<and> reads s s' \<and> b_end (deref (is_rbuf s')) = b_end (deref (is_rbuf s))"
proof -
  let ?b = "deref (is_rbuf s)"
  have b: "buf_wf ?b" and ch: "ok (is_ch s)" using wf by (simp_all add: sock_wf_def bufs_wf_def)
  obtain cap where cap: "buf_wsize ?b = Some cap" "unat cap = b_end ?b - b_wpos ?b" using buf_wsize_wf [OF b] by blast
  show ?thesis
  proof (cases "cap = 0")
    case True
    then show ?thesis using wf cap(1) reads_refl by (simp add: buf_tcp_read_def sock_wf_def bufs_wf_def)
  next
    case False
    then have "0 < unat cap" by (simp add: unat_gt_0)
    then obtain n d ce where r: "recv (unat cap) (is_ch s) = Some (n, d, ce)" "received ok got sent nrecv nsend (unat cap) (is_ch s) (n, d, ce)"
      using recv_law [OF ch] by (metis prod_cases3)
    obtain mem where m: "mem_write (b_begin ?b) (b_wpos ?b) d = Some mem"
        "reads s (s\<lparr>is_ch := ce, is_rbuf := Ptr (?b\<lparr>b_begin := mem, b_wpos := b_wpos ?b + length d\<rparr>)\<rparr>)" "n \<le> 0 \<Longrightarrow> d = []"
      using reads_step [OF wf r(2) cap(2)] by blast
    have len: "(if n > 0 then b_wpos ?b + nat n else b_wpos ?b) = b_wpos ?b + length d"
      using m(3) r(2) by (auto simp: received_def)
    obtain st c' where st: "(if n < 0 then
            (if n = rstatus_code CC_EAGAIN then (CC_OK, ce) else (CC_ERROR, set_state CHANNEL_ERROR ce))
          else if n = 0 then (CC_ERDHUP, set_state CHANNEL_TERM ce)
          else if n = int (unat cap) then (CC_ERETRY, ce)
          else (CC_OK, ce)) = (st, c')" by (rule prod.exhaust)
    have "c' = ce \<or> (\<exists>x. c' = set_state x ce)" using st by (auto split: if_splits)
    then have "reads s (s\<lparr>is_ch := c', is_rbuf := Ptr (?b\<lparr>b_begin := mem, b_wpos := b_wpos ?b + length d\<rparr>)\<rparr>)"
      using m(2) reads_set_state [OF m(2)] by auto
    then show ?thesis
      using wf cap(1) False r(1) m(1) len st by (simp add: buf_tcp_read_def sock_wf_def bufs_wf_def Let_def)
  qed
qed

lemma buf_tcp_write_ok:
  assumes wf: "sock_wf s"
  shows "\<exists>st s'. buf_tcp_write s = Some (st, s') \<and> writes s s'"
proof -
  let ?b = "deref (is_wbuf s)"
  have b: "buf_wf ?b" and ch: "ok (is_ch s)" using wf by (simp_all add: sock_wf_def bufs_wf_def)
  obtain cap where cap: "buf_rsize ?b = Some cap" "unat cap = length (buf_data ?b)" using buf_rsize_wf [OF b] by blast
  have len: "length (buf_data ?b) = b_wpos ?b - b_rpos ?b" by (rule buf_data_length [OF b])
  have mem: "mem_read (b_begin ?b) (b_rpos ?b) (unat cap) = Some (buf_data ?b)"
    using b cap(2) len by (subst mem_read_Some) (auto simp: buf_wf_def buf_data_def window_def)
  show ?thesis
  proof (cases "cap = 0")
    case True
    then show ?thesis using wf cap(1) by (simp add: buf_tcp_write_def sock_wf_def bufs_wf_def writes_def)
  next
    case False
    then have "buf_data ?b \<noteq> []" using cap(2) by (metis list.size(3) unat_eq_0)
    then obtain n ce where r: "send (buf_data ?b) (is_ch s) = Some (n, ce)" "transmitted ok got sent nrecv nsend (buf_data ?b) (is_ch s) (n, ce)"
      using send_law [OF ch] by (metis surj_pair)
    have t: "ok ce" "got ce = got (is_ch s)" "sent ce = sent (is_ch s) @ take (nat n) (buf_data ?b)" "nat n \<le> length (buf_data ?b)"
      using r(2) by (simp_all add: transmitted_def)
    let ?b' = "?b\<lparr>b_rpos := b_rpos ?b + nat n\<rparr>"
    have b': "buf_wf ?b'" "buf_data ?b' = drop (nat n) (buf_data ?b)"
      using b t(4) len by (auto simp: buf_wf_def buf_data_def drop_window)
    have rp: "(if n > 0 then b_rpos ?b + nat n else b_rpos ?b) = b_rpos ?b + nat n" by simp
    have "writes s (s\<lparr>is_ch := ce, is_wbuf := Ptr ?b'\<rparr>)" "writes s (s\<lparr>is_ch := set_state CHANNEL_ERROR ce, is_wbuf := Ptr ?b'\<rparr>)"
      using wf t b' by (simp_all add: writes_def sock_wf_def bufs_wf_def set_state_law)
    then show ?thesis
      using wf cap(1) mem False r(1) rp by (auto simp: buf_tcp_write_def sock_wf_def bufs_wf_def Let_def)
  qed
qed

text \<open>Room for growth: doubling the buffer does not overflow before the maximum is reached.\<close>

definition dsock_wf :: "io_sock \<Rightarrow> dbuf_module \<Rightarrow> bool" where
  "dsock_wf s m \<longleftrightarrow> sock_wf s \<and> b_end (deref (is_rbuf s)) + 33 \<le> unat (dm_max_size m) \<and> unat (dm_max_size m) < 2147483648"

lemma grow_ok:
  assumes wf: "dsock_wf s m" and rs: "realloc_spec realloc"
  shows "\<exists>st cap s' m'. dbuf_read_grow realloc (s, m) = Some (st, cap, s', m') \<and> reads s s' \<and> dsock_wf s' m' \<and>
    dm_max_size m' = dm_max_size m \<and> is_ch s' = is_ch s \<and>
    (st = CC_OK \<longrightarrow> 0 < unat cap \<and> unat cap = b_end (deref (is_rbuf s')) - b_wpos (deref (is_rbuf s')) \<and>
      (if b_wpos (deref (is_rbuf s)) = b_end (deref (is_rbuf s)) then b_end (deref (is_rbuf s)) < b_end (deref (is_rbuf s')) else s' = s))"
proof -
  let ?b = "deref (is_rbuf s)"
  have b: "buf_wf ?b" "is_rbuf s \<noteq> Null" and sw: "sock_wf s" using wf by (simp_all add: dsock_wf_def sock_wf_def bufs_wf_def)
  obtain cap where cap: "buf_wsize ?b = Some cap" "unat cap = b_end ?b - b_wpos ?b" using buf_wsize_wf [OF b(1)] by blast
  have le: "b_wpos ?b \<le> b_end ?b" using b(1) by (simp add: buf_wf_def)
  show ?thesis
  proof (cases "cap = 0")
    case False
    then have "0 < unat cap" by (simp add: unat_gt_0)
    then show ?thesis using cap le False wf reads_refl [OF sw] by (auto simp: dbuf_read_grow_def)
  next
    case True
    then have full: "b_wpos ?b = b_end ?b" using cap(2) le by simp
    have "b_end ?b + 33 < 2147483648" using wf by (simp add: dsock_wf_def)
    with b(1) rs show ?thesis
    proof (cases rule: dbuf_double_ok [where m = m])
      case (doubled b' m')
      obtain cap' where cap': "buf_wsize b' = Some cap'" "unat cap' = b_end b' - b_wpos b'" using buf_wsize_wf [OF doubled(2)] by blast
      have "reads s (s\<lparr>is_rbuf := Ptr b'\<rparr>)" "dsock_wf (s\<lparr>is_rbuf := Ptr b'\<rparr>) m'"
        using sw doubled wf by (auto simp: reads_def sock_wf_def bufs_wf_def dsock_wf_def)
      moreover have "0 < b_end b' - b_wpos b'" "b_end ?b < b_end b'" using doubled(4,5) full by simp_all
      ultimately show ?thesis using cap True full doubled cap' by (simp add: dbuf_read_grow_def)
    next
      case (failed st m')
      have "s\<lparr>is_rbuf := Ptr ?b\<rparr> = s" using b(2) by (cases "is_rbuf s") simp_all
      then show ?thesis
        using cap True failed wf reads_refl [OF sw] by (auto simp: dbuf_read_grow_def dsock_wf_def)
    qed
  qed
qed

definition dmeasure :: "io_sock \<Rightarrow> dbuf_module \<Rightarrow> nat" where
  "dmeasure s m = 2 * (unat (dm_max_size m) - b_end (deref (is_rbuf s))) +
     (if b_wpos (deref (is_rbuf s)) = b_end (deref (is_rbuf s)) then 0 else 1)"

lemma round_ok:
  assumes wf: "dsock_wf s m" and rs: "realloc_spec realloc"
  shows "(\<exists>s' m'. dbuf_read_round realloc (s, m) = Inl (s', m') \<and> reads s s' \<and> dsock_wf s' m' \<and> dmeasure s' m' < dmeasure s m) \<or>
    (\<exists>st s' m'. dbuf_read_round realloc (s, m) = Inr (Some (st, s', m')) \<and> reads s s' \<and> dsock_wf s' m')"
proof -
  obtain st cap s1 m1 where g: "dbuf_read_grow realloc (s, m) = Some (st, cap, s1, m1)" "reads s s1" "dsock_wf s1 m1"
      "dm_max_size m1 = dm_max_size m"
    and gok: "st = CC_OK \<Longrightarrow> 0 < unat cap \<and> unat cap = b_end (deref (is_rbuf s1)) - b_wpos (deref (is_rbuf s1)) \<and>
      (if b_wpos (deref (is_rbuf s)) = b_end (deref (is_rbuf s)) then b_end (deref (is_rbuf s)) < b_end (deref (is_rbuf s1)) else s1 = s)"
    using grow_ok [OF assms] by blast
  show ?thesis
  proof (cases "st = CC_OK")
    case False
    then show ?thesis using g by (simp add: dbuf_read_round_def)
  next
    case True
    note gk = gok [OF True]
    let ?b = "deref (is_rbuf s1)"
    have sw: "sock_wf s1" "ok (is_ch s1)" using g(3) by (simp_all add: dsock_wf_def sock_wf_def)
    obtain n d ce where r: "recv (unat cap) (is_ch s1) = Some (n, d, ce)"
        "received ok got sent nrecv nsend (unat cap) (is_ch s1) (n, d, ce)"
      using recv_law [OF sw(2)] gk by (metis prod_cases3)
    obtain mem where mem: "mem_write (b_begin ?b) (b_wpos ?b) d = Some mem"
        "reads s1 (s1\<lparr>is_ch := ce, is_rbuf := Ptr (?b\<lparr>b_begin := mem, b_wpos := b_wpos ?b + length d\<rparr>)\<rparr>)" "n \<le> 0 \<Longrightarrow> d = []"
      using reads_step [OF sw(1) r(2)] gk by blast
    have h: "hd_recv (deref (is_hdl s1)) = Ptr recv" using sw(1) by (simp add: sock_wf_def)
    show ?thesis
    proof (cases "n > 0")
      case pos: True
      let ?s = "s1\<lparr>is_ch := ce, is_rbuf := Ptr (?b\<lparr>b_begin := mem, b_wpos := b_wpos ?b + nat n\<rparr>)\<rparr>"
      have n: "nat n = length d" "nat n \<le> unat cap" using r(2) pos by (auto simp: received_def)
      have rd: "reads s ?s" using reads_trans [OF g(2)] mem(2) n by simp
      have dw: "dsock_wf ?s m1" using rd g(3) by (simp add: dsock_wf_def reads_def)
      have round: "dbuf_read_round realloc (s, m) = (if n = int (unat cap) then Inl (?s, m1) else Inr (Some (CC_OK, ?s, m1)))"
        using g(1) True r(1) mem(1) h pos by (simp add: dbuf_read_round_def Let_def)
      have "dmeasure ?s m1 < dmeasure s m" if "n = int (unat cap)"
      proof -
        have "b_end ?b + 33 \<le> unat (dm_max_size m)" using g(3,4) by (simp add: dsock_wf_def)
        then show ?thesis using that gk g(4) by (auto simp: dmeasure_def split: if_splits)
      qed
      then show ?thesis using round rd dw by auto
    next
      case neg: False
      have ch: "reads s (s1\<lparr>is_ch := ce\<rparr>)" "reads s (s1\<lparr>is_ch := set_state x ce\<rparr>)" for x
        using g(2) sw(1) r(2) mem(3) neg by (auto simp: reads_def sock_wf_def bufs_wf_def received_def set_state_law)
      have dw: "dsock_wf (s1\<lparr>is_ch := c\<rparr>) m1" if "reads s (s1\<lparr>is_ch := c\<rparr>)" for c
        using that g(3) by (simp add: dsock_wf_def reads_def)
      have "dbuf_read_round realloc (s, m) = Inr (Some (CC_OK, s1\<lparr>is_ch := ce\<rparr>, m1)) \<or>
          dbuf_read_round realloc (s, m) = Inr (Some (CC_ERROR, s1\<lparr>is_ch := set_state CHANNEL_ERROR ce\<rparr>, m1)) \<or>
          dbuf_read_round realloc (s, m) = Inr (Some (CC_ERDHUP, s1\<lparr>is_ch := set_state CHANNEL_TERM ce\<rparr>, m1))"
        using g(1) True r(1) mem(1) h neg by (simp add: dbuf_read_round_def Let_def)
      then show ?thesis using ch dw by blast
    qed
  qed
qed

lemma dbuf_tcp_read_ok:
  assumes wf: "dsock_wf s m" and rs: "realloc_spec realloc"
  shows "\<exists>st s' m'. dbuf_tcp_read realloc s m = Some (st, s', m') \<and> reads s s' \<and> dsock_wf s' m'"
proof -
  have "\<exists>st s' m'. retry (dbuf_read_round realloc) (s, m) = Some (Some (st, s', m')) \<and> reads s s' \<and> dsock_wf s' m'"
    using wf
  proof (induction "dmeasure s m" arbitrary: s m rule: less_induct)
    case less
    consider s1 m1 where "dbuf_read_round realloc (s, m) = Inl (s1, m1)" "reads s s1" "dsock_wf s1 m1" "dmeasure s1 m1 < dmeasure s m"
      | st s1 m1 where "dbuf_read_round realloc (s, m) = Inr (Some (st, s1, m1))" "reads s s1" "dsock_wf s1 m1"
      using round_ok [OF less.prems rs] by blast
    then show ?case
    proof cases
      case 1
      then show ?thesis using less.hyps [OF 1(4,3)] retry_Inl [of "dbuf_read_round realloc", OF 1(1)] reads_trans [OF 1(2)] by fastforce
    next
      case 2
      then show ?thesis using retry_Inr [of "dbuf_read_round realloc", OF 2(1)] by auto
    qed
  qed
  then show ?thesis using wf by (auto simp: dbuf_tcp_read_def dsock_wf_def sock_wf_def bufs_wf_def)
qed

end

interpretation tcps: stream_channel tcp_recv tcp_send tcp_ok tcp_got tcp_sent tcp_nrecv tcp_nsend
  by unfold_locales (simp_all add: set_state_def split: prod.splits)

definition tcp_handler :: channel_handler where
  "tcp_handler = \<lparr>hd_recv = Ptr tcp_recv, hd_send = Ptr tcp_send\<rparr>"

text \<open>A buffered socket over a TCP connection, within the limits of the resizable buffer.\<close>

definition tcp_sock_ok :: "io_sock \<Rightarrow> dbuf_module \<Rightarrow> bool" where
  "tcp_sock_ok s m \<longleftrightarrow> is_hdl s = Ptr tcp_handler \<and> kernel_ok (os_kernel (te_os (snd (is_ch s)))) \<and> bufs_wf s \<and>
     b_end (deref (is_rbuf s)) + 33 \<le> unat (dm_max_size m) \<and> unat (dm_max_size m) < 2147483648"

lemma tcp_sock_ok_eq: "tcp_sock_ok = tcps.dsock_wf"
  by (intro ext) (auto simp: tcp_sock_ok_def tcps.dsock_wf_def tcps.sock_wf_def tcp_handler_def)

text \<open>
  An application drives the socket: it reads from and writes to the network in any order, takes up to
  \<open>n\<close> bytes out of the read buffer, puts bytes into the write buffer, and moves the content of a buffer
  to its start. The last two components of the state are the bytes taken and the bytes put.
\<close>

datatype sock_op = OpRead | OpDread | OpWrite | OpTake u32 | OpPut bytes | OpShift

type_synonym app_state = "io_sock \<times> dbuf_module \<times> bytes \<times> bytes"

fun app_step :: "realloc_fn \<Rightarrow> sock_op \<Rightarrow> app_state \<Rightarrow> app_state option" where
  "app_step realloc OpRead (s, m, tk, pt) = do { (_, s) \<leftarrow> buf_tcp_read s; Some (s, m, tk, pt) }"
| "app_step realloc OpDread (s, m, tk, pt) = do { (_, s, m) \<leftarrow> dbuf_tcp_read realloc s m; Some (s, m, tk, pt) }"
| "app_step realloc OpWrite (s, m, tk, pt) = do { (_, s) \<leftarrow> buf_tcp_write s; Some (s, m, tk, pt) }"
| "app_step realloc (OpTake n) (s, m, tk, pt) = do {
     (len, dst, b) \<leftarrow> buf_read (replicate (unat n) 0) (deref (is_rbuf s)) n;
     Some (s\<lparr>is_rbuf := Ptr b\<rparr>, m, tk @ take (unat len) dst, pt)
   }"
| "app_step realloc (OpPut bs) (s, m, tk, pt) = do {
     (len, b) \<leftarrow> buf_write (deref (is_wbuf s)) bs (of_nat (length bs));
     Some (s\<lparr>is_wbuf := Ptr b\<rparr>, m, tk, pt @ take (unat len) bs)
   }"
| "app_step realloc OpShift (s, m, tk, pt) = do {
     r \<leftarrow> buf_lshift (deref (is_rbuf s));
     w \<leftarrow> buf_lshift (deref (is_wbuf s));
     Some (s\<lparr>is_rbuf := Ptr r, is_wbuf := Ptr w\<rparr>, m, tk, pt)
   }"

fun app_run :: "realloc_fn \<Rightarrow> sock_op list \<Rightarrow> app_state \<Rightarrow> app_state option" where
  "app_run realloc [] st = Some st"
| "app_run realloc (op # ops) st = app_step realloc op st \<bind> app_run realloc ops"

definition stream_inv :: "io_sock \<Rightarrow> app_state \<Rightarrow> bool" where
  "stream_inv s0 st \<longleftrightarrow> (case st of (s, m, tk, pt) \<Rightarrow> tcp_sock_ok s m \<and>
     (\<exists>i. tcp_got (is_ch s) = tcp_got (is_ch s0) @ i \<and> rdata s0 @ i = tk @ rdata s) \<and>
     (\<exists>j. tcp_sent (is_ch s) = tcp_sent (is_ch s0) @ j \<and> wdata s0 @ pt = j @ wdata s))"

lemma stream_inv_read:
  assumes "stream_inv s0 (s, m, tk, pt)" "tcps.reads s s'" "tcp_sock_ok s' m'"
  shows "stream_inv s0 (s', m', tk, pt)"
proof -
  obtain i j d where "tcp_got (is_ch s) = tcp_got (is_ch s0) @ i" "rdata s0 @ i = tk @ rdata s"
      "tcp_sent (is_ch s) = tcp_sent (is_ch s0) @ j" "wdata s0 @ pt = j @ wdata s"
      "tcp_got (is_ch s') = tcp_got (is_ch s) @ d" "rdata s' = rdata s @ d" "tcp_sent (is_ch s') = tcp_sent (is_ch s)" "is_wbuf s' = is_wbuf s"
    using assms(1,2) unfolding stream_inv_def tcps.reads_def by blast
  then have "tcp_got (is_ch s') = tcp_got (is_ch s0) @ (i @ d) \<and> rdata s0 @ (i @ d) = tk @ rdata s'"
      "tcp_sent (is_ch s') = tcp_sent (is_ch s0) @ j \<and> wdata s0 @ pt = j @ wdata s'" by auto
  then show ?thesis using assms(3) unfolding stream_inv_def by blast
qed

lemma stream_inv_write:
  assumes "stream_inv s0 (s, m, tk, pt)" "tcps.writes s s'"
  shows "stream_inv s0 (s', m, tk, pt)"
proof -
  obtain i j d where "tcp_got (is_ch s) = tcp_got (is_ch s0) @ i" "rdata s0 @ i = tk @ rdata s"
      "tcp_sent (is_ch s) = tcp_sent (is_ch s0) @ j" "wdata s0 @ pt = j @ wdata s"
      "tcp_sent (is_ch s') = tcp_sent (is_ch s) @ d" "wdata s = d @ wdata s'" "tcp_got (is_ch s') = tcp_got (is_ch s)" "is_rbuf s' = is_rbuf s"
    using assms unfolding stream_inv_def tcps.writes_def by blast
  then have "tcp_sent (is_ch s') = tcp_sent (is_ch s0) @ (j @ d) \<and> wdata s0 @ pt = (j @ d) @ wdata s'"
      "tcp_got (is_ch s') = tcp_got (is_ch s0) @ i \<and> rdata s0 @ i = tk @ rdata s'" by auto
  moreover have "tcp_sock_ok s' m"
    using assms by (auto simp: stream_inv_def tcp_sock_ok_eq tcps.dsock_wf_def tcps.writes_def)
  ultimately show ?thesis unfolding stream_inv_def by blast
qed

lemma app_step_ok:
  assumes inv: "stream_inv s0 (s, m, tk, pt)" and rs: "realloc_spec realloc"
  shows "\<exists>st. app_step realloc op (s, m, tk, pt) = Some st \<and> stream_inv s0 st"
proof -
  have ok: "tcp_sock_ok s m" using inv by (simp add: stream_inv_def)
  have wf: "buf_wf (deref (is_rbuf s))" "buf_wf (deref (is_wbuf s))" using ok by (simp_all add: tcp_sock_ok_def bufs_wf_def)
  have dw: "tcps.dsock_wf s m" and sw: "tcps.sock_wf s" using ok by (simp_all add: tcp_sock_ok_eq tcps.dsock_wf_def)
  show ?thesis
  proof (cases op)
    case OpRead
    obtain st s' where r: "buf_tcp_read s = Some (st, s')" "tcps.reads s s'" "b_end (deref (is_rbuf s')) = b_end (deref (is_rbuf s))"
      using tcps.buf_tcp_read_ok [OF sw] by blast
    then have "tcp_sock_ok s' m" using dw by (simp add: tcp_sock_ok_eq tcps.dsock_wf_def tcps.reads_def)
    then show ?thesis using OpRead r stream_inv_read [OF inv r(2)] by simp
  next
    case OpDread
    obtain st s' m' where "dbuf_tcp_read realloc s m = Some (st, s', m')" "tcps.reads s s'" "tcps.dsock_wf s' m'"
      using tcps.dbuf_tcp_read_ok [OF dw rs] by blast
    then show ?thesis using OpDread stream_inv_read [OF inv] by (simp add: tcp_sock_ok_eq)
  next
    case OpWrite
    then show ?thesis using tcps.buf_tcp_write_ok [OF sw] stream_inv_write [OF inv] by auto
  next
    case (OpTake n)
    have "min (length (rdata s)) (unat n) \<le> length (replicate (unat n) (0 :: u8))" by simp
    from buf_read_spec [OF wf(1) this] obtain len b' where
        "buf_read (replicate (unat n) 0) (deref (is_rbuf s)) n =
           Some (len, take (min (length (rdata s)) (unat n)) (rdata s) @ drop (min (length (rdata s)) (unat n)) (replicate (unat n) 0), b')"
        "unat len = min (length (rdata s)) (unat n)" "buf_wf b'" "buf_data b' = drop (min (length (rdata s)) (unat n)) (rdata s)"
        "b_end b' = b_end (deref (is_rbuf s))"
      by metis
    then show ?thesis
      using OpTake inv ok by (auto simp: stream_inv_def tcp_sock_ok_def bufs_wf_def)
  next
    case (OpPut bs)
    let ?k = "min (b_end (deref (is_wbuf s)) - b_wpos (deref (is_wbuf s))) (unat (of_nat (length bs) :: u32))"
    have "unat (of_nat (length bs) :: u32) \<le> length bs" by (simp add: unat_of_nat)
    then have k: "?k \<le> length bs" by simp
    from buf_write_spec [OF wf(2) k] obtain len b' where
        "buf_write (deref (is_wbuf s)) bs (of_nat (length bs)) = Some (len, b')" "unat len = ?k" "buf_wf b'"
        "buf_data b' = wdata s @ take ?k bs"
      by blast
    then show ?thesis
      using OpPut inv ok by (auto simp: stream_inv_def tcp_sock_ok_def bufs_wf_def)
  next
    case OpShift
    obtain r where r: "buf_lshift (deref (is_rbuf s)) = Some r" "buf_wf r" "buf_data r = rdata s" "b_end r = b_end (deref (is_rbuf s))"
      using buf_lshift_spec [OF wf(1)] by blast
    obtain w where "buf_lshift (deref (is_wbuf s)) = Some w" "buf_wf w" "buf_data w = wdata s"
      using buf_lshift_spec [OF wf(2)] by blast
    with r show ?thesis
      using OpShift inv ok by (auto simp: stream_inv_def tcp_sock_ok_def bufs_wf_def)
  qed
qed

lemma app_run_ok:
  assumes "realloc_spec realloc" "stream_inv s0 st"
  shows "\<exists>st'. app_run realloc ops st = Some st' \<and> stream_inv s0 st'"
  using assms(2)
proof (induction ops arbitrary: st)
  case (Cons op ops)
  obtain s m tk pt where st: "st = (s, m, tk, pt)" by (rule prod_cases4)
  then obtain st1 where "app_step realloc op st = Some st1" "stream_inv s0 st1"
    using app_step_ok [OF _ assms(1)] Cons.prems by blast
  then show ?case using Cons.IH by simp
qed simp

text \<open>
  C4. A buffered socket is a pair of byte streams. However the application interleaves reading (with or
  without resizing), writing, taking from the read buffer, putting into the write buffer and shifting,
  and whatever the kernel answers: every operation returns; the bytes taken and then those still in the
  read buffer are the bytes that came in, in order; and the bytes that went out and then those still in
  the write buffer are the bytes put. No byte is lost, duplicated or reordered.
\<close>

theorem sock_streams:
  assumes "realloc_spec realloc" "tcp_sock_ok s m"
  shows "\<exists>s' m' tk pt i j. app_run realloc ops (s, m, [], []) = Some (s', m', tk, pt) \<and>
    tcp_got (is_ch s') = tcp_got (is_ch s) @ i \<and> rdata s @ i = tk @ rdata s' \<and>
    tcp_sent (is_ch s') = tcp_sent (is_ch s) @ j \<and> wdata s @ pt = j @ wdata s'"
proof -
  have "stream_inv s (s, m, [], [])" using assms(2) by (simp add: stream_inv_def)
  from app_run_ok [OF assms(1) this] obtain st where st: "app_run realloc ops (s, m, [], []) = Some st" "stream_inv s st" by blast
  obtain s' m' tk pt where "st = (s', m', tk, pt)" by (rule prod_cases4)
  then show ?thesis using st unfolding stream_inv_def by blast
qed

text \<open>A peer that answers every read with the two bytes 104 and 105 and accepts one byte at a time.\<close>

definition peer :: kernel where
  "peer t c = (case c of
      Sys_read _ n \<Rightarrow> \<lparr>sr_ret = int (min n 2), sr_errno = 0, sr_data = take n [104, 105], sr_vals = []\<rparr>
    | Sys_write _ bs \<Rightarrow> \<lparr>sr_ret = int (min (length bs) 1), sr_errno = 0, sr_data = [], sr_vals = []\<rparr>
    | _ \<Rightarrow> \<lparr>sr_ret = -1, sr_errno = 1, sr_data = [], sr_vals = []\<rparr>)"

lemma peer_ok: "kernel_ok peer"
proof -
  have "result_ok c (peer t c)" "\<not> interrupted (peer t c)" for t c
    by (cases c; simp add: peer_def interrupted_def EINTR_def)+
  then show ?thesis by (auto simp: kernel_ok_def)
qed

definition sample_sock :: io_sock where
  "sample_sock = \<lparr>is_ch = (tcp_conn_raw\<lparr>tc_sd := 7\<rparr>,
       \<lparr>te_metrics = Null, te_os = \<lparr>os_kernel = peer, os_trace = [], os_errno = 0, os_signals = []\<rparr>\<rparr>),
     is_hdl = Ptr tcp_handler, is_rbuf = Ptr buf_one, is_wbuf = Ptr buf_one\<rparr>"

theorem sock_streams_witness:
  "tcp_sock_ok sample_sock dbuf_sample \<and>
   (\<exists>s' m' tk pt i j. app_run realloc_move [OpDread, OpTake 3, OpPut [1], OpWrite] (sample_sock, dbuf_sample, [], []) = Some (s', m', tk, pt) \<and>
    tcp_got (is_ch s') = tcp_got (is_ch sample_sock) @ i \<and> rdata sample_sock @ i = tk @ rdata s' \<and>
    tcp_sent (is_ch s') = tcp_sent (is_ch sample_sock) @ j \<and> wdata sample_sock @ pt = j @ wdata s')"
proof -
  have ok: "tcp_sock_ok sample_sock dbuf_sample"
    using peer_ok buf_one_wf by (simp add: tcp_sock_ok_def sample_sock_def bufs_wf_def dbuf_sample_def buf_one_def)
  show ?thesis using ok sock_streams [OF realloc_move_spec ok] by blast
qed

end
