(* ===== verification/Cc_Sockio_Pool.thy ===== *)
theory Cc_Sockio_Pool
  imports Cc_Sockio Cc_Tcp_Facts
begin

text \<open>
  The pool of buffered sockets. A socket owns a connection and two buffers, which live in heaps of
  their own; the invariant \<open>sock_ok\<close> says that no two sockets share one, so that resetting a
  borrowed socket, which resets its parts, changes no other socket. The view of a socket is the
  socket with its parts, and with this view the module fulfils the contract \<open>pooled_module\<close>.
\<close>

section \<open>Sockets and their parts\<close>

abbreviation sw_socks :: "sock_world \<Rightarrow> nat \<Rightarrow> buf_sock option" where
  "sw_socks w \<equiv> ar_objs (sw_arena w)"

abbreviation sw_conns :: "sock_world \<Rightarrow> nat \<Rightarrow> tcp_conn option" where
  "sw_conns w \<equiv> tcw_objs (sw_tcp w)"

abbreviation sw_bufs :: "sock_world \<Rightarrow> nat \<Rightarrow> buf option" where
  "sw_bufs w \<equiv> ar_objs (bw_arena (sw_buf w))"

definition has_parts :: "buf_sock \<Rightarrow> nat \<Rightarrow> nat \<Rightarrow> nat \<Rightarrow> bool" where
  "has_parts s c r t \<longleftrightarrow> bk_ch s = Ptr c \<and> bk_rbuf s = Ptr r \<and> bk_wbuf s = Ptr t \<and> r \<noteq> t"

definition apart :: "buf_sock \<Rightarrow> buf_sock \<Rightarrow> bool" where
  "apart s s' \<longleftrightarrow> bk_ch s \<noteq> bk_ch s' \<and> bk_rbuf s \<noteq> bk_rbuf s' \<and> bk_rbuf s \<noteq> bk_wbuf s' \<and> bk_wbuf s \<noteq> bk_rbuf s' \<and>
     bk_wbuf s \<noteq> bk_wbuf s'"

definition sock_ok :: "sock_world \<Rightarrow> bool" where
  "sock_ok w \<longleftrightarrow> arena_ok (sw_arena w) \<and> tcw_ok (sw_tcp w) \<and> bw_ok (sw_buf w) \<and>
     (\<forall>a s. sw_socks w a = Some s \<longrightarrow>
        (\<exists>c r t. has_parts s c r t \<and> c \<in> dom (sw_conns w) \<and> r \<in> dom (sw_bufs w) \<and> t \<in> dom (sw_bufs w))) \<and>
     (\<forall>a b s s'. a \<noteq> b \<longrightarrow> sw_socks w a = Some s \<longrightarrow> sw_socks w b = Some s' \<longrightarrow> apart s s')"

type_synonym sock_view = "buf_sock \<times> tcp_conn \<times> buf \<times> buf"

definition sock_view :: "sock_world \<Rightarrow> nat \<Rightarrow> sock_view option" where
  "sock_view w a = do {
     s \<leftarrow> sw_socks w a;
     (case (bk_ch s, bk_rbuf s, bk_wbuf s) of
        (Ptr c, Ptr r, Ptr t) \<Rightarrow> do {
          conn \<leftarrow> sw_conns w c;
          rb \<leftarrow> sw_bufs w r;
          wb \<leftarrow> sw_bufs w t;
          Some (s, conn, rb, wb)
        }
      | _ \<Rightarrow> None)
   }"

definition view_free :: "sock_view \<Rightarrow> bool" where
  "view_free v = bk_free (fst v)"

definition view_mark :: "sock_view \<Rightarrow> sock_view" where
  "view_mark v = (case v of (s, p) \<Rightarrow> (s\<lparr>bk_free := True\<rparr>, p))"

definition clear_sock :: "buf_sock \<Rightarrow> buf_sock" where
  "clear_sock s = s\<lparr>bk_owner := Null, bk_free := False, bk_flag := 0, bk_data := Null, bk_hdl := Null\<rparr>"

definition view_reset :: "sock_view \<Rightarrow> sock_view" where
  "view_reset v = (case v of (s, c, r, t) \<Rightarrow> (clear_sock s, tcp_conn_reset c, buf_reset r, buf_reset t))"

definition sock_claim :: "nat \<Rightarrow> sock_world \<Rightarrow> sock_world" where
  "sock_claim a w = (let w = the (buf_sock_reset a w) in
     w\<lparr>sw_metrics := INCR (INCR (sw_metrics w) M_buf_sock_borrow) M_buf_sock_active\<rparr>)"

definition sock_give :: "nat \<Rightarrow> sock_world \<Rightarrow> sock_world" where
  "sock_give a w = w\<lparr>sw_arena := arena_put a ((the (sw_socks w a))\<lparr>bk_free := True\<rparr>) (sw_arena w),
     sw_metrics := DECR (INCR (sw_metrics w) M_buf_sock_return) M_buf_sock_active\<rparr>"

definition sock_fail :: "sock_world \<Rightarrow> sock_world" where
  "sock_fail w = w\<lparr>sw_metrics := INCR (sw_metrics w) M_buf_sock_borrow_ex\<rparr>"

lemma sock_okD:
  assumes "sock_ok w" "sw_socks w a = Some s"
  obtains c r t where "has_parts s c r t" "c \<in> dom (sw_conns w)" "r \<in> dom (sw_bufs w)" "t \<in> dom (sw_bufs w)"
  using assms unfolding sock_ok_def by blast

lemma sock_view_parts:
  assumes "has_parts s c r t" "sw_socks w a = Some s" "sw_conns w c = Some conn" "sw_bufs w r = Some rb" "sw_bufs w t = Some wb"
  shows "sock_view w a = Some (s, conn, rb, wb)"
  using assms by (simp add: sock_view_def has_parts_def)

lemma sock_viewE:
  assumes "sock_ok w" "sw_socks w a = Some s"
  obtains c r t conn rb wb where "has_parts s c r t" "sw_conns w c = Some conn" "sw_bufs w r = Some rb" "sw_bufs w t = Some wb"
    "sock_view w a = Some (s, conn, rb, wb)"
proof -
  obtain c r t where p: "has_parts s c r t" "c \<in> dom (sw_conns w)" "r \<in> dom (sw_bufs w)" "t \<in> dom (sw_bufs w)"
    using sock_okD [OF assms] by blast
  then obtain conn rb wb where "sw_conns w c = Some conn" "sw_bufs w r = Some rb" "sw_bufs w t = Some wb" by blast
  then show thesis using that [of c r t conn rb wb] p(1) sock_view_parts [OF p(1) assms(2)] by blast
qed

lemma sock_view_None: "sw_socks w a = None \<Longrightarrow> sock_view w a = None"
  by (simp add: sock_view_def)

lemma dom_sock_view: "sock_ok w \<Longrightarrow> dom (sock_view w) = dom (sw_socks w)"
  using sock_view_None by (auto elim: sock_viewE) (metis not_None_eq)

lemma sock_ok_apart: "sock_ok w \<Longrightarrow> a \<noteq> b \<Longrightarrow> sw_socks w a = Some s \<Longrightarrow> sw_socks w b = Some s' \<Longrightarrow> apart s s'"
  unfolding sock_ok_def by blast


section \<open>The heaps of the parts\<close>

lemma buf_create_objs:
  assumes ok: "bw_ok w"
  shows "\<exists>r w'. buf_create w = Some (r, w') \<and> bw_ok w' \<and>
     (r = Null \<and> ar_objs (bw_arena w') = ar_objs (bw_arena w) \<or>
      (\<exists>e b. r = Ptr e \<and> e \<notin> dom (ar_objs (bw_arena w)) \<and> ar_objs (bw_arena w') = (ar_objs (bw_arena w))(e \<mapsto> b)))"
proof -
  obtain r w' where b: "buf_create w = Some (r, w')" "bw_ok w'"
      "r = Null \<and> bw_live w' = bw_live w \<or> (\<exists>e. r = Ptr e \<and> e \<notin> bw_live w \<and> bw_live w' = insert e (bw_live w))"
    using buf_create_ok [OF ok] by blast
  note fr = buf_create_frame [OF ok b(1)]
  from b(3) show ?thesis
  proof
    assume n: "r = Null \<and> bw_live w' = bw_live w"
    have "ar_objs (bw_arena w') x = ar_objs (bw_arena w) x" for x
      using fr [of x] n by (cases "x \<in> bw_live w") (auto simp: bw_live_def domIff)
    then have "ar_objs (bw_arena w') = ar_objs (bw_arena w)" by (rule ext)
    then show ?thesis using b n by auto
  next
    assume "\<exists>e. r = Ptr e \<and> e \<notin> bw_live w \<and> bw_live w' = insert e (bw_live w)"
    then obtain e where e: "r = Ptr e" "e \<notin> bw_live w" "bw_live w' = insert e (bw_live w)" by blast
    then have "e \<in> dom (ar_objs (bw_arena w'))" by (simp add: bw_live_def)
    then obtain y where y: "ar_objs (bw_arena w') e = Some y" by blast
    have "ar_objs (bw_arena w') x = ((ar_objs (bw_arena w))(e \<mapsto> y)) x" for x
    proof (cases "x \<in> bw_live w")
      case True
      then show ?thesis using fr [of x] e(2) by auto
    next
      case False
      then show ?thesis using e(3) y by (cases "x = e") (auto simp: bw_live_def domIff)
    qed
    then have "ar_objs (bw_arena w') = (ar_objs (bw_arena w))(e \<mapsto> y)" by (rule ext)
    then show ?thesis using b e by (auto simp: bw_live_def)
  qed
qed

lemma buf_destroy_objs:
  assumes "bw_ok w" "e \<in> dom (ar_objs (bw_arena w))"
  shows "\<exists>w'. buf_destroy e w = Some w' \<and> bw_ok w' \<and> ar_objs (bw_arena w') = (ar_objs (bw_arena w))(e := None)"
  using buf_destroy_ok [OF assms(1), of e] assms(2)
  by (auto simp: buf_destroy_def bw_live_def bind_eq_Some_conv)

lemma tcp_conn_destroy_objs:
  assumes "tcw_ok w" "e \<in> dom (tcw_objs w)"
  shows "\<exists>w'. tcp_conn_destroy e w = Some w' \<and> tcw_ok w' \<and> tcw_objs w' = (tcw_objs w)(e := None)"
  using assms by (auto simp: tcp_conn_destroy_def tcw_ok_def tcw_objs_def)


section \<open>Creation and destruction\<close>

text \<open>Taking apart a socket none of whose parts another socket owns.\<close>

lemma buf_sock_destroy_objs:
  assumes ok: "sock_ok w" and a: "a \<in> dom (sw_socks w)"
  shows "\<exists>w'. buf_sock_destroy a w = Some w' \<and> sock_ok w' \<and> sw_socks w' = (sw_socks w)(a := None)"
proof -
  obtain s where s: "sw_socks w a = Some s" using a by blast
  obtain c r t where p: "has_parts s c r t" "c \<in> dom (sw_conns w)" "r \<in> dom (sw_bufs w)" "t \<in> dom (sw_bufs w)"
    using sock_okD [OF ok s] by blast
  have ws: "tcw_ok (sw_tcp w)" "bw_ok (sw_buf w)" using ok by (simp_all add: sock_ok_def)
  obtain tw where tw: "tcp_conn_destroy c (sw_tcp w) = Some tw" "tcw_ok tw" "tcw_objs tw = (sw_conns w)(c := None)"
    using tcp_conn_destroy_objs [OF ws(1) p(2)] by blast
  obtain b1 where b1: "buf_destroy r (sw_buf w) = Some b1" "bw_ok b1" "ar_objs (bw_arena b1) = (sw_bufs w)(r := None)"
    using buf_destroy_objs [OF ws(2) p(3)] by blast
  have "t \<in> dom (ar_objs (bw_arena b1))" using b1(3) p(1,4) by (simp add: has_parts_def)
  then obtain b2 where b2: "buf_destroy t b1 = Some b2" "bw_ok b2" "ar_objs (bw_arena b2) = (sw_bufs w)(r := None, t := None)"
    using buf_destroy_objs [OF b1(2)] b1(3) by fastforce
  let ?w = "w\<lparr>sw_tcp := tw, sw_buf := b2, sw_arena := arena_free a (sw_arena w),
     sw_metrics := DECR (INCR (sw_metrics w) M_buf_sock_destroy) M_buf_sock_curr\<rparr>"
  have "buf_sock_destroy a w = Some ?w"
    using s p(1) tw(1) b1(1) b2(1) by (simp add: buf_sock_destroy_def destroy_ptr_def has_parts_def)
  moreover have "sock_ok ?w"
    unfolding sock_ok_def
  proof (intro conjI allI impI)
    fix x s' assume x: "sw_socks ?w x = Some s'"
    then have x': "x \<noteq> a" "sw_socks w x = Some s'" by (auto split: if_splits)
    obtain c' r' t' where q: "has_parts s' c' r' t'" "c' \<in> dom (sw_conns w)" "r' \<in> dom (sw_bufs w)" "t' \<in> dom (sw_bufs w)"
      using sock_okD [OF ok x'(2)] by blast
    have "apart s s'" using sock_ok_apart [OF ok _ s x'(2)] x'(1) by blast
    then show "\<exists>c r t. has_parts s' c r t \<and> c \<in> dom (sw_conns ?w) \<and> r \<in> dom (sw_bufs ?w) \<and> t \<in> dom (sw_bufs ?w)"
      using q p(1) tw(3) b2(3) by (intro exI [of _ c'] exI [of _ r'] exI [of _ t']) (auto simp: has_parts_def apart_def)
  next
    fix x y s1 s2 assume "x \<noteq> y" "sw_socks ?w x = Some s1" "sw_socks ?w y = Some s2"
    then show "apart s1 s2" using sock_ok_apart [OF ok] by (auto split: if_splits)
  qed (use ok tw b2 in \<open>simp_all add: sock_ok_def\<close>)
  ultimately show ?thesis by simp
qed

text \<open>\<open>same_socks\<close>: nothing but counters differs. \<open>grown\<close>: one more socket, with parts that are new.\<close>

definition heaps_ok :: "sock_world \<Rightarrow> bool" where
  "heaps_ok w \<longleftrightarrow> arena_ok (sw_arena w) \<and> tcw_ok (sw_tcp w) \<and> bw_ok (sw_buf w)"

definition same_socks :: "sock_world \<Rightarrow> sock_world \<Rightarrow> bool" where
  "same_socks w w' \<longleftrightarrow> heaps_ok w' \<and> sw_socks w' = sw_socks w \<and> sw_conns w' = sw_conns w \<and> sw_bufs w' = sw_bufs w"

definition grown :: "sock_world \<Rightarrow> nat \<Rightarrow> sock_world \<Rightarrow> bool" where
  "grown w a w' \<longleftrightarrow> heaps_ok w' \<and> (\<exists>s c conn r rb t wb. has_parts s c r t \<and>
     a \<notin> dom (sw_socks w) \<and> sw_socks w' = (sw_socks w)(a \<mapsto> s) \<and>
     c \<notin> dom (sw_conns w) \<and> sw_conns w' = (sw_conns w)(c \<mapsto> conn) \<and>
     r \<notin> dom (sw_bufs w) \<and> t \<notin> dom (sw_bufs w) \<and> sw_bufs w' = (sw_bufs w)(r \<mapsto> rb, t \<mapsto> wb))"

lemma same_socks_ok:
  assumes "sock_ok w" "same_socks w w'"
  shows "sock_ok w' \<and> sock_view w' = sock_view w"
proof -
  have eq: "sw_socks w' = sw_socks w" "sw_conns w' = sw_conns w" "sw_bufs w' = sw_bufs w" and "heaps_ok w'"
    using assms(2) by (simp_all add: same_socks_def)
  moreover have "sock_view w' a = sock_view w a" for a unfolding sock_view_def eq ..
  ultimately show ?thesis using assms(1) unfolding sock_ok_def heaps_ok_def eq by blast
qed

lemma grown_ok:
  assumes ok: "sock_ok w" and gr: "grown w a w'"
  shows "sock_ok w' \<and> a \<notin> dom (sock_view w) \<and> (\<exists>v. sock_view w' = (sock_view w)(a \<mapsto> v))"
proof -
  obtain s c conn r rb t wb where g: "has_parts s c r t" "a \<notin> dom (sw_socks w)" "sw_socks w' = (sw_socks w)(a \<mapsto> s)"
      "c \<notin> dom (sw_conns w)" "sw_conns w' = (sw_conns w)(c \<mapsto> conn)" "r \<notin> dom (sw_bufs w)" "t \<notin> dom (sw_bufs w)"
      "sw_bufs w' = (sw_bufs w)(r \<mapsto> rb, t \<mapsto> wb)" and h: "heaps_ok w'"
    using gr unfolding grown_def by blast
  have fresh: "apart s s' \<and> apart s' s" if b: "sw_socks w b = Some s'" for b s'
  proof -
    obtain c' r' t' where "has_parts s' c' r' t'" "c' \<in> dom (sw_conns w)" "r' \<in> dom (sw_bufs w)" "t' \<in> dom (sw_bufs w)"
      using sock_okD [OF ok b] by blast
    then show ?thesis using g(1,4,6,7) by (auto simp: apart_def has_parts_def)
  qed
  have ok': "sock_ok w'"
    unfolding sock_ok_def
  proof (intro conjI allI impI)
    fix x s' assume x: "sw_socks w' x = Some s'"
    show "\<exists>c r t. has_parts s' c r t \<and> c \<in> dom (sw_conns w') \<and> r \<in> dom (sw_bufs w') \<and> t \<in> dom (sw_bufs w')"
    proof (cases "x = a")
      case True
      then show ?thesis using x g by auto
    next
      case False
      then have "sw_socks w x = Some s'" using x g(3) by simp
      then obtain c' r' t' where "has_parts s' c' r' t'" "c' \<in> dom (sw_conns w)" "r' \<in> dom (sw_bufs w)" "t' \<in> dom (sw_bufs w)"
        using sock_okD [OF ok] by blast
      then show ?thesis using g(5,8) by (intro exI [of _ c'] exI [of _ r'] exI [of _ t']) auto
    qed
  next
    fix x y s1 s2 assume "x \<noteq> y" "sw_socks w' x = Some s1" "sw_socks w' y = Some s2"
    then show "apart s1 s2" using sock_ok_apart [OF ok] fresh g(3) by (auto split: if_splits)
  qed (use h in \<open>simp_all add: heaps_ok_def\<close>)
  have "sock_view w' x = sock_view w x" if "x \<noteq> a" for x
  proof (cases "sw_socks w x")
    case None
    then show ?thesis using that g(3) by (simp add: sock_view_None)
  next
    case (Some s')
    then obtain c' r' t' cn rb' wb' where v: "has_parts s' c' r' t'" "sw_conns w c' = Some cn" "sw_bufs w r' = Some rb'"
        "sw_bufs w t' = Some wb'" "sock_view w x = Some (s', cn, rb', wb')"
      using sock_viewE [OF ok] by metis
    have "c' \<noteq> c" "r' \<noteq> r" "r' \<noteq> t" "t' \<noteq> r" "t' \<noteq> t" using v(2,3,4) g(4,6,7) by auto
    then show ?thesis using sock_view_parts [OF v(1), of w' x cn rb' wb'] v Some that g(3,5,8) by simp
  qed
  moreover have "sock_view w' a = Some (s, conn, rb, wb)"
    using sock_view_parts [OF g(1), of w' a conn rb wb] g(1,3,5,8) by (simp add: has_parts_def)
  ultimately have "sock_view w' = (sock_view w)(a \<mapsto> (s, conn, rb, wb))" by auto
  then show ?thesis using ok' g(2) dom_sock_view [OF ok] by blast
qed

lemma sock_create_error_same:
  assumes w: "arena_ok (sw_arena w)" "sw_socks w = sw_socks w0" "a \<notin> dom (sw_socks w0)"
    and ch: "destroy_ptr tcp_conn_destroy (bk_ch s) (sw_tcp w) = Some tw" "tcw_ok tw" "tcw_objs tw = sw_conns w0"
    and bufs: "destroy_ptr buf_destroy (bk_rbuf s) (sw_buf w) = Some b1" "destroy_ptr buf_destroy (bk_wbuf s) b1 = Some b2"
      "bw_ok b2" "ar_objs (bw_arena b2) = sw_bufs w0"
  shows "\<exists>w'. sock_create_error a s w = Some (Null, w') \<and> same_socks w0 w'"
proof -
  have "sw_socks w a = None" using w(2,3) by auto
  then have "(sw_socks w)(a := None) = sw_socks w0" using w(2) by auto
  then show ?thesis
    using w(1) ch bufs by (simp add: sock_create_error_def buf_sock_destroy_def Let_def same_socks_def heaps_ok_def)
qed

text \<open>The creation, after the object itself and its connection have been requested.\<close>

lemma create_bufs:
  assumes wok: "arena_ok (sw_arena w)" "bw_ok (sw_buf w)" and a: "a \<notin> dom (sw_socks w)"
    and c: "c \<notin> dom (sw_conns w)" "tcw_ok tw" "tcw_objs tw = (sw_conns w)(c \<mapsto> conn)"
    and ar: "arena_ok ar" "ar_objs ar = sw_socks w" and req: "arena_request BUF_SOCK_SIZE (sw_arena w) = (Ptr (a, blk), ar)"
    and cr: "tcp_conn_create (sw_tcp w) = Some (Ptr c, tw)"
  shows "\<exists>r w'. buf_sock_create w = Some (r, w') \<and> (r = Null \<and> same_socks w w' \<or> (\<exists>a. r = Ptr a \<and> grown w a w'))"
proof -
  have "c \<in> dom (tcw_objs tw)" using c(3) by simp
  then obtain tw' where tw': "tcp_conn_destroy c tw = Some tw'" "tcw_ok tw'" "tcw_objs tw' = sw_conns w"
    using tcp_conn_destroy_objs [OF c(2)] c(1,3) by fastforce
  obtain rb b1 where b1: "buf_create (sw_buf w) = Some (rb, b1)" "bw_ok b1"
      "rb = Null \<and> ar_objs (bw_arena b1) = sw_bufs w \<or>
       (\<exists>r b. rb = Ptr r \<and> r \<notin> dom (sw_bufs w) \<and> ar_objs (bw_arena b1) = (sw_bufs w)(r \<mapsto> b))"
    using buf_create_objs [OF wok(2)] by blast
  show ?thesis
  proof (cases rb)
    case Null
    then have "buf_sock_create w = sock_create_error a (buf_sock_raw\<lparr>bk_ch := Ptr c, bk_rbuf := Null\<rparr>)
        (w\<lparr>sw_arena := ar, sw_tcp := tw, sw_buf := b1\<rparr>)"
      using req cr b1(1) by (simp add: buf_sock_create_def Let_def)
    moreover have "ar_objs (bw_arena b1) = sw_bufs w" using b1(3) Null by auto
    ultimately show ?thesis
      using sock_create_error_same [of "w\<lparr>sw_arena := ar, sw_tcp := tw, sw_buf := b1\<rparr>" w a
          "buf_sock_raw\<lparr>bk_ch := Ptr c, bk_rbuf := Null\<rparr>" tw' b1 b1] ar a tw' b1(2)
      by (auto simp: destroy_ptr_def buf_sock_raw_def)
  next
    case (Ptr r)
    then obtain b where r: "r \<notin> dom (sw_bufs w)" "ar_objs (bw_arena b1) = (sw_bufs w)(r \<mapsto> b)" using b1(3) by auto
    obtain wb b2 where b2: "buf_create b1 = Some (wb, b2)" "bw_ok b2"
        "wb = Null \<and> ar_objs (bw_arena b2) = ar_objs (bw_arena b1) \<or>
         (\<exists>t b. wb = Ptr t \<and> t \<notin> dom (ar_objs (bw_arena b1)) \<and> ar_objs (bw_arena b2) = (ar_objs (bw_arena b1))(t \<mapsto> b))"
      using buf_create_objs [OF b1(2)] by blast
    show ?thesis
    proof (cases wb)
      case Null
      then have code: "buf_sock_create w = sock_create_error a (buf_sock_raw\<lparr>bk_ch := Ptr c, bk_rbuf := Ptr r, bk_wbuf := Null\<rparr>)
          (w\<lparr>sw_arena := ar, sw_tcp := tw, sw_buf := b2\<rparr>)"
        using req cr b1(1) b2(1) Ptr by (simp add: buf_sock_create_def Let_def)
      have o: "ar_objs (bw_arena b2) = (sw_bufs w)(r \<mapsto> b)" using b2(3) Null r by auto
      then have "r \<in> dom (ar_objs (bw_arena b2))" by simp
      then obtain b3 where "buf_destroy r b2 = Some b3" "bw_ok b3" "ar_objs (bw_arena b3) = sw_bufs w"
        using buf_destroy_objs [OF b2(2)] o r(1) by fastforce
      then show ?thesis
        using sock_create_error_same [of "w\<lparr>sw_arena := ar, sw_tcp := tw, sw_buf := b2\<rparr>" w a
            "buf_sock_raw\<lparr>bk_ch := Ptr c, bk_rbuf := Ptr r, bk_wbuf := Null\<rparr>" tw' b3 b3] code ar a tw'
        by (auto simp: destroy_ptr_def buf_sock_raw_def)
    next
      case (Ptr t)
      then obtain b' where t: "t \<notin> dom ((sw_bufs w)(r \<mapsto> b))" "ar_objs (bw_arena b2) = (sw_bufs w)(r \<mapsto> b, t \<mapsto> b')"
        using b2(3) r by auto
      let ?s = "buf_sock_raw\<lparr>bk_ch := Ptr c, bk_rbuf := Ptr r, bk_wbuf := Ptr t\<rparr>"
      let ?w = "w\<lparr>sw_arena := arena_put a ?s ar, sw_tcp := tw, sw_buf := b2,
          sw_metrics := INCR (INCR (sw_metrics w) M_buf_sock_create) M_buf_sock_curr\<rparr>"
      have "buf_sock_create w = Some (Ptr a, ?w)"
        using req cr b1(1) b2(1) \<open>rb = Ptr r\<close> Ptr by (simp add: buf_sock_create_def Let_def)
      moreover have "has_parts ?s c r t" using t(1) by (auto simp: has_parts_def)
      then have "grown w a ?w"
        unfolding grown_def
        using ar c(1,2,3) r(1) t a b2(2)
        by (intro conjI exI [of _ ?s] exI [of _ c] exI [of _ conn] exI [of _ r] exI [of _ b] exI [of _ t] exI [of _ b'])
           (auto simp: heaps_ok_def)
      ultimately show ?thesis by blast
    qed
  qed
qed

lemma buf_sock_create_cases:
  assumes ok: "sock_ok w"
  shows "\<exists>r w'. buf_sock_create w = Some (r, w') \<and> (r = Null \<and> same_socks w w' \<or> (\<exists>a. r = Ptr a \<and> grown w a w'))"
proof -
  obtain q ar where req: "arena_request BUF_SOCK_SIZE (sw_arena w) = (q, ar)" by fastforce
  have wok: "arena_ok (sw_arena w)" "tcw_ok (sw_tcp w)" "bw_ok (sw_buf w)" using ok by (simp_all add: sock_ok_def)
  note ar = arena_request_ok [OF wok(1) req]
  show ?thesis
  proof (cases q)
    case Null
    then show ?thesis using req ar wok by (simp add: buf_sock_create_def same_socks_def heaps_ok_def)
  next
    case (Ptr x)
    then obtain a blk where q: "q = Ptr (a, blk)" by (cases x) simp
    have a: "a \<notin> dom (sw_socks w)" using ar(3) [OF q] by simp
    obtain ch tw where c: "tcp_conn_create (sw_tcp w) = Some (ch, tw)" "tcw_ok tw"
        "ch = Null \<and> tcw_objs tw = sw_conns w \<or> (\<exists>e t. ch = Ptr e \<and> e \<notin> dom (sw_conns w) \<and> tcw_objs tw = (sw_conns w)(e \<mapsto> t))"
      using tcp_conn_create_cases [OF wok(2)] by blast
    show ?thesis
    proof (cases ch)
      case Null
      then have "buf_sock_create w = sock_create_error a (buf_sock_raw\<lparr>bk_ch := Null\<rparr>) (w\<lparr>sw_arena := ar, sw_tcp := tw\<rparr>)"
        using req q c(1) by (simp add: buf_sock_create_def Let_def)
      moreover have "tcw_objs tw = sw_conns w" using c(3) Null by auto
      ultimately show ?thesis
        using sock_create_error_same [of "w\<lparr>sw_arena := ar, sw_tcp := tw\<rparr>" w a "buf_sock_raw\<lparr>bk_ch := Null\<rparr>" tw
            "sw_buf w" "sw_buf w"] ar a c(2) wok
        by (auto simp: destroy_ptr_def buf_sock_raw_def)
    next
      case (Ptr e)
      then obtain conn where "e \<notin> dom (sw_conns w)" "tcw_objs tw = (sw_conns w)(e \<mapsto> conn)" using c(3) by auto
      then show ?thesis using create_bufs [OF wok(1,3) a _ c(2) _ ar(1,2)] req q c(1) Ptr by simp
    qed
  qed
qed


section \<open>Borrowing and returning\<close>

text \<open>Writing to a socket and its parts changes the view of this socket only.\<close>

definition wrote :: "sock_world \<Rightarrow> nat \<Rightarrow> buf_sock \<Rightarrow> sock_view \<Rightarrow> sock_world \<Rightarrow> bool" where
  "wrote w a s v w' \<longleftrightarrow> heaps_ok w' \<and> (case v of (s', conn, rb, wb) \<Rightarrow> \<exists>c r t. has_parts s c r t \<and> has_parts s' c r t \<and>
     sw_socks w a = Some s \<and> sw_socks w' = (sw_socks w)(a \<mapsto> s') \<and> sw_conns w' = (sw_conns w)(c \<mapsto> conn) \<and>
     sw_bufs w' = (sw_bufs w)(r \<mapsto> rb, t \<mapsto> wb))"

lemma wrote_ok:
  assumes ok: "sock_ok w" and wr: "wrote w a s v w'"
  shows "sock_ok w' \<and> sock_view w' = (sock_view w)(a \<mapsto> v)"
proof -
  obtain s' conn rb wb where v: "v = (s', conn, rb, wb)" by (cases v)
  then obtain c r t where g: "has_parts s c r t" "has_parts s' c r t" "sw_socks w a = Some s" "sw_socks w' = (sw_socks w)(a \<mapsto> s')"
      "sw_conns w' = (sw_conns w)(c \<mapsto> conn)" "sw_bufs w' = (sw_bufs w)(r \<mapsto> rb, t \<mapsto> wb)" and h: "heaps_ok w'"
    using wr by (auto simp: wrote_def)
  have ap: "apart s' x \<and> apart x s'" if "b \<noteq> a" "sw_socks w b = Some x" for b x
    using sock_ok_apart [OF ok _ g(3) that(2)] that(1) g(1,2) by (auto simp: apart_def has_parts_def)
  have ok': "sock_ok w'"
    unfolding sock_ok_def
  proof (intro conjI allI impI)
    fix x s1 assume x: "sw_socks w' x = Some s1"
    show "\<exists>c r t. has_parts s1 c r t \<and> c \<in> dom (sw_conns w') \<and> r \<in> dom (sw_bufs w') \<and> t \<in> dom (sw_bufs w')"
    proof (cases "x = a")
      case True
      then show ?thesis using x g by auto
    next
      case False
      then have "sw_socks w x = Some s1" using x g(4) by simp
      then obtain c' r' t' where "has_parts s1 c' r' t'" "c' \<in> dom (sw_conns w)" "r' \<in> dom (sw_bufs w)" "t' \<in> dom (sw_bufs w)"
        using sock_okD [OF ok] by blast
      then show ?thesis using g(5,6) by (intro exI [of _ c'] exI [of _ r'] exI [of _ t']) auto
    qed
  next
    fix x y s1 s2 assume "x \<noteq> y" "sw_socks w' x = Some s1" "sw_socks w' y = Some s2"
    then show "apart s1 s2" using sock_ok_apart [OF ok] ap unfolding g(4) by (metis fun_upd_apply option.inject)
  qed (use h in \<open>simp_all add: heaps_ok_def\<close>)
  have "sock_view w' x = sock_view w x" if ne: "x \<noteq> a" for x
  proof (cases "sw_socks w x")
    case None
    then show ?thesis using ne g(4) by (simp add: sock_view_None)
  next
    case (Some s1)
    then obtain c' r' t' cn rb' wb' where u: "has_parts s1 c' r' t'" "sw_conns w c' = Some cn" "sw_bufs w r' = Some rb'"
        "sw_bufs w t' = Some wb'" "sock_view w x = Some (s1, cn, rb', wb')"
      using sock_viewE [OF ok] by metis
    have "c' \<noteq> c" "r' \<noteq> r" "r' \<noteq> t" "t' \<noteq> r" "t' \<noteq> t" using ap [OF ne Some] u(1) g(2) by (auto simp: apart_def has_parts_def)
    then show ?thesis using sock_view_parts [OF u(1), of w' x cn rb' wb'] u Some ne g(4,5,6) by simp
  qed
  moreover have "sock_view w' a = Some v"
    using sock_view_parts [OF g(2), of w' a conn rb wb] g v by (simp add: has_parts_def)
  ultimately show ?thesis using ok' by auto
qed

lemma buf_sock_reset_wrote:
  assumes ok: "sock_ok w" and v: "sock_view w a = Some v"
  shows "\<exists>w'. buf_sock_reset a w = Some w' \<and> wrote w a (fst v) (view_reset v) (sock_claim a w)"
proof -
  obtain s where s: "sw_socks w a = Some s" using v by (cases "sw_socks w a") (simp_all add: sock_view_None)
  obtain c r t conn rb wb where u: "has_parts s c r t" "sw_conns w c = Some conn" "sw_bufs w r = Some rb" "sw_bufs w t = Some wb"
      "sock_view w a = Some (s, conn, rb, wb)"
    using sock_viewE [OF ok s] by metis
  have v': "v = (s, conn, rb, wb)" using u(5) v by simp
  have "t \<noteq> r" using u(1) by (simp add: has_parts_def)
  have wok: "arena_ok (sw_arena w)" "tcw_ok (sw_tcp w)" "bw_ok (sw_buf w)" using ok by (simp_all add: sock_ok_def)
  have bw: "bw_ok (sw_buf w\<lparr>bw_arena := arena_put t (buf_reset wb) (arena_put r (buf_reset rb) (bw_arena (sw_buf w)))\<rparr>)"
    using wok(3) u(3,4) by (auto simp: bw_ok_def buf_reset_def buf_wf_def)
  have "\<exists>w'. buf_sock_reset a w = Some w' \<and> w' = w\<lparr>sw_arena := arena_put a (clear_sock s) (sw_arena w),
      sw_tcp := (sw_tcp w)\<lparr>tcw_arena := arena_put c (tcp_conn_reset conn) (tcw_arena (sw_tcp w))\<rparr>,
      sw_buf := (sw_buf w)\<lparr>bw_arena := arena_put t (buf_reset wb) (arena_put r (buf_reset rb) (bw_arena (sw_buf w)))\<rparr>\<rparr>"
    using s u \<open>t \<noteq> r\<close> by (simp add: buf_sock_reset_def has_parts_def clear_sock_def tcw_objs_def Let_def)
  then show ?thesis
    using u(1) s wok(1,2) bw
    by (auto simp: sock_claim_def wrote_def v' view_reset_def heaps_ok_def tcw_ok_def tcw_objs_def has_parts_def clear_sock_def Let_def)
qed

lemma sock_give_wrote:
  assumes ok: "sock_ok w" and v: "sock_view w a = Some v"
  shows "wrote w a (fst v) (view_mark v) (sock_give a w)"
proof -
  obtain s where s: "sw_socks w a = Some s" using v by (cases "sw_socks w a") (simp_all add: sock_view_None)
  obtain c r t conn rb wb where u: "has_parts s c r t" "sw_conns w c = Some conn" "sw_bufs w r = Some rb" "sw_bufs w t = Some wb"
      "sock_view w a = Some (s, conn, rb, wb)"
    using sock_viewE [OF ok s] by metis
  have v': "v = (s, conn, rb, wb)" using u(5) v by simp
  have same: "(sw_conns w)(c \<mapsto> conn) = sw_conns w" "(sw_bufs w)(r \<mapsto> rb, t \<mapsto> wb) = sw_bufs w"
    using u by (auto simp: fun_eq_iff)
  have "has_parts (s\<lparr>bk_free := True\<rparr>) c r t" using u(1) by (simp add: has_parts_def)
  then show ?thesis
    unfolding wrote_def v' view_mark_def
    using u(1) s ok same by (simp add: sock_give_def sock_ok_def heaps_ok_def) metis
qed

lemma buf_sock_borrow_code:
  "(case r of
      Null \<Rightarrow> Some (Null, m\<lparr>pm_pool := p, pm_world := w\<lparr>sw_metrics := INCR (sw_metrics w) M_buf_sock_borrow_ex\<rparr>\<rparr>)
    | Ptr a \<Rightarrow> do {
        w \<leftarrow> buf_sock_reset a w;
        Some (Ptr a, m\<lparr>pm_pool := p\<lparr>pl_freeq := set_cell (NextOf a) Null (pl_freeq p)\<rparr>,
          pm_world := w\<lparr>sw_metrics := INCR (INCR (sw_metrics w) M_buf_sock_borrow) M_buf_sock_active\<rparr>\<rparr>)
      }) =
   (case r of
      Null \<Rightarrow> Some (Null, m\<lparr>pm_pool := p, pm_world := sock_fail w\<rparr>)
    | Ptr a \<Rightarrow> do {
        x \<leftarrow> sock_view w a;
        Some (Ptr a, m\<lparr>pm_pool := p\<lparr>pl_freeq := set_cell (NextOf a) Null (pl_freeq p)\<rparr>, pm_world := sock_claim a w\<rparr>)
      })"
proof (cases r)
  case (Ptr a)
  have "(sock_view w a = None) = (buf_sock_reset a w = None)"
    by (auto simp: sock_view_def buf_sock_reset_def tcw_objs_def Let_def bind_eq_None_conv
        split: bind_splits ptr.splits if_splits)
  then show ?thesis using Ptr by (cases "sock_view w a") (auto simp: sock_claim_def Let_def)
qed (simp add: sock_fail_def)

lemma buf_sock_create_views:
  assumes ok: "sock_ok w"
  obtains (none) w' where "buf_sock_create w = Some (Null, w')" "sock_ok w'" "sock_view w' = sock_view w"
  | (created) a v w' where "buf_sock_create w = Some (Ptr a, w')" "sock_ok w'" "a \<notin> dom (sock_view w)"
      "sock_view w' = (sock_view w)(a \<mapsto> v)"
  using buf_sock_create_cases [OF ok] same_socks_ok [OF ok] grown_ok [OF ok] by blast

interpretation sockp: pooled_module buf_sock_create buf_sock_destroy "\<lambda>w. dom (sock_view w)" sock_ok
  sock_view view_free view_reset view_mark sock_claim sock_give sock_fail
  pm_pool pm_world "\<lambda>p w m. m\<lparr>pm_pool := p, pm_world := w\<rparr>" buf_sock_borrow buf_sock_return
proof unfold_locales
  show "\<exists>r w'. buf_sock_create w = Some (r, w') \<and> sock_ok w' \<and> (r = Null \<and> dom (sock_view w') = dom (sock_view w) \<or>
      (\<exists>e. r = Ptr e \<and> e \<notin> dom (sock_view w) \<and> dom (sock_view w') = insert e (dom (sock_view w))))" if "sock_ok w" for w
    using that by (cases rule: buf_sock_create_views) auto
  show "\<exists>w'. buf_sock_destroy e w = Some w' \<and> sock_ok w' \<and> dom (sock_view w') = dom (sock_view w) - {e}"
    if "sock_ok w" "e \<in> dom (sock_view w)" for w e
    using that(2) buf_sock_destroy_objs [OF that(1), of e] dom_sock_view dom_sock_view [OF that(1)] by auto
  show "sock_view w' e = sock_view w e"
    if "sock_ok w" "buf_sock_create w = Some (r, w')" "e \<in> dom (sock_view w)" for w r w' e
    using that(1) by (cases rule: buf_sock_create_views) (use that(2,3) in auto)
  show "sock_ok (sock_claim e w) \<and> sock_view (sock_claim e w) = (sock_view w)(e \<mapsto> view_reset x)"
    if "sock_ok w" "sock_view w e = Some x" for w e x
    using buf_sock_reset_wrote [OF that] wrote_ok [OF that(1)] by blast
  show "sock_ok (sock_give e w) \<and> sock_view (sock_give e w) = (sock_view w)(e \<mapsto> view_mark x)"
    if "sock_ok w" "sock_view w e = Some x" for w e x
    using sock_give_wrote [OF that] wrote_ok [OF that(1)] by blast
  show "sock_ok (sock_fail w) \<and> sock_view (sock_fail w) = sock_view w" if "sock_ok w" for w
    using same_socks_ok [OF that, of "sock_fail w"] that by (simp add: same_socks_def heaps_ok_def sock_fail_def sock_ok_def)
  show "buf_sock_borrow m = do {
        (r, p, w) \<leftarrow> FREEPOOL_BORROW buf_sock_create (pm_pool m) (pm_world m);
        (case r of
           Null \<Rightarrow> Some (Null, m\<lparr>pm_pool := p, pm_world := sock_fail w\<rparr>)
         | Ptr a \<Rightarrow> do {
             x \<leftarrow> sock_view w a;
             Some (Ptr a, m\<lparr>pm_pool := p\<lparr>pl_freeq := set_cell (NextOf a) Null (pl_freeq p)\<rparr>, pm_world := sock_claim a w\<rparr>)
           })
      }" for m
    unfolding buf_sock_borrow_def buf_sock_borrow_code ..
  show "buf_sock_return t m = do {
        (r, p, w) \<leftarrow> pooled_return sock_view view_free sock_give t (pm_pool m) (pm_world m);
        Some (r, if r = t then m else m\<lparr>pm_pool := p, pm_world := w\<rparr>)
      }" if ok: "sock_ok (pm_world m)" for t m
  proof (cases t)
    case (Ptr a)
    show ?thesis
    proof (cases "sw_socks (pm_world m) a")
      case None
      then show ?thesis using Ptr by (simp add: buf_sock_return_def pooled_return_def sock_view_None)
    next
      case (Some s)
      then obtain v where "sock_view (pm_world m) a = Some (s, v)" using sock_viewE [OF ok] by metis
      then show ?thesis
        using Ptr Some by (auto simp: buf_sock_return_def pooled_return_def view_free_def sock_give_def Let_def split: bind_splits)
    qed
  qed (simp add: buf_sock_return_def pooled_return_def)
qed (auto simp: view_free_def view_reset_def view_mark_def clear_sock_def split: prod.splits)

definition sock_inv :: "sock_module \<Rightarrow> nat list \<Rightarrow> nat set \<Rightarrow> bool" where
  "sock_inv m fr us \<longleftrightarrow> pooled_inv sock_view view_free sock_ok (pm_pool m) (pm_world m) fr us"


section \<open>Properties\<close>

text \<open>C13: the pool of buffered sockets. From any state in which the invariant holds, any sequence of
  \<^verbatim>\<open>buf_sock_borrow\<close> and \<^verbatim>\<open>buf_sock_return\<close> calls runs without failing an assertion and keeps the
  invariant; no socket is handed to two borrowers and no more than the configured maximum is out. A
  socket that a client holds throughout is not touched by what the others do: the socket, its
  connection and its two buffers are as before, although every borrow resets all these parts.\<close>

theorem buf_sock_pool_exclusive:
  assumes "sock_inv m fr (set us)" and "distinct us"
  shows "\<exists>m' us' fr'. module_run buf_sock_borrow buf_sock_return ops m us = Some (m', us') \<and> sock_inv m' fr' (set us') \<and>
     distinct us' \<and> length us' \<le> unat (pl_nmax (pm_pool m)) \<and>
     (\<forall>b \<in> set us. PReturn b \<notin> set ops \<longrightarrow> b \<in> set us' \<and> sock_view (pm_world m') b = sock_view (pm_world m) b)"
  using sockp.module_run_ok assms unfolding sock_inv_def by blast

definition sock_sample :: sock_module where
  "sock_sample =
     \<lparr>pm_pool = \<lparr>pl_freeq = \<lparr>q_cell = \<lambda>_. Null, q_last = FirstOf, q_prev = NextOf\<rparr>,
                 pl_nfree = 0, pl_nused = 1, pl_nmax = 3, pl_initialized = True\<rparr>,
      pm_world =
        \<lparr>sw_arena = \<lparr>ar_objs = [7 \<mapsto> buf_sock_raw\<lparr>bk_ch := Ptr 1, bk_rbuf := Ptr 2, bk_wbuf := Ptr 3\<rparr>],
                     ar_alloc = arena_next, ar_tick = 0\<rparr>,
         sw_tcp = \<lparr>tcw_arena = \<lparr>ar_objs = [1 \<mapsto> tcp_conn_raw], ar_alloc = arena_next, ar_tick = 2\<rparr>, tcw_metrics = Null\<rparr>,
         sw_buf = \<lparr>bw_arena = \<lparr>ar_objs = [2 \<mapsto> \<lparr>b_rpos = 1, b_wpos = 3, b_end = 7, b_free = False, b_begin = [1, 2, 3, 4, 5, 6, 7]\<rparr>,
                       3 \<mapsto> \<lparr>b_rpos = 0, b_wpos = 0, b_end = 2, b_free = False, b_begin = [1, 2]\<rparr>], ar_alloc = arena_next, ar_tick = 9\<rparr>,
                    bw_metrics = Null, bw_init_size = 40\<rparr>,
         sw_metrics = Null\<rparr>,
      pm_pool_init = True, pm_init = True\<rparr>"

lemma sock_sample_inv: "sock_inv sock_sample [] (set [7])"
  by (auto simp: sock_inv_def pooled_inv_def sock_sample_def pool_inv_def stailq_rep_def slist_rep_def sock_ok_def tcw_ok_def
      tcw_objs_def has_parts_def buf_sock_raw_def bw_ok_def bw_live_def arena_ok_def arena_next_def buf_wf_def sock_view_def
      view_free_def STAILQ_NEXT_def split: if_splits)

theorem buf_sock_pool_exclusive_witness:
  "\<exists>m' us' fr'. module_run buf_sock_borrow buf_sock_return [PBorrow, PBorrow, PReturn 0, PBorrow] sock_sample [7] = Some (m', us') \<and>
     sock_inv m' fr' (set us') \<and> distinct us' \<and> length us' \<le> 3 \<and>
     7 \<in> set us' \<and> sock_view (pm_world m') 7 = sock_view (pm_world sock_sample) 7"
proof -
  have mx: "unat (pl_nmax (pm_pool sock_sample)) = 3" by (simp add: sock_sample_def)
  have d: "distinct [7 :: nat]" by simp
  show ?thesis
    using buf_sock_pool_exclusive [OF sock_sample_inv d, of "[PBorrow, PBorrow, PReturn 0, PBorrow]"] unfolding mx by auto
qed

end
