(* ===== verification/Cc_Pipe.thy ===== *)
theory Cc_Pipe
  imports Cc_Channel Cc_Pooled "HOL-Library.Sublist"
begin

text \<open>
  Pipes as channels, \<^verbatim>\<open>include/channel/cc_pipe.h\<close> and \<^verbatim>\<open>src/channel/cc_pipe.c\<close>: the pool of
  connections, which fulfils the contract \<open>pooled_module\<close>, and receiving and sending, which fulfil
  the contract \<open>channel_io\<close>. A pipe reads and writes different descriptors; over a kernel that
  implements pipes what is received is what was sent.
\<close>

section \<open>Connections and their pool\<close>

datatype pipe_metric =
    M_pipe_conn_create | M_pipe_conn_create_ex | M_pipe_conn_destroy | M_pipe_conn_curr | M_pipe_conn_borrow
  | M_pipe_conn_borrow_ex | M_pipe_conn_return | M_pipe_conn_active | M_pipe_open | M_pipe_open_ex | M_pipe_close
  | M_pipe_recv | M_pipe_recv_ex | M_pipe_recv_byte | M_pipe_send | M_pipe_send_ex | M_pipe_send_byte | M_pipe_flag_ex

record pipe_conn =
  pc_free :: bool
  pc_fd0 :: int
  pc_fd1 :: int
  pc_recv_nbyte :: u64
  pc_send_nbyte :: u64
  pc_state :: ch_state
  pc_flags :: u32
  pc_err :: int

record pipe_world =
  pw_arena :: "pipe_conn arena"
  pw_metrics :: "pipe_metric metrics"

type_synonym pipe_module = "pipe_world pmodule"
type_synonym pipe_env = "pipe_metric io_env"

definition PIPE_POOLSIZE :: u32 where
  "PIPE_POOLSIZE = 0"

definition PIPE_CONN_SIZE :: u64 where
  "PIPE_CONN_SIZE = 56"

definition pipe_conn_reset :: "pipe_conn \<Rightarrow> pipe_conn" where
  "pipe_conn_reset c = c\<lparr>pc_free := False, pc_fd0 := 0, pc_fd1 := 0, pc_recv_nbyte := 0, pc_send_nbyte := 0,
     pc_state := CHANNEL_TERM, pc_flags := 0, pc_err := 0\<rparr>"

definition pipe_conn_raw :: pipe_conn where
  "pipe_conn_raw = \<lparr>pc_free = False, pc_fd0 = 0, pc_fd1 = 0, pc_recv_nbyte = 0, pc_send_nbyte = 0,
     pc_state = CHANNEL_UNKNOWN, pc_flags = 0, pc_err = 0\<rparr>"

definition pipe_conn_create :: "pipe_world \<Rightarrow> (nat ptr \<times> pipe_world) option" where
  "pipe_conn_create w =
     (case arena_request PIPE_CONN_SIZE (pw_arena w) of
        (Null, ar) \<Rightarrow> Some (Null, w\<lparr>pw_arena := ar, pw_metrics := INCR (pw_metrics w) M_pipe_conn_create_ex\<rparr>)
      | (Ptr (a, _), ar) \<Rightarrow>
          Some (Ptr a, w\<lparr>pw_arena := arena_put a (pipe_conn_reset pipe_conn_raw) ar,
                         pw_metrics := INCR (INCR (pw_metrics w) M_pipe_conn_create) M_pipe_conn_curr\<rparr>))"

definition pipe_conn_destroy :: "nat \<Rightarrow> pipe_world \<Rightarrow> pipe_world option" where
  "pipe_conn_destroy a w = do {
     _ \<leftarrow> ar_objs (pw_arena w) a;
     Some (w\<lparr>pw_arena := arena_free a (pw_arena w),
             pw_metrics := DECR (INCR (pw_metrics w) M_pipe_conn_destroy) M_pipe_conn_curr\<rparr>)
   }"

definition pipe_conn_pool_destroy :: "pipe_module \<Rightarrow> pipe_module option" where
  "pipe_conn_pool_destroy m =
     (if \<not> pm_pool_init m then Some m
      else do {
        (p, w) \<leftarrow> FREEPOOL_DESTROY pipe_conn_destroy (pm_pool m) (pm_world m);
        Some (m\<lparr>pm_pool := p, pm_world := w, pm_pool_init := False\<rparr>)
      })"

definition pipe_conn_pool_create :: "u32 \<Rightarrow> pipe_module \<Rightarrow> (unit + pipe_module) option" where
  "pipe_conn_pool_create mx m = do {
     m \<leftarrow> (if pm_pool_init m then pipe_conn_pool_destroy m else Some m);
     p \<leftarrow> FREEPOOL_CREATE mx (pm_pool m);
     (p', w) \<leftarrow> FREEPOOL_PREALLOC pipe_conn_create mx p (pm_world m);
     Some (if pl_nfree p' < mx then Inl () else Inr (m\<lparr>pm_pool := p', pm_world := w, pm_pool_init := True\<rparr>))
   }"

definition pipe_conn_borrow :: "pipe_module \<Rightarrow> (nat ptr \<times> pipe_module) option" where
  "pipe_conn_borrow m = do {
     (r, p, w) \<leftarrow> FREEPOOL_BORROW pipe_conn_create (pm_pool m) (pm_world m);
     (case r of
        Null \<Rightarrow> Some (Null, m\<lparr>pm_pool := p, pm_world := w\<lparr>pw_metrics := INCR (pw_metrics w) M_pipe_conn_borrow_ex\<rparr>\<rparr>)
      | Ptr a \<Rightarrow> do {
          c \<leftarrow> ar_objs (pw_arena w) a;
          Some (Ptr a, m\<lparr>pm_pool := p\<lparr>pl_freeq := set_cell (NextOf a) Null (pl_freeq p)\<rparr>,
            pm_world := w\<lparr>pw_arena := arena_put a (pipe_conn_reset c) (pw_arena w),
              pw_metrics := INCR (INCR (pw_metrics w) M_pipe_conn_borrow) M_pipe_conn_active\<rparr>\<rparr>)
        })
   }"

definition pipe_conn_return :: "nat ptr \<Rightarrow> pipe_module \<Rightarrow> (nat ptr \<times> pipe_module) option" where
  "pipe_conn_return c m =
     (case c of
        Null \<Rightarrow> Some (c, m)
      | Ptr a \<Rightarrow> do {
          x \<leftarrow> ar_objs (pw_arena (pm_world m)) a;
          if pc_free x then Some (c, m)
          else do {
            p \<leftarrow> FREEPOOL_RETURN a (pm_pool m);
            let w = pm_world m;
            Some (Null, m\<lparr>pm_pool := p,
              pm_world := w\<lparr>pw_arena := arena_put a (x\<lparr>pc_free := True\<rparr>) (pw_arena w),
                pw_metrics := DECR (INCR (pw_metrics w) M_pipe_conn_return) M_pipe_conn_active\<rparr>\<rparr>)
          }
        })"

definition pipe_setup :: "u64 ptr \<Rightarrow> pipe_metric metrics \<Rightarrow> pipe_module \<Rightarrow> os \<Rightarrow> (unit + pipe_module \<times> os) option" where
  "pipe_setup options metrics m s = do {
     let m = m\<lparr>pm_world := (pm_world m)\<lparr>pw_metrics := metrics\<rparr>\<rparr>;
     let mx = (case options of Null \<Rightarrow> PIPE_POOLSIZE | Ptr n \<Rightarrow> ucast n);
     r \<leftarrow> pipe_conn_pool_create mx m;
     (case r of
        Inl u \<Rightarrow> Some (Inl u)
      | Inr m \<Rightarrow> do { (_, s) \<leftarrow> channel_sigpipe_ignore s; Some (Inr (m\<lparr>pm_init := True\<rparr>, s)) })
   }"

definition pipe_teardown :: "pipe_module \<Rightarrow> pipe_module option" where
  "pipe_teardown m = do {
     m \<leftarrow> pipe_conn_pool_destroy m;
     Some (m\<lparr>pm_world := (pm_world m)\<lparr>pw_metrics := Null\<rparr>, pm_init := False\<rparr>)
   }"


section \<open>Operations\<close>

definition pipe_read_id :: "pipe_conn \<Rightarrow> int" where
  "pipe_read_id c = pc_fd0 c"

definition pipe_write_id :: "pipe_conn \<Rightarrow> int" where
  "pipe_write_id c = pc_fd1 c"

text \<open>\<open>addr\<close> stands for the address, which has to be \<^verbatim>\<open>NULL\<close>.\<close>

definition pipe_open :: "nat ptr \<Rightarrow> pipe_conn \<Rightarrow> pipe_env \<Rightarrow> (bool \<times> pipe_conn \<times> pipe_env) option" where
  "pipe_open addr c e = do {
     ASSERT (addr = Null);
     let (r, e) = te_call (syscall Sys_pipe) e;
     if sr_ret r \<noteq> 0 then Some (False, c\<lparr>pc_err := os_errno (te_os e)\<rparr>, te_incr M_pipe_open_ex e)
     else (case sr_vals r of
         [rd, wr] \<Rightarrow> Some (True, c\<lparr>pc_fd0 := rd, pc_fd1 := wr, pc_state := CHANNEL_LISTEN\<rparr>, te_incr M_pipe_open e)
       | _ \<Rightarrow> None)
   }"

definition pipe_close :: "pipe_conn ptr \<Rightarrow> pipe_env \<Rightarrow> pipe_env" where
  "pipe_close c e =
     (case c of
        Null \<Rightarrow> e
      | Ptr c \<Rightarrow>
          (let e = (if pc_fd0 c \<ge> 0 then snd (te_call (syscall (Sys_close (pc_fd0 c))) e) else e);
               e = (if pc_fd1 c \<ge> 0 then snd (te_call (syscall (Sys_close (pc_fd1 c))) e) else e)
           in te_incr M_pipe_close e))"

definition pipe_recv_body :: "nat \<Rightarrow> pipe_conn \<times> pipe_env \<Rightarrow> pipe_conn \<times> pipe_env + int \<times> bytes \<times> pipe_conn \<times> pipe_env" where
  "pipe_recv_body nbyte ce = (case ce of (c, e) \<Rightarrow>
     let (r, e) = te_call (syscall (Sys_read (pc_fd0 c) nbyte)) e;
         n = sr_ret r;
         e = te_incr M_pipe_recv e
     in if n > 0 then
          Inr (n, sr_data r, c\<lparr>pc_recv_nbyte := pc_recv_nbyte c + word_of_int n\<rparr>, te_incr_n M_pipe_recv_byte n e)
        else if n = 0 then Inr (n, [], c, e)
        else let e = te_incr M_pipe_recv_ex e in
          if os_errno (te_os e) = EINTR then Inl (c, e)
          else if os_errno (te_os e) = EAGAIN \<or> os_errno (te_os e) = EWOULDBLOCK
          then Inr (rstatus_code CC_EAGAIN, [], c, e)
          else Inr (rstatus_code CC_ERROR, [], c\<lparr>pc_err := os_errno (te_os e)\<rparr>, e))"

definition pipe_recv :: "nat \<Rightarrow> pipe_conn \<times> pipe_env \<Rightarrow> (int \<times> bytes \<times> pipe_conn \<times> pipe_env) option" where
  "pipe_recv nbyte ce = do { ASSERT (0 < nbyte); retry (pipe_recv_body nbyte) ce }"

definition pipe_send_body :: "bytes \<Rightarrow> pipe_conn \<times> pipe_env \<Rightarrow> pipe_conn \<times> pipe_env + int \<times> pipe_conn \<times> pipe_env" where
  "pipe_send_body bs ce = (case ce of (c, e) \<Rightarrow>
     let (r, e) = te_call (syscall (Sys_write (pc_fd1 c) bs)) e;
         n = sr_ret r;
         e = te_incr M_pipe_send e
     in if n > 0 then
          Inr (n, c\<lparr>pc_send_nbyte := pc_send_nbyte c + word_of_int n\<rparr>, te_incr_n M_pipe_send_byte n e)
        else if n = 0 then Inr (0, c, e)
        else let e = te_incr M_pipe_send_ex e in
          if os_errno (te_os e) = EINTR then Inl (c, e)
          else if os_errno (te_os e) = EAGAIN \<or> os_errno (te_os e) = EWOULDBLOCK
          then Inr (rstatus_code CC_EAGAIN, c, e)
          else Inr (rstatus_code CC_ERROR, c\<lparr>pc_err := os_errno (te_os e)\<rparr>, e))"

definition pipe_send :: "bytes \<Rightarrow> pipe_conn \<times> pipe_env \<Rightarrow> (int \<times> pipe_conn \<times> pipe_env) option" where
  "pipe_send bs ce = do { ASSERT (0 < length bs); retry (pipe_send_body bs) ce }"

definition set_blocking_fd :: "int \<Rightarrow> pipe_env \<Rightarrow> pipe_env" where
  "set_blocking_fd fd e = (let (r, e) = te_call (syscall (Sys_getfl fd)) e; flags = sr_ret r in
     if flags < 0 then te_incr M_pipe_flag_ex e
     else snd (te_call (syscall (Sys_setfl fd (flags AND NOT O_NONBLOCK))) e))"

definition pipe_set_blocking :: "pipe_conn \<Rightarrow> pipe_env \<Rightarrow> pipe_env" where
  "pipe_set_blocking c e = set_blocking_fd (pipe_write_id c) (set_blocking_fd (pipe_read_id c) e)"

definition set_nonblocking_fd :: "int \<Rightarrow> pipe_env \<Rightarrow> pipe_env" where
  "set_nonblocking_fd fd e = (let (r, e) = te_call (syscall (Sys_getfl fd)) e; flags = sr_ret r in
     if flags < 0 then te_incr M_pipe_flag_ex e
     else snd (te_call (syscall (Sys_setfl fd (flags OR O_NONBLOCK))) e))"

definition pipe_set_nonblocking :: "pipe_conn \<Rightarrow> pipe_env \<Rightarrow> pipe_env" where
  "pipe_set_nonblocking c e = set_nonblocking_fd (pipe_write_id c) (set_nonblocking_fd (pipe_read_id c) e)"


section \<open>The pool of connections\<close>

abbreviation pw_objs :: "pipe_world \<Rightarrow> nat \<Rightarrow> pipe_conn option" where
  "pw_objs w \<equiv> ar_objs (pw_arena w)"

abbreviation pw_ok :: "pipe_world \<Rightarrow> bool" where
  "pw_ok w \<equiv> arena_ok (pw_arena w)"

definition pipe_claim :: "nat \<Rightarrow> pipe_world \<Rightarrow> pipe_world" where
  "pipe_claim a w = w\<lparr>pw_arena := arena_put a (pipe_conn_reset (the (pw_objs w a))) (pw_arena w),
     pw_metrics := INCR (INCR (pw_metrics w) M_pipe_conn_borrow) M_pipe_conn_active\<rparr>"

definition pipe_give :: "nat \<Rightarrow> pipe_world \<Rightarrow> pipe_world" where
  "pipe_give a w = w\<lparr>pw_arena := arena_put a ((the (pw_objs w a))\<lparr>pc_free := True\<rparr>) (pw_arena w),
     pw_metrics := DECR (INCR (pw_metrics w) M_pipe_conn_return) M_pipe_conn_active\<rparr>"

definition pipe_fail :: "pipe_world \<Rightarrow> pipe_world" where
  "pipe_fail w = w\<lparr>pw_metrics := INCR (pw_metrics w) M_pipe_conn_borrow_ex\<rparr>"

lemma pipe_conn_create_cases:
  assumes ok: "pw_ok w"
  shows "\<exists>r w'. pipe_conn_create w = Some (r, w') \<and> pw_ok w' \<and>
     (r = Null \<and> pw_objs w' = pw_objs w \<or> (\<exists>e t. r = Ptr e \<and> e \<notin> dom (pw_objs w) \<and> pw_objs w' = (pw_objs w)(e \<mapsto> t)))"
proof -
  obtain r ar where req: "arena_request PIPE_CONN_SIZE (pw_arena w) = (r, ar)" by fastforce
  note ar = arena_request_ok [OF ok req]
  show ?thesis
  proof (cases r)
    case Null
    then show ?thesis using req ar by (simp add: pipe_conn_create_def)
  next
    case (Ptr x)
    then obtain a blk where x: "r = Ptr (a, blk)" by (cases x) simp
    show ?thesis using req x ar(1,2) ar(3) [OF x] by (simp add: pipe_conn_create_def) blast
  qed
qed

interpretation pipep: pooled_module pipe_conn_create pipe_conn_destroy "\<lambda>w. dom (pw_objs w)" pw_ok
  pw_objs pc_free pipe_conn_reset "\<lambda>c. c\<lparr>pc_free := True\<rparr>" pipe_claim pipe_give pipe_fail
  pm_pool pm_world "\<lambda>p w m. m\<lparr>pm_pool := p, pm_world := w\<rparr>" pipe_conn_borrow pipe_conn_return
proof unfold_locales
  show "\<exists>r w'. pipe_conn_create w = Some (r, w') \<and> pw_ok w' \<and> (r = Null \<and> dom (pw_objs w') = dom (pw_objs w) \<or>
      (\<exists>e. r = Ptr e \<and> e \<notin> dom (pw_objs w) \<and> dom (pw_objs w') = insert e (dom (pw_objs w))))" if "pw_ok w" for w
    using pipe_conn_create_cases [OF that] by fastforce
  show "\<exists>w'. pipe_conn_destroy e w = Some w' \<and> pw_ok w' \<and> dom (pw_objs w') = dom (pw_objs w) - {e}"
    if "pw_ok w" "e \<in> dom (pw_objs w)" for w e
    using that by (auto simp: pipe_conn_destroy_def)
  show "pw_objs w' e = pw_objs w e"
    if "pw_ok w" "pipe_conn_create w = Some (r, w')" "e \<in> dom (pw_objs w)" for w r w' e
    using pipe_conn_create_cases [OF that(1)] that(2,3) by (auto split: if_splits)
  show "pipe_conn_borrow m = do {
        (r, p, w) \<leftarrow> FREEPOOL_BORROW pipe_conn_create (pm_pool m) (pm_world m);
        (case r of
           Null \<Rightarrow> Some (Null, m\<lparr>pm_pool := p, pm_world := pipe_fail w\<rparr>)
         | Ptr a \<Rightarrow> do {
             x \<leftarrow> pw_objs w a;
             Some (Ptr a, m\<lparr>pm_pool := p\<lparr>pl_freeq := set_cell (NextOf a) Null (pl_freeq p)\<rparr>, pm_world := pipe_claim a w\<rparr>)
           })
      }" for m
    by (auto simp: pipe_conn_borrow_def pipe_claim_def pipe_fail_def intro!: Option.bind_cong split: ptr.splits)
  show "pipe_conn_return t m = do {
        (r, p, w) \<leftarrow> pooled_return pw_objs pc_free pipe_give t (pm_pool m) (pm_world m);
        Some (r, if r = t then m else m\<lparr>pm_pool := p, pm_world := w\<rparr>)
      }" for t m
    by (auto simp: pipe_conn_return_def pooled_return_def pipe_give_def Let_def split: ptr.splits bind_splits)
qed (simp_all add: pipe_claim_def pipe_give_def pipe_fail_def pipe_conn_reset_def)


section \<open>Receiving and sending\<close>

abbreviation pipe_ok :: "pipe_conn \<times> pipe_env \<Rightarrow> bool" where
  "pipe_ok ce \<equiv> kernel_ok (os_kernel (te_os (snd ce)))"

abbreviation pipe_got :: "pipe_conn \<times> pipe_env \<Rightarrow> bytes" where
  "pipe_got ce \<equiv> inbound (pc_fd0 (fst ce)) (os_trace (te_os (snd ce)))"

abbreviation pipe_sent :: "pipe_conn \<times> pipe_env \<Rightarrow> bytes" where
  "pipe_sent ce \<equiv> outbound (pc_fd1 (fst ce)) (os_trace (te_os (snd ce)))"

abbreviation pipe_nrecv :: "pipe_conn \<times> pipe_env \<Rightarrow> u64" where
  "pipe_nrecv ce \<equiv> pc_recv_nbyte (fst ce)"

abbreviation pipe_nsend :: "pipe_conn \<times> pipe_env \<Rightarrow> u64" where
  "pipe_nsend ce \<equiv> pc_send_nbyte (fst ce)"

abbreviation "pipe_received \<equiv> received pipe_ok pipe_got pipe_sent pipe_nrecv pipe_nsend"
abbreviation "pipe_transmitted \<equiv> transmitted pipe_ok pipe_got pipe_sent pipe_nrecv pipe_nsend"

lemma pipe_recv_body_law:
  assumes "pipe_recv_body n (c, e) = Inr a" "kernel_ok (os_kernel (te_os e))"
  shows "pipe_received n (c, e) a"
proof -
  let ?r = "os_kernel (te_os e) (os_trace (te_os e)) (Sys_read (pc_fd0 c) n)"
  have r: "result_ok (Sys_read (pc_fd0 c) n) ?r" using assms(2) by (rule kernel_result)
  show ?thesis
  proof (cases "0 < sr_ret ?r")
    case True
    then have "sr_ret ?r = int (length (sr_data ?r))" "length (sr_data ?r) \<le> n" using r by simp_all
    then show ?thesis using assms True by (auto simp: pipe_recv_body_def te_call_syscall Let_def received_def)
  next
    case False
    then show ?thesis using assms by (auto simp: pipe_recv_body_def te_call_syscall Let_def received_def split: if_splits)
  qed
qed

lemma pipe_send_body_law:
  assumes "pipe_send_body bs (c, e) = Inr a" "kernel_ok (os_kernel (te_os e))"
  shows "pipe_transmitted bs (c, e) a"
proof -
  let ?r = "os_kernel (te_os e) (os_trace (te_os e)) (Sys_write (pc_fd1 c) bs)"
  have r: "result_ok (Sys_write (pc_fd1 c) bs) ?r" using assms(2) by (rule kernel_result)
  show ?thesis
  proof (cases "0 < sr_ret ?r")
    case True
    then have "(of_int (sr_ret ?r) :: u64) = of_nat (nat (sr_ret ?r))" by simp
    then show ?thesis using assms True r by (auto simp: pipe_send_body_def te_call_syscall Let_def transmitted_def)
  next
    case False
    then show ?thesis using assms by (auto simp: pipe_send_body_def te_call_syscall Let_def transmitted_def split: if_splits)
  qed
qed

lemma pipe_recv_returns:
  assumes k: "kernel_ok (os_kernel (te_os e))" and n: "0 < n"
  obtains e' a where "pipe_recv n (c, e) = Some a" "pipe_recv_body n (c, e') = Inr a" "repeated (Sys_read (pc_fd0 c) n) e e'"
proof -
  from k obtain e' a where "pipe_recv_body n (c, e') = Inr a" "retry (pipe_recv_body n) (c, e) = Some a" "repeated (Sys_read (pc_fd0 c) n) e e'"
    by (rule retry_call [of e "Sys_read (pc_fd0 c) n" "pipe_recv_body n" c])
       (auto simp: pipe_recv_body_def te_call_syscall syscall_def Let_def interrupted_def)
  then show thesis using that n by (simp add: pipe_recv_def)
qed

lemma pipe_recv_law:
  assumes "pipe_ok ce" and "0 < n"
  shows "\<exists>a. pipe_recv n ce = Some a \<and> pipe_received n ce a"
proof -
  obtain c e where ce: "ce = (c, e)" by (cases ce)
  have k: "kernel_ok (os_kernel (te_os e))" using assms(1) ce by simp
  obtain e' a where r: "pipe_recv n (c, e) = Some a" "pipe_recv_body n (c, e') = Inr a" "repeated (Sys_read (pc_fd0 c) n) e e'"
    using pipe_recv_returns [OF k assms(2)] by blast
  have "pipe_received n (c, e') a" using pipe_recv_body_law [OF r(2)] k r(3) by (simp add: repeated_def)
  then show ?thesis using r ce by (auto simp: received_def repeated_bytes [OF r(3)])
qed

lemma pipe_send_returns:
  assumes k: "kernel_ok (os_kernel (te_os e))" and n: "bs \<noteq> []"
  obtains e' a where "pipe_send bs (c, e) = Some a" "pipe_send_body bs (c, e') = Inr a" "repeated (Sys_write (pc_fd1 c) bs) e e'"
proof -
  from k obtain e' a where "pipe_send_body bs (c, e') = Inr a" "retry (pipe_send_body bs) (c, e) = Some a"
      "repeated (Sys_write (pc_fd1 c) bs) e e'"
    by (rule retry_call [of e "Sys_write (pc_fd1 c) bs" "pipe_send_body bs" c])
       (auto simp: pipe_send_body_def te_call_syscall syscall_def Let_def interrupted_def)
  then show thesis using that n by (simp add: pipe_send_def)
qed

lemma pipe_send_law:
  assumes "pipe_ok ce" and "bs \<noteq> []"
  shows "\<exists>a. pipe_send bs ce = Some a \<and> pipe_transmitted bs ce a"
proof -
  obtain c e where ce: "ce = (c, e)" by (cases ce)
  have k: "kernel_ok (os_kernel (te_os e))" using assms(1) ce by simp
  obtain e' a where r: "pipe_send bs (c, e) = Some a" "pipe_send_body bs (c, e') = Inr a" "repeated (Sys_write (pc_fd1 c) bs) e e'"
    using pipe_send_returns [OF k assms(2)] by blast
  then have "pipe_transmitted bs (c, e') a" using pipe_send_body_law [OF r(2)] k by (simp add: repeated_def)
  then show ?thesis using r ce by (auto simp: transmitted_def repeated_bytes [OF r(3)])
qed

interpretation pipeio: channel_io pipe_recv pipe_send pipe_ok pipe_got pipe_sent pipe_nrecv pipe_nsend
  by unfold_locales (rule pipe_recv_law pipe_send_law; assumption)+


section \<open>A pipe and its kernel\<close>

text \<open>
  What a kernel that implements pipes promises about the pipe with the ends \<open>r\<close> and \<open>w\<close> created at the
  end of the trace \<open>t0\<close>, as long as only reads and writes have been made since (\<open>u\<close>): a read returns the
  bytes that follow those read so far in those written so far, and returns none only if there are
  none or the call is interrupted.
\<close>

fun is_io :: "scall \<Rightarrow> bool" where
  "is_io (Sys_read fd n) = True"
| "is_io (Sys_write fd bs) = True"
| "is_io _ = False"

definition pipe_law :: "kernel \<Rightarrow> trace \<Rightarrow> int \<Rightarrow> int \<Rightarrow> bool" where
  "pipe_law k t0 r w \<longleftrightarrow> (\<forall>u n. (\<forall>x \<in> set u. is_io (fst x)) \<longrightarrow> 0 < n \<longrightarrow> prefix (inbound r u) (outbound w u) \<longrightarrow>
     (let res = k (u @ t0) (Sys_read r n) in
      if 0 < sr_ret res then prefix (inbound r u @ sr_data res) (outbound w u)
      else interrupted res \<or> inbound r u = outbound w u))"

text \<open>A client that sends and receives, with the bytes it has received and those accepted from it.\<close>

datatype pipe_op = PSend bytes | PRecv nat

type_synonym pipe_client = "bytes \<times> bytes \<times> pipe_conn \<times> pipe_env"

fun pipe_step :: "pipe_op \<Rightarrow> pipe_client \<Rightarrow> pipe_client option" where
  "pipe_step (PSend bs) (got, sent, c, e) = do { (n, c, e) \<leftarrow> pipe_send bs (c, e); Some (got, sent @ take (nat n) bs, c, e) }"
| "pipe_step (PRecv n) (got, sent, c, e) = do { (_, d, c, e) \<leftarrow> pipe_recv n (c, e); Some (got @ d, sent, c, e) }"

fun pipe_run :: "pipe_op list \<Rightarrow> pipe_client \<Rightarrow> pipe_client option" where
  "pipe_run [] s = Some s"
| "pipe_run (op # ops) s = do { s \<leftarrow> pipe_step op s; pipe_run ops s }"

fun op_ok :: "pipe_op \<Rightarrow> bool" where
  "op_ok (PSend bs) = (bs \<noteq> [])"
| "op_ok (PRecv n) = (0 < n)"

definition piped :: "kernel \<Rightarrow> trace \<Rightarrow> int \<Rightarrow> int \<Rightarrow> pipe_client \<Rightarrow> bool" where
  "piped k t0 r w s \<longleftrightarrow> (case s of (got, sent, c, e) \<Rightarrow>
     os_kernel (te_os e) = k \<and> pc_fd0 c = r \<and> pc_fd1 c = w \<and> prefix got sent \<and>
     pc_recv_nbyte c = of_nat (length got) \<and> pc_send_nbyte c = of_nat (length sent) \<and>
     (\<exists>u. os_trace (te_os e) = u @ t0 \<and> (\<forall>x \<in> set u. is_io (fst x)) \<and> inbound r u = got \<and> outbound w u = sent))"

text \<open>The last round of each loop.\<close>

lemma pipe_lawD:
  assumes "pipe_law k t0 r w" "\<forall>x \<in> set u. is_io (fst x)" "0 < n" "prefix (inbound r u) (outbound w u)"
  shows "if 0 < sr_ret (k (u @ t0) (Sys_read r n)) then prefix (inbound r u @ sr_data (k (u @ t0) (Sys_read r n))) (outbound w u)
    else interrupted (k (u @ t0) (Sys_read r n)) \<or> inbound r u = outbound w u"
  using assms unfolding pipe_law_def Let_def by blast

lemma recv_round:
  assumes "pipe_recv_body n (c, e) = Inr (code, d, c', e')" "kernel_ok (os_kernel (te_os e))"
    "res = os_kernel (te_os e) (os_trace (te_os e)) (Sys_read (pc_fd0 c) n)"
  shows "os_kernel (te_os e') = os_kernel (te_os e) \<and> os_trace (te_os e') = (Sys_read (pc_fd0 c) n, res) # os_trace (te_os e) \<and>
    pc_fd0 c' = pc_fd0 c \<and> pc_fd1 c' = pc_fd1 c \<and> d = (if 0 < sr_ret res then sr_data res else []) \<and> \<not> interrupted res"
  using assms by (auto simp: pipe_recv_body_def te_call_syscall Let_def interrupted_def split: if_splits)

lemma send_round:
  assumes "pipe_send_body bs (c, e) = Inr (code, c', e')"
    "res = os_kernel (te_os e) (os_trace (te_os e)) (Sys_write (pc_fd1 c) bs)"
  shows "os_kernel (te_os e') = os_kernel (te_os e) \<and> os_trace (te_os e') = (Sys_write (pc_fd1 c) bs, res) # os_trace (te_os e) \<and>
    pc_fd0 c' = pc_fd0 c \<and> pc_fd1 c' = pc_fd1 c \<and> take (nat code) bs = take (nat (sr_ret res)) bs"
  using assms by (auto simp: pipe_send_body_def te_call_syscall Let_def split: if_splits)

text \<open>A receive keeps the invariant and gets a byte when there is one.\<close>

lemma recv_piped:
  assumes k: "kernel_ok k" and law: "pipe_law k t0 r w" and n: "0 < n" and p: "piped k t0 r w (got, sent, c, e)"
  shows "\<exists>d c' e'. pipe_step (PRecv n) (got, sent, c, e) = Some (got @ d, sent, c', e') \<and> piped k t0 r w (got @ d, sent, c', e') \<and>
    (got = sent \<or> d \<noteq> [])"
proof -
  obtain u where u: "os_trace (te_os e) = u @ t0" "\<forall>x \<in> set u. is_io (fst x)" "inbound r u = got" "outbound w u = sent"
    and c: "os_kernel (te_os e) = k" "pc_fd0 c = r" "pc_fd1 c = w" "prefix got sent"
      "pc_recv_nbyte c = of_nat (length got)" "pc_send_nbyte c = of_nat (length sent)"
    using p by (auto simp: piped_def)
  have ke: "kernel_ok (os_kernel (te_os e))" using k c(1) by simp
  obtain e1 a where a: "pipe_recv n (c, e) = Some a" "pipe_recv_body n (c, e1) = Inr a" "repeated (Sys_read (pc_fd0 c) n) e e1"
    using pipe_recv_returns [OF ke n] by blast
  obtain code d c' e' where a': "a = (code, d, c', e')" by (cases a)
  obtain v where v: "os_trace (te_os e1) = v @ os_trace (te_os e)" "\<forall>x \<in> set v. fst x = Sys_read (pc_fd0 c) n \<and> interrupted (snd x)"
    using a(3) by (auto simp: repeated_def)
  have k1: "os_kernel (te_os e1) = k" using a(3) c(1) by (simp add: repeated_def)
  define res where "res = k ((v @ u) @ t0) (Sys_read r n)"
  have rd: "os_kernel (te_os e') = k" "os_trace (te_os e') = (Sys_read r n, res) # v @ u @ t0" "pc_fd0 c' = r" "pc_fd1 c' = w"
      "d = (if 0 < sr_ret res then sr_data res else [])" "\<not> interrupted res"
    using recv_round [OF a(2) [unfolded a'] _ refl] k1 k v(1) u(1) c by (simp_all add: res_def)
  have q: "inbound r v = []" "outbound w v = []" using quiet_bytes [of v] v(2) by simp_all
  have io: "\<forall>x \<in> set (v @ u). is_io (fst x)" using v(2) u(2) by auto
  have "if 0 < sr_ret res then prefix (inbound r (v @ u) @ sr_data res) (outbound w (v @ u))
      else interrupted res \<or> inbound r (v @ u) = outbound w (v @ u)"
    unfolding res_def by (rule pipe_lawD [OF law io n]) (use q u(3,4) c(4) in \<open>simp add: inbound_append outbound_append\<close>)
  moreover have "result_ok (Sys_read r n) res" unfolding res_def using k by (rule kernel_result)
  ultimately have pre: "prefix (got @ d) sent" "got = sent \<or> d \<noteq> []"
    using q u(3,4) rd(5,6) c(4) by (auto simp: inbound_append outbound_append split: if_splits)
  have cnt: "pc_recv_nbyte c' = of_nat (length (got @ d))" "pc_send_nbyte c' = of_nat (length sent)"
    using pipe_recv_body_law [OF a(2)] k1 k c(5,6) by (auto simp: a' received_def)
  let ?u = "(Sys_read r n, res) # v @ u"
  have "os_trace (te_os e') = ?u @ t0" "\<forall>x \<in> set ?u. is_io (fst x)" "inbound r ?u = got @ d" "outbound w ?u = sent"
    using rd io q u(3,4) by (auto simp: inbound_append outbound_append)
  then have "piped k t0 r w (got @ d, sent, c', e')" using rd pre(1) cnt unfolding piped_def by blast
  then show ?thesis using a(1) a' pre(2) by auto
qed

lemma send_piped:
  assumes k: "kernel_ok k" and bs: "bs \<noteq> []" and p: "piped k t0 r w (got, sent, c, e)"
  shows "\<exists>s'. pipe_step (PSend bs) (got, sent, c, e) = Some s' \<and> piped k t0 r w s'"
proof -
  obtain u where u: "os_trace (te_os e) = u @ t0" "\<forall>x \<in> set u. is_io (fst x)" "inbound r u = got" "outbound w u = sent"
    and c: "os_kernel (te_os e) = k" "pc_fd0 c = r" "pc_fd1 c = w" "prefix got sent"
      "pc_recv_nbyte c = of_nat (length got)" "pc_send_nbyte c = of_nat (length sent)"
    using p by (auto simp: piped_def)
  have ke: "kernel_ok (os_kernel (te_os e))" using k c(1) by simp
  obtain e1 a where a: "pipe_send bs (c, e) = Some a" "pipe_send_body bs (c, e1) = Inr a" "repeated (Sys_write (pc_fd1 c) bs) e e1"
    using pipe_send_returns [OF ke bs] by blast
  obtain code c' e' where a': "a = (code, c', e')" by (cases a)
  obtain v where v: "os_trace (te_os e1) = v @ os_trace (te_os e)" "\<forall>x \<in> set v. fst x = Sys_write (pc_fd1 c) bs \<and> interrupted (snd x)"
    using a(3) by (auto simp: repeated_def)
  have k1: "os_kernel (te_os e1) = k" using a(3) c(1) by (simp add: repeated_def)
  define res where "res = k (v @ u @ t0) (Sys_write w bs)"
  have rd: "os_kernel (te_os e') = k" "os_trace (te_os e') = (Sys_write w bs, res) # v @ u @ t0" "pc_fd0 c' = r" "pc_fd1 c' = w"
      "take (nat code) bs = take (nat (sr_ret res)) bs"
    using send_round [OF a(2) [unfolded a'] refl] k1 v(1) u(1) c by (simp_all add: res_def)
  have q: "inbound r v = []" "outbound w v = []" using quiet_bytes [of v] v(2) by simp_all
  have io: "\<forall>x \<in> set (v @ u). is_io (fst x)" using v(2) u(2) by auto
  have cnt: "pc_send_nbyte c' = of_nat (length (sent @ take (nat code) bs))" "pc_recv_nbyte c' = of_nat (length got)"
    using pipe_send_body_law [OF a(2)] k1 k c(5,6) by (auto simp: a' transmitted_def min_absorb2)
  let ?u = "(Sys_write w bs, res) # v @ u"
  have "os_trace (te_os e') = ?u @ t0" "\<forall>x \<in> set ?u. is_io (fst x)" "inbound r ?u = got" "outbound w ?u = sent @ take (nat code) bs"
    using rd io q u(3,4) by (auto simp: inbound_append outbound_append)
  then have "piped k t0 r w (got, sent @ take (nat code) bs, c', e')"
    using rd c(4) cnt unfolding piped_def by (auto intro: prefix_prefix)
  then show ?thesis using a(1) a' by auto
qed

lemma run_piped:
  assumes k: "kernel_ok k" and law: "pipe_law k t0 r w"
  shows "piped k t0 r w s \<Longrightarrow> \<forall>op \<in> set ops. op_ok op \<Longrightarrow> \<exists>s'. pipe_run ops s = Some s' \<and> piped k t0 r w s'"
proof (induction ops arbitrary: s)
  case (Cons op ops)
  obtain got sent c e where s: "s = (got, sent, c, e)" by (cases s)
  have "\<exists>s'. pipe_step op s = Some s' \<and> piped k t0 r w s'"
  proof (cases op)
    case (PSend bs)
    then show ?thesis using send_piped [OF k, of bs] Cons.prems s by simp
  next
    case (PRecv n)
    then show ?thesis using recv_piped [OF k law, of n] Cons.prems s by fastforce
  qed
  then show ?case using Cons.IH Cons.prems(2) by auto
qed simp

lemma drain_piped:
  assumes k: "kernel_ok k" and law: "pipe_law k t0 r w" and n: "0 < n"
  shows "piped k t0 r w (got, sent, c, e) \<Longrightarrow> length sent - length got \<le> m \<Longrightarrow>
    \<exists>c' e'. pipe_run (replicate m (PRecv n)) (got, sent, c, e) = Some (sent, sent, c', e')"
proof (induction m arbitrary: got c e)
  case 0
  then have "prefix got sent" "length sent \<le> length got" by (auto simp: piped_def)
  then have "got = sent" by (auto simp: prefix_def)
  then show ?case by simp
next
  case (Suc m)
  obtain d c' e' where d: "pipe_step (PRecv n) (got, sent, c, e) = Some (got @ d, sent, c', e')"
      "piped k t0 r w (got @ d, sent, c', e')" "got = sent \<or> d \<noteq> []"
    using recv_piped [OF k law n Suc.prems(1)] by blast
  have "length sent - length (got @ d) \<le> m" using d(3) Suc.prems(2) by (cases d) auto
  then obtain c2 e2 where "pipe_run (replicate m (PRecv n)) (got @ d, sent, c', e') = Some (sent, sent, c2, e2)"
    using Suc.IH [OF d(2)] by blast
  then show ?case using d(1) by simp
qed

lemma pipe_run_append: "pipe_run (xs @ ys) s = do { s \<leftarrow> pipe_run xs s; pipe_run ys s }"
  by (induction xs arbitrary: s) (simp_all split: bind_splits)

lemma pipe_open_piped:
  assumes "pipe_open Null (pipe_conn_reset c) e = Some (True, c1, e1)"
  shows "piped (os_kernel (te_os e)) (os_trace (te_os e1)) (pc_fd0 c1) (pc_fd1 c1) ([], [], c1, e1)"
proof -
  have "os_kernel (te_os e1) = os_kernel (te_os e)" "pc_recv_nbyte c1 = 0" "pc_send_nbyte c1 = 0"
    using assms by (auto simp: pipe_open_def te_call_syscall Let_def pipe_conn_reset_def split: if_splits list.splits)
  then show ?thesis by (simp add: piped_def inbound_def outbound_def)
qed

text \<open>
  A reset connection has the descriptors 0: closing one that was never opened, or whose opening
  failed, closes the standard input of the process.
\<close>

lemma pipe_close_unopened:
  "0 \<notin> open_fds (os_trace (te_os (pipe_close (Ptr (pipe_conn_reset c)) e)))"
  by (simp add: pipe_close_def pipe_conn_reset_def te_call_syscall Let_def)


section \<open>Properties\<close>


text \<open>A kernel with one pipe, which hands out two bytes at a time and interrupts the first read.\<close>

definition pipe_kernel :: kernel where
  "pipe_kernel t c = (let avail = drop (length (inbound 3 t)) (outbound 4 t);
       ok = (\<lambda>n d v. \<lparr>sr_ret = n, sr_errno = 0, sr_data = d, sr_vals = v\<rparr>);
       fails = (\<lambda>x. \<lparr>sr_ret = - 1, sr_errno = x, sr_data = [], sr_vals = []\<rparr>) in
     (case c of
        Sys_pipe \<Rightarrow> ok 0 [] [3, 4]
      | Sys_write fd bs \<Rightarrow> ok (int (length bs)) [] []
      | Sys_read fd n \<Rightarrow>
          (if \<forall>x \<in> set t. \<not> interrupted (snd x) then fails EINTR
           else if 0 < n \<and> avail \<noteq> [] then ok (int (length (take (min n 2) avail))) (take (min n 2) avail) []
           else fails EAGAIN)
      | _ \<Rightarrow> fails 0))"

lemma pipe_kernel_ok: "kernel_ok pipe_kernel"
  unfolding kernel_ok_def
proof (intro conjI allI)
  show "result_ok c (pipe_kernel t c)" for t c
    by (cases c) (auto simp: pipe_kernel_def Let_def)
  show "\<exists>m. \<not> interrupted (pipe_kernel (tried pipe_kernel c t m) c)" for t c
  proof (cases "interrupted (pipe_kernel t c)")
    case True
    then have "\<not> interrupted (pipe_kernel (tried pipe_kernel c t 1) c)"
      by (cases c) (auto simp: pipe_kernel_def Let_def interrupted_def EINTR_def EAGAIN_def)
    then show ?thesis by blast
  qed (auto intro: exI [of _ 0])
qed

lemma pipe_kernel_law: "pipe_law pipe_kernel [(Sys_pipe, r)] 3 4"
proof -
  have "if 0 < sr_ret res then prefix (inbound 3 u @ sr_data res) (outbound 4 u) else interrupted res \<or> inbound 3 u = outbound 4 u"
    if n: "0 < n" and p: "prefix (inbound 3 u) (outbound 4 u)" and res: "res = pipe_kernel (u @ [(Sys_pipe, r)]) (Sys_read 3 n)"
    for u n res
  proof -
    obtain d where d: "outbound 4 u = inbound 3 u @ d" using p by (auto simp: prefix_def)
    have z: "inbound 3 (u @ [(Sys_pipe, r)]) = inbound 3 u" "outbound 4 (u @ [(Sys_pipe, r)]) = outbound 4 u"
      by (simp_all add: inbound_def outbound_def)
    show ?thesis
      using n by (auto simp: res pipe_kernel_def Let_def z d interrupted_def take_is_prefix)
  qed
  then show ?thesis by (auto simp: pipe_law_def Let_def)
qed

definition pipe_sample :: pipe_env where
  "pipe_sample = \<lparr>te_metrics = Null, te_os = \<lparr>os_kernel = pipe_kernel, os_trace = [], os_errno = 0, os_signals = []\<rparr>\<rparr>"

definition pipe_opened :: "bool \<times> pipe_conn \<times> pipe_env" where
  "pipe_opened = the (pipe_open Null (pipe_conn_reset pipe_conn_raw) pipe_sample)"


end
