(* ===== verification/Cc_Array.thy ===== *)
theory Cc_Array
  imports Cc_Mm "HOL-Library.Multiset"
begin

text \<open>
  The growing arrays of \<^verbatim>\<open>include/cc_array.h\<close> and \<^verbatim>\<open>src/cc_array.c\<close>. An element is a run of \<open>size\<close>
  bytes of the block \<open>data\<close>; a pointer to an element is its offset in that block. The array
  implements a list of elements.
\<close>

section \<open>Arrays\<close>

record array =
  ay_size :: u64
  ay_nalloc :: u32
  ay_nelem :: u32
  ay_data :: "bytes ptr"

definition NELEM_DELTA :: u32 where
  "NELEM_DELTA = 16"

definition ARRAY_SIZE :: u64 where
  "ARRAY_SIZE = 24"

record array_module =
  am_init :: bool
  am_max_nelem_delta :: u32

definition array_size :: "array \<Rightarrow> u64" where
  "array_size arr = ay_size arr"

definition array_nalloc :: "array \<Rightarrow> u32" where
  "array_nalloc arr = ay_nalloc arr"

definition array_nelem :: "array \<Rightarrow> u32" where
  "array_nelem arr = ay_nelem arr"

definition array_nfree :: "array \<Rightarrow> u64" where
  "array_nfree arr = ucast (ay_nalloc arr - ay_nelem arr)"

definition array_reset :: "array \<Rightarrow> array" where
  "array_reset arr = arr\<lparr>ay_size := 0, ay_nalloc := 0, ay_nelem := 0, ay_data := Null\<rparr>"

definition array_data_assign :: "array \<Rightarrow> u32 \<Rightarrow> u64 \<Rightarrow> bytes ptr \<Rightarrow> array" where
  "array_data_assign arr nalloc sz data = arr\<lparr>ay_size := sz, ay_nalloc := nalloc, ay_nelem := 0, ay_data := data\<rparr>"

text \<open>
  The element is given by its distance from the data, which C converts to an unsigned number for the
  division and whose quotient it stores in an \<^verbatim>\<open>int\<close>.
\<close>

definition array_locate :: "array \<Rightarrow> int \<Rightarrow> int option" where
  "array_locate arr dist = do {
     ASSERT (ay_size arr \<noteq> 0);
     let idx = sint (ucast ((word_of_int dist :: u64) div ay_size arr) :: u32);
     Some (if idx < 0 \<or> word_of_int idx * ay_size arr \<noteq> (word_of_int dist :: u64) then - 1 else idx)
   }"

definition array_get :: "array \<Rightarrow> u32 \<Rightarrow> nat option" where
  "array_get arr idx = do {
     ASSERT (ay_nelem arr \<noteq> 0 \<and> idx < ay_nelem arr);
     Some (unat (ay_size arr * ucast idx))
   }"

definition array_first :: "array \<Rightarrow> nat option" where
  "array_first arr = array_get arr 0"

definition array_last :: "array \<Rightarrow> nat option" where
  "array_last arr = array_get arr (ay_nelem arr - 1)"

definition array_data_create :: "malloc_fn \<Rightarrow> array \<Rightarrow> u32 \<Rightarrow> u64 \<Rightarrow> (rstatus \<times> array) option" where
  "array_data_create malloc arr nalloc sz = do {
     ASSERT (nalloc \<noteq> 0 \<and> sz \<noteq> 0);
     let arr = arr\<lparr>ay_data := cc_alloc malloc (ucast nalloc * sz)\<rparr>;
     Some (if ay_data arr = Null then (CC_ENOMEM, arr)
           else (CC_OK, arr\<lparr>ay_nelem := 0, ay_size := sz, ay_nalloc := nalloc\<rparr>))
   }"

definition array_raw :: array where
  "array_raw = \<lparr>ay_size = 0, ay_nalloc = 0, ay_nelem = 0, ay_data = Null\<rparr>"

definition array_create :: "malloc_fn \<Rightarrow> u32 \<Rightarrow> u64 \<Rightarrow> (rstatus \<times> array ptr) option" where
  "array_create malloc nalloc sz = do {
     ASSERT (nalloc \<noteq> 0 \<and> sz \<noteq> 0);
     (case cc_alloc malloc ARRAY_SIZE of
        Null \<Rightarrow> Some (CC_ENOMEM, Null)
      | Ptr _ \<Rightarrow> do {
          (ret, arr) \<leftarrow> array_data_create malloc array_raw nalloc sz;
          Some (if ret \<noteq> CC_OK then (ret, Null) else (CC_OK, Ptr arr))
        })
   }"

definition array_data_destroy :: "array \<Rightarrow> array" where
  "array_data_destroy arr = (if ay_data arr \<noteq> Null then arr\<lparr>ay_data := Null\<rparr> else arr)"

definition array_destroy :: "array ptr \<Rightarrow> array ptr" where
  "array_destroy arr = (case arr of Null \<Rightarrow> arr | Ptr a \<Rightarrow> Null)"

text \<open>
  The expansion. The reallocation of \<^verbatim>\<open>NULL\<close> is that of an empty block. A size of 0 makes \<^verbatim>\<open>cc_realloc\<close>
  free the block, which \<open>data\<close> would still point to: the model has no such state and is undefined.
\<close>

definition array_expand :: "realloc_fn \<Rightarrow> u32 \<Rightarrow> array \<Rightarrow> (rstatus \<times> array) option" where
  "array_expand realloc max_nelem_delta arr = do {
     let nelem = (if max_nelem_delta \<le> ay_nalloc arr then ay_nalloc arr + max_nelem_delta else ay_nalloc arr * 2);
     let nbyte = ucast nelem * ay_size arr;
     (case cc_realloc realloc (case ay_data arr of Null \<Rightarrow> [] | Ptr d \<Rightarrow> d) nbyte of
        (Null, alive) \<Rightarrow> do { ASSERT (alive \<or> ay_data arr = Null); Some (CC_ERROR, arr) }
      | (Ptr data, _) \<Rightarrow> Some (CC_OK, arr\<lparr>ay_data := Ptr data, ay_nalloc := nelem\<rparr>))
   }"

definition array_push :: "realloc_fn \<Rightarrow> u32 \<Rightarrow> array \<Rightarrow> (nat ptr \<times> array) option" where
  "array_push realloc max_nelem_delta arr = do {
     (status, arr) \<leftarrow> (if ay_nelem arr = ay_nalloc arr then array_expand realloc max_nelem_delta arr else Some (CC_OK, arr));
     if status \<noteq> CC_OK then Some (Null, arr)
     else do {
       let arr = arr\<lparr>ay_nelem := ay_nelem arr + 1\<rparr>;
       p \<leftarrow> array_last arr;
       Some (Ptr p, arr)
     }
   }"

definition array_pop :: "array \<Rightarrow> (nat \<times> array) option" where
  "array_pop arr = do {
     elem \<leftarrow> array_get arr (ay_nelem arr - 1);
     Some (elem, arr\<lparr>ay_nelem := ay_nelem arr - 1\<rparr>)
   }"

text \<open>The elements: the \<open>i\<close>-th run of \<open>sz\<close> bytes of a block.\<close>

definition chunk :: "nat \<Rightarrow> bytes \<Rightarrow> nat \<Rightarrow> bytes" where
  "chunk sz d i = take sz (drop (i * sz) d)"

definition array_elems :: "array \<Rightarrow> bytes list" where
  "array_elems arr = map (chunk (unat (ay_size arr)) (deref (ay_data arr))) [0 ..< unat (ay_nelem arr)]"

text \<open>
  \<open>qsort\<close> of the C library is a parameter; it sorts the elements by a comparison function and is
  not stable.
\<close>

definition array_sort :: "((bytes \<Rightarrow> bytes \<Rightarrow> int) \<Rightarrow> bytes list \<Rightarrow> bytes list) \<Rightarrow> (bytes \<Rightarrow> bytes \<Rightarrow> int) \<Rightarrow> array \<Rightarrow> array option" where
  "array_sort qsort compare arr = do {
     ASSERT (ay_nelem arr \<noteq> 0);
     ASSERT (ay_data arr \<noteq> Null);
     Some (arr\<lparr>ay_data := Ptr (concat (qsort compare (array_elems arr)) @
       drop (unat (ay_nelem arr) * unat (ay_size arr)) (deref (ay_data arr)))\<rparr>)
   }"

text \<open>
  The function applied to each element sees the element and an argument and may change both; \<open>k\<close> is
  the number of elements left.
\<close>

fun each_loop ::
  "(bytes \<Rightarrow> 's \<Rightarrow> rstatus \<times> bytes \<times> 's) \<Rightarrow> nat \<Rightarrow> u32 \<Rightarrow> array \<Rightarrow> 's \<Rightarrow> rstatus \<Rightarrow> (u32 \<times> array \<times> 's \<times> rstatus) option" where
  "each_loop func 0 i arr arg err = Some (i, arr, arg, err)"
| "each_loop func (Suc k) i arr arg err = do {
     p \<leftarrow> array_get arr i;
     ASSERT (ay_data arr \<noteq> Null);
     elem \<leftarrow> mem_read (deref (ay_data arr)) p (unat (ay_size arr));
     let (status, elem', arg) = func elem arg;
     data \<leftarrow> mem_write (deref (ay_data arr)) p elem';
     let arr = arr\<lparr>ay_data := Ptr data\<rparr>;
     if status \<noteq> CC_OK then Some (i, arr, arg, status) else each_loop func k (i + 1) arr arg err
   }"

definition array_each ::
  "(bytes \<Rightarrow> 's \<Rightarrow> rstatus \<times> bytes \<times> 's) \<Rightarrow> array \<Rightarrow> 's \<Rightarrow> rstatus \<Rightarrow> (u32 \<times> array \<times> 's \<times> rstatus) option" where
  "array_each func arr arg err = do {
     ASSERT (ay_nelem arr \<noteq> 0);
     each_loop func (unat (ay_nelem arr)) 0 arr arg err
   }"

definition array_setup :: "u64 ptr \<Rightarrow> array_module \<Rightarrow> array_module" where
  "array_setup options m =
     (let m = (case options of Null \<Rightarrow> m | Ptr n \<Rightarrow> m\<lparr>am_max_nelem_delta := ucast n\<rparr>) in m\<lparr>am_init := True\<rparr>)"

definition array_teardown :: "array_module \<Rightarrow> array_module" where
  "array_teardown m = m\<lparr>am_init := False\<rparr>"


section \<open>Elements\<close>

lemma chunk_cong: "take m d' = take m d \<Longrightarrow> (i + 1) * sz \<le> m \<Longrightarrow> chunk sz d' i = chunk sz d i"
proof -
  assume t: "take m d' = take m d" and m: "(i + 1) * sz \<le> m"
  have eq: "chunk sz x i = drop (i * sz) (take (sz + i * sz) (take m x))" for x
    using m by (simp add: chunk_def take_drop min_absorb1)
  show ?thesis unfolding eq t ..
qed

lemma chunks_cong:
  "take (n * sz) d' = take (n * sz) d \<Longrightarrow> map (chunk sz d') [0 ..< n] = map (chunk sz d) [0 ..< n]"
proof (rule map_cong [OF refl])
  fix i assume t: "take (n * sz) d' = take (n * sz) d" and "i \<in> set [0 ..< n]"
  then have "(i + 1) * sz \<le> n * sz" by (intro mult_right_mono) auto
  then show "chunk sz d' i = chunk sz d i" using t by (rule chunk_cong [rotated])
qed

lemma chunk_write: "length x = sz \<Longrightarrow> i * sz + sz \<le> length d \<Longrightarrow> chunk sz (take (i * sz) d @ x @ drop (i * sz + sz) d) i = x"
  by (simp add: chunk_def min_absorb2)

lemma chunk_length: "(i + 1) * sz \<le> length d \<Longrightarrow> length (chunk sz d i) = sz"
  by (simp add: chunk_def)

definition array_wf :: "array \<Rightarrow> bool" where
  "array_wf a \<longleftrightarrow> ay_data a \<noteq> Null \<and> 0 < unat (ay_size a) \<and> unat (ay_nelem a) \<le> unat (ay_nalloc a) \<and> 0 < unat (ay_nalloc a) \<and>
     unat (ay_nalloc a) * unat (ay_size a) < 18446744073709551616 \<and>
     length (deref (ay_data a)) = unat (ay_nalloc a) * unat (ay_size a)"

lemma u32_u64_mult: "unat i * unat n < 18446744073709551616 \<Longrightarrow> unat (ucast i * n) = unat i * unat n" for i :: u32 and n :: u64
proof -
  assume b: "unat i * unat n < 18446744073709551616"
  then have "unat (ucast i :: u64) * unat n < 2 ^ LENGTH(64)" by simp
  then show ?thesis using unat_mult_lem [of "ucast i :: u64" n] by simp
qed

lemma array_get_offset:
  assumes wf: "array_wf a" and i: "i < ay_nelem a"
  shows "array_get a i = Some (unat i * unat (ay_size a))" "(unat i + 1) * unat (ay_size a) \<le> length (deref (ay_data a))"
proof -
  have lt: "unat i < unat (ay_nelem a)" using i by (simp add: word_less_nat_alt)
  then have le: "(unat i + 1) * unat (ay_size a) \<le> unat (ay_nalloc a) * unat (ay_size a)"
    using wf by (intro mult_right_mono) (auto simp: array_wf_def)
  then show "(unat i + 1) * unat (ay_size a) \<le> length (deref (ay_data a))" using wf by (simp add: array_wf_def)
  have "unat i * unat (ay_size a) < 18446744073709551616" using le wf by (simp add: array_wf_def)
  then have "unat (ay_size a * ucast i) = unat i * unat (ay_size a)" using u32_u64_mult [of i "ay_size a"] by (simp add: mult.commute)
  moreover have "ay_nelem a \<noteq> 0" using lt by auto
  ultimately show "array_get a i = Some (unat i * unat (ay_size a))" using i by (simp add: array_get_def)
qed

lemma array_elem_read:
  assumes wf: "array_wf a" and i: "i < ay_nelem a"
  shows "mem_read (deref (ay_data a)) (unat i * unat (ay_size a)) (unat (ay_size a)) = Some (array_elems a ! unat i)"
proof -
  have "unat i < unat (ay_nelem a)" using i by (simp add: word_less_nat_alt)
  then show ?thesis using array_get_offset(2) [OF assms] by (simp add: mem_read_Some array_elems_def chunk_def add.commute)
qed

lemma array_elems_length [simp]: "length (array_elems a) = unat (ay_nelem a)"
  by (simp add: array_elems_def)


section \<open>Expansion, pushing and popping\<close>

lemma expand_nelem:
  fixes n d :: u32
  assumes "unat n + unat d < 4294967296"
  shows "unat (if d \<le> n then n + d else n * 2) = (if d \<le> n then unat n + unat d else 2 * unat n)"
proof -
  have "unat (n * 2) = 2 * unat n" if "\<not> d \<le> n"
    using that assms unat_mult_lem [of n "2 :: u32"] by (simp add: word_le_nat_alt)
  then show ?thesis using assms by (simp add: unat_plus_if')
qed

lemma array_expand_ok:
  assumes spec: "realloc_spec realloc" and wf: "array_wf a" and d: "0 < unat delta"
    and K: "unat (ay_nalloc a) + unat delta \<le> K" "K < 4294967296" "K * unat (ay_size a) < 18446744073709551616"
  shows "array_expand realloc delta a = Some (CC_ERROR, a) \<or>
    (\<exists>a'. array_expand realloc delta a = Some (CC_OK, a') \<and> array_wf a' \<and> array_elems a' = array_elems a \<and>
      ay_nelem a' = ay_nelem a \<and> ay_size a' = ay_size a \<and> unat (ay_nalloc a') \<le> K \<and> unat (ay_nalloc a) < unat (ay_nalloc a'))"
proof -
  define n where "n = (if delta \<le> ay_nalloc a then ay_nalloc a + delta else ay_nalloc a * 2)"
  have n: "unat n = (if delta \<le> ay_nalloc a then unat (ay_nalloc a) + unat delta else 2 * unat (ay_nalloc a))"
    unfolding n_def using K(1,2) by (intro expand_nelem) simp
  have a: "0 < unat (ay_nalloc a)" "ay_data a \<noteq> Null" "0 < unat (ay_size a)" "unat (ay_nelem a) \<le> unat (ay_nalloc a)"
      "length (deref (ay_data a)) = unat (ay_nalloc a) * unat (ay_size a)"
    using wf by (simp_all add: array_wf_def)
  have code: "array_expand realloc delta a = (case cc_realloc realloc (deref (ay_data a)) (ucast n * ay_size a) of
      (Null, alive) \<Rightarrow> do { ASSERT alive; Some (CC_ERROR, a) }
    | (Ptr data, _) \<Rightarrow> Some (CC_OK, a\<lparr>ay_data := Ptr data, ay_nalloc := n\<rparr>))"
    using a(2) unfolding array_expand_def Let_def n_def [symmetric] by (auto split: ptr.splits prod.splits)
  have up: "unat (ay_nalloc a) < unat n" "unat n \<le> K"
    unfolding n using d K(1) a(1) by (auto simp: word_le_nat_alt)
  have "unat n * unat (ay_size a) \<le> K * unat (ay_size a)" using up(2) by (rule mult_right_mono) simp
  then have small: "unat n * unat (ay_size a) < 18446744073709551616" using K(3) by (rule le_less_trans)
  have nb: "unat (ucast n * ay_size a) = unat n * unat (ay_size a)" using small by (rule u32_u64_mult)
  have pos: "ucast n * ay_size a \<noteq> 0"
  proof
    assume "ucast n * ay_size a = 0"
    then have "unat n * unat (ay_size a) = 0" using nb by simp
    then show False using up(1) a(3) by simp
  qed
  show ?thesis
  proof (cases "realloc (deref (ay_data a)) (ucast n * ay_size a)")
    case Null
    then show ?thesis using pos by (simp add: code cc_realloc_def)
  next
    case (Ptr b)
    let ?a = "a\<lparr>ay_data := Ptr b, ay_nalloc := n\<rparr>"
    have sp: "length b = unat (ucast n * ay_size a) \<and> take (min (length (deref (ay_data a))) (unat (ucast n * ay_size a))) b =
        take (min (length (deref (ay_data a))) (unat (ucast n * ay_size a))) (deref (ay_data a))"
      using spec Ptr unfolding realloc_spec_def by blast
    then have len: "length b = unat n * unat (ay_size a)" unfolding nb by blast
    have ord: "unat (ay_nalloc a) * unat (ay_size a) \<le> unat n * unat (ay_size a)" using up(1) by (intro mult_right_mono) simp_all
    let ?m = "unat (ay_nelem a) * unat (ay_size a)" and ?L = "unat (ay_nalloc a) * unat (ay_size a)"
    have t0: "take ?L b = take ?L (deref (ay_data a))" using sp unfolding nb a(5) min_absorb1 [OF ord] by blast
    have m: "?m \<le> ?L" using a(4) by (rule mult_right_mono) simp
    have "take ?m b = take ?m (take ?L b)" unfolding take_take min_absorb1 [OF m] ..
    also have "\<dots> = take ?m (deref (ay_data a))" unfolding t0 take_take min_absorb1 [OF m] ..
    finally have "take ?m b = take ?m (deref (ay_data a))" .
    then have "map (chunk (unat (ay_size a)) b) [0 ..< unat (ay_nelem a)] = array_elems a"
      unfolding array_elems_def by (rule chunks_cong)
    then have "array_elems ?a = array_elems a" unfolding array_elems_def [of ?a] by simp
    moreover have "array_wf ?a" using a up(1) small len by (simp add: array_wf_def)
    moreover have "array_expand realloc delta a = Some (CC_OK, ?a)"
      using Ptr pos by (simp add: code cc_realloc_def)
    ultimately show ?thesis using up by (intro disjI2 exI [of _ ?a]) simp
  qed
qed

lemma unat_succ_u32:
  fixes x y :: u32
  assumes "unat x < unat y"
  shows "unat (x + 1) = unat x + 1"
proof -
  have "unat x + unat (1 :: u32) < 4294967296" using assms unat_u32_lt [of y] unfolding unsigned_1 by linarith
  then show ?thesis unfolding unat_plus_if' by simp
qed

lemma array_push_room:
  assumes wf: "array_wf a" and lt: "unat (ay_nelem a) < unat (ay_nalloc a)"
  shows "ay_nelem a \<noteq> ay_nalloc a" "array_wf (a\<lparr>ay_nelem := ay_nelem a + 1\<rparr>)"
    "array_last (a\<lparr>ay_nelem := ay_nelem a + 1\<rparr>) = Some (unat (ay_nelem a) * unat (ay_size a))"
proof -
  show "ay_nelem a \<noteq> ay_nalloc a" using lt by auto
  have n1: "unat (ay_nelem a + 1) = unat (ay_nelem a) + 1"
    using lt by (rule unat_succ_u32)
  then show wf': "array_wf (a\<lparr>ay_nelem := ay_nelem a + 1\<rparr>)" using wf lt by (simp add: array_wf_def)
  have "ay_nelem a < ay_nelem a + 1" using n1 by (simp add: word_less_nat_alt)
  then show "array_last (a\<lparr>ay_nelem := ay_nelem a + 1\<rparr>) = Some (unat (ay_nelem a) * unat (ay_size a))"
    using array_get_offset(1) [OF wf', of "ay_nelem a"] by (simp add: array_last_def)
qed

text \<open>A successful push has made room for one element after the others, which are kept.\<close>

definition pushed :: "array \<Rightarrow> nat \<Rightarrow> nat \<Rightarrow> array \<Rightarrow> bool" where
  "pushed a K p a' \<longleftrightarrow> array_wf a' \<and> p = unat (ay_nelem a) * unat (ay_size a) \<and> ay_nelem a' = ay_nelem a + 1 \<and>
     unat (ay_nelem a') = unat (ay_nelem a) + 1 \<and> ay_size a' = ay_size a \<and> unat (ay_nalloc a') \<le> K \<and>
     map (chunk (unat (ay_size a)) (deref (ay_data a'))) [0 ..< unat (ay_nelem a)] = array_elems a"

lemma array_push_ok:
  assumes spec: "realloc_spec realloc" and wf: "array_wf a" and d: "0 < unat delta"
    and K: "unat (ay_nalloc a) \<le> K" "unat (ay_nelem a) + unat delta \<le> K" "K < 4294967296" "K * unat (ay_size a) < 18446744073709551616"
  shows "array_push realloc delta a = Some (Null, a) \<or> (\<exists>p a'. array_push realloc delta a = Some (Ptr p, a') \<and> pushed a K p a')"
proof -
  have fits: "pushed a K (unat (ay_nelem a) * unat (ay_size a)) (b\<lparr>ay_nelem := ay_nelem b + 1\<rparr>) \<and>
      array_last (b\<lparr>ay_nelem := ay_nelem b + 1\<rparr>) = Some (unat (ay_nelem a) * unat (ay_size a))"
    if b: "array_wf b" "unat (ay_nelem b) < unat (ay_nalloc b)" "ay_nelem b = ay_nelem a" "ay_size b = ay_size a"
      "unat (ay_nalloc b) \<le> K" "array_elems b = array_elems a" for b
  proof -
    have "unat (ay_nelem b + 1) = unat (ay_nelem b) + 1"
      using b(2) by (rule unat_succ_u32)
    then show ?thesis
      using array_push_room [OF b(1,2)] b(3-6) unfolding pushed_def array_elems_def by simp
  qed
  show ?thesis
  proof (cases "ay_nelem a = ay_nalloc a")
    case True
    then have "unat (ay_nalloc a) + unat delta \<le> K" using K(2) by simp
    from array_expand_ok [OF spec wf d this K(3,4)] show ?thesis
    proof
      assume "array_expand realloc delta a = Some (CC_ERROR, a)"
      then show ?thesis using True by (simp add: array_push_def)
    next
      assume "\<exists>a'. array_expand realloc delta a = Some (CC_OK, a') \<and> array_wf a' \<and> array_elems a' = array_elems a \<and>
        ay_nelem a' = ay_nelem a \<and> ay_size a' = ay_size a \<and> unat (ay_nalloc a') \<le> K \<and> unat (ay_nalloc a) < unat (ay_nalloc a')"
      then obtain b where b: "array_expand realloc delta a = Some (CC_OK, b)" "array_wf b" "array_elems b = array_elems a"
          "ay_nelem b = ay_nelem a" "ay_size b = ay_size a" "unat (ay_nalloc b) \<le> K" "unat (ay_nelem b) < unat (ay_nalloc b)"
        using True by auto
      then show ?thesis using fits [OF b(2,7,4,5,6,3)] True by (simp add: array_push_def)
    qed
  next
    case False
    then have "unat (ay_nelem a) < unat (ay_nalloc a)"
      using wf by (auto simp: array_wf_def le_less word_unat_eq_iff)
    then show ?thesis using fits [OF wf _ refl refl K(1) refl] False by (simp add: array_push_def)
  qed
qed


section \<open>A client\<close>

text \<open>
  The client fills in the element a push makes room for, and asks for the number of elements before it
  pops or reads one.
\<close>

datatype array_op = APush bytes | APop | AGet u32
datatype array_out = Pushed bool | Elem bytes | Nothing

fun array_step :: "realloc_fn \<Rightarrow> u32 \<Rightarrow> array_op \<Rightarrow> array \<Rightarrow> (array_out \<times> array) option" where
  "array_step realloc delta (APush x) a = do {
     (p, a) \<leftarrow> array_push realloc delta a;
     (case p of
        Null \<Rightarrow> Some (Pushed False, a)
      | Ptr q \<Rightarrow> do { d \<leftarrow> mem_write (deref (ay_data a)) q x; Some (Pushed True, a\<lparr>ay_data := Ptr d\<rparr>) })
   }"
| "array_step realloc delta APop a =
     (if array_nelem a = 0 then Some (Nothing, a)
      else do { (q, a) \<leftarrow> array_pop a; x \<leftarrow> mem_read (deref (ay_data a)) q (unat (array_size a)); Some (Elem x, a) })"
| "array_step realloc delta (AGet i) a =
     (if array_nelem a \<le> i then Some (Nothing, a)
      else do { q \<leftarrow> array_get a i; x \<leftarrow> mem_read (deref (ay_data a)) q (unat (array_size a)); Some (Elem x, a) })"

fun array_run :: "realloc_fn \<Rightarrow> u32 \<Rightarrow> array_op list \<Rightarrow> array \<Rightarrow> (array_out list \<times> array) option" where
  "array_run realloc delta [] a = Some ([], a)"
| "array_run realloc delta (op # ops) a = do {
     (out, a) \<leftarrow> array_step realloc delta op a;
     (outs, a) \<leftarrow> array_run realloc delta ops a;
     Some (out # outs, a)
   }"

text \<open>The list: what it answers to an operation, given whether there is memory for a push.\<close>

fun list_step :: "array_op \<Rightarrow> array_out \<Rightarrow> bytes list \<Rightarrow> bytes list option" where
  "list_step (APush x) out xs = (if out = Pushed True then Some (xs @ [x]) else if out = Pushed False then Some xs else None)"
| "list_step APop out xs =
     (if xs = [] then (if out = Nothing then Some xs else None) else if out = Elem (last xs) then Some (butlast xs) else None)"
| "list_step (AGet i) out xs =
     (if length xs \<le> unat i then (if out = Nothing then Some xs else None) else if out = Elem (xs ! unat i) then Some xs else None)"

fun list_run :: "array_op list \<Rightarrow> array_out list \<Rightarrow> bytes list \<Rightarrow> bytes list option" where
  "list_run [] [] xs = Some xs"
| "list_run (op # ops) (out # outs) xs = do { xs \<leftarrow> list_step op out xs; list_run ops outs xs }"
| "list_run _ _ _ = None"

fun elem_fits :: "u64 \<Rightarrow> array_op \<Rightarrow> bool" where
  "elem_fits sz (APush x) = (length x = unat sz)"
| "elem_fits sz _ = True"

definition array_fits :: "u32 \<Rightarrow> nat \<Rightarrow> nat \<Rightarrow> array \<Rightarrow> bool" where
  "array_fits delta n K a \<longleftrightarrow> array_wf a \<and> unat (ay_nalloc a) \<le> K \<and> unat (ay_nelem a) + n + unat delta \<le> K \<and> K < 4294967296 \<and>
     K * unat (ay_size a) < 18446744073709551616"

lemma push_step:
  assumes spec: "realloc_spec realloc" and d: "0 < unat delta" and a: "array_fits delta (Suc n) K a" and x: "length x = unat (ay_size a)"
  shows "\<exists>out a'. array_step realloc delta (APush x) a = Some (out, a') \<and> array_fits delta n K a' \<and> ay_size a' = ay_size a \<and>
    list_step (APush x) out (array_elems a) = Some (array_elems a')"
proof -
  have f: "array_wf a" "unat (ay_nalloc a) \<le> K" "unat (ay_nelem a) + Suc n + unat delta \<le> K" "K < 4294967296"
      "K * unat (ay_size a) < 18446744073709551616"
    using a by (simp_all add: array_fits_def)
  have "unat (ay_nelem a) + unat delta \<le> K" using f(3) by simp
  from array_push_ok [OF spec f(1) d f(2) this f(4,5)] show ?thesis
  proof
    assume "array_push realloc delta a = Some (Null, a)"
    then show ?thesis using f by (simp add: array_fits_def)
  next
    assume "\<exists>p a'. array_push realloc delta a = Some (Ptr p, a') \<and> pushed a K p a'"
    then obtain p b where b: "array_push realloc delta a = Some (Ptr p, b)" "pushed a K p b" by blast
    let ?sz = "unat (ay_size a)" and ?n = "unat (ay_nelem a)" and ?d = "deref (ay_data b)"
    have pb: "array_wf b" "p = ?n * ?sz" "unat (ay_nelem b) = ?n + 1" "ay_size b = ay_size a" "unat (ay_nalloc b) \<le> K"
        "map (chunk ?sz ?d) [0 ..< ?n] = array_elems a"
      using b(2) unfolding pushed_def by blast+
    have "(?n + 1) * ?sz \<le> unat (ay_nalloc b) * ?sz"
      using pb(1,3) by (intro mult_right_mono) (auto simp: array_wf_def)
    then have room: "?n * ?sz + ?sz \<le> length ?d" using pb(1,4) by (simp add: array_wf_def)
    let ?w = "take (?n * ?sz) ?d @ x @ drop (?n * ?sz + ?sz) ?d"
    have wr: "mem_write ?d p x = Some ?w" using room x pb(2) by (simp add: mem_write_Some)
    have "map (chunk ?sz ?w) [0 ..< ?n] = map (chunk ?sz ?d) [0 ..< ?n]"
      by (rule chunks_cong) (use room in simp)
    then have "map (chunk ?sz ?w) [0 ..< ?n + 1] = array_elems a @ [x]"
      using chunk_write [OF x room] pb(6) by simp
    then have "array_elems (b\<lparr>ay_data := Ptr ?w\<rparr>) = array_elems a @ [x]"
      unfolding array_elems_def [of "b\<lparr>ay_data := Ptr ?w\<rparr>"] using pb(3,4) by simp
    moreover have "length ?w = length ?d" using room x by simp
    then have "array_fits delta n K (b\<lparr>ay_data := Ptr ?w\<rparr>)"
      using pb(1,3,4,5) f by (simp add: array_fits_def array_wf_def)
    ultimately show ?thesis using b(1) wr pb(4) by simp
  qed
qed

lemma pop_step:
  assumes a: "array_fits delta n K a"
  shows "\<exists>out a'. array_step realloc delta APop a = Some (out, a') \<and> array_fits delta n K a' \<and> ay_size a' = ay_size a \<and>
    list_step APop out (array_elems a) = Some (array_elems a')"
proof (cases "ay_nelem a = 0")
  case True
  then show ?thesis using a by (simp add: array_nelem_def array_elems_def)
next
  case False
  have wf: "array_wf a" using a by (simp add: array_fits_def)
  have pos: "0 < unat (ay_nelem a)" using False by (simp add: unat_gt_0)
  have n1: "unat (ay_nelem a - 1) = unat (ay_nelem a) - 1" using False by (simp add: unat_minus_one)
  then have lt: "ay_nelem a - 1 < ay_nelem a" using pos by (simp add: word_less_nat_alt)
  let ?a = "a\<lparr>ay_nelem := ay_nelem a - 1\<rparr>"
  obtain m where m: "unat (ay_nelem a) = Suc m" using pos by (cases "unat (ay_nelem a)") auto
  have ne: "array_elems a \<noteq> []" using pos by (metis array_elems_length length_0_conv less_irrefl)
  have "array_elems a ! unat (ay_nelem a - 1) = last (array_elems a)"
    using last_conv_nth [OF ne] n1 by simp
  moreover have "array_elems ?a = butlast (array_elems a)"
    unfolding array_elems_def using n1 m by simp
  moreover have "array_fits delta n K ?a" using a n1 by (auto simp: array_fits_def array_wf_def)
  ultimately show ?thesis
    using False ne array_get_offset(1) [OF wf lt] array_elem_read [OF wf lt]
    by (simp add: array_nelem_def array_size_def array_pop_def)
qed

lemma get_step:
  assumes a: "array_fits delta n K a"
  shows "\<exists>out a'. array_step realloc delta (AGet i) a = Some (out, a') \<and> array_fits delta n K a' \<and> ay_size a' = ay_size a \<and>
    list_step (AGet i) out (array_elems a) = Some (array_elems a')"
proof (cases "ay_nelem a \<le> i")
  case True
  then show ?thesis using a by (simp add: array_nelem_def word_le_nat_alt)
next
  case False
  then have lt: "i < ay_nelem a" by simp
  have wf: "array_wf a" using a by (simp add: array_fits_def)
  show ?thesis
    using False a array_get_offset(1) [OF wf lt] array_elem_read [OF wf lt]
    by (simp add: array_nelem_def array_size_def word_le_nat_alt)
qed

lemma run_fits:
  assumes spec: "realloc_spec realloc" and d: "0 < unat delta"
  shows "array_fits delta (length ops) K a \<Longrightarrow> \<forall>op \<in> set ops. elem_fits (ay_size a) op \<Longrightarrow>
    \<exists>outs a'. array_run realloc delta ops a = Some (outs, a') \<and> array_wf a' \<and> list_run ops outs (array_elems a) = Some (array_elems a')"
proof (induction ops arbitrary: a)
  case Nil
  then show ?case by (simp add: array_fits_def)
next
  case (Cons op ops)
  have fits: "array_fits delta (Suc (length ops)) K a" using Cons.prems(1) by simp
  then have less: "array_fits delta (length ops) K a" by (simp add: array_fits_def)
  have "\<exists>out a'. array_step realloc delta op a = Some (out, a') \<and> array_fits delta (length ops) K a' \<and> ay_size a' = ay_size a \<and>
      list_step op out (array_elems a) = Some (array_elems a')"
  proof (cases op)
    case (APush x)
    then show ?thesis using push_step [OF spec d fits, of x] Cons.prems(2) by simp
  next
    case APop
    then show ?thesis using pop_step [OF less] by simp
  next
    case (AGet i)
    then show ?thesis using get_step [OF less] by simp
  qed
  then obtain out a' where st: "array_step realloc delta op a = Some (out, a')" "array_fits delta (length ops) K a'"
      "ay_size a' = ay_size a" "list_step op out (array_elems a) = Some (array_elems a')"
    by blast
  obtain outs a2 where "array_run realloc delta ops a' = Some (outs, a2)" "array_wf a2"
      "list_run ops outs (array_elems a') = Some (array_elems a2)"
    using Cons.IH [OF st(2)] Cons.prems(2) st(3) by auto
  then show ?case using st by simp
qed

text \<open>A new array is well-formed and empty.\<close>

lemma array_create_wf:
  assumes "malloc_spec malloc" "array_create malloc nalloc sz = Some (CC_OK, Ptr a)" "unat nalloc * unat sz < 18446744073709551616"
  shows "array_wf a \<and> array_elems a = [] \<and> ay_nalloc a = nalloc \<and> ay_size a = sz"
proof -
  have nz: "nalloc \<noteq> 0" "sz \<noteq> 0"
    using assms(2) by (auto simp: array_create_def)
  obtain d where d: "cc_alloc malloc (ucast nalloc * sz) = Ptr d" and a: "a = \<lparr>ay_size = sz, ay_nalloc = nalloc, ay_nelem = 0, ay_data = Ptr d\<rparr>"
    using assms(2) nz
    by (cases "cc_alloc malloc (ucast nalloc * sz)"; cases "cc_alloc malloc ARRAY_SIZE")
       (auto simp: array_create_def array_data_create_def array_raw_def Let_def)
  have "length d = unat nalloc * unat sz" using cc_alloc_length [OF assms(1) d] u32_u64_mult [OF assms(3)] by simp
  then show ?thesis using a nz assms(3) by (simp add: array_wf_def array_elems_def unat_gt_0)
qed

text \<open>
  The distance of an element from the data gives back its index. The bound is not checked: a distance
  that is a multiple of the size but beyond the last element is given an index as well.
\<close>

lemma sint_index:
  fixes i :: u32
  assumes "unat i < 2147483648"
  shows "sint i = int (unat i)"
proof -
  have "uint i < 2147483648" using assms by (simp only: unat_eq_nat_uint nat_less_iff uint_ge_0 zless_nat_eq_int_zless)
  then have "signed_take_bit 31 (uint i) = uint i"
    by (intro signed_take_bit_int_eq_self) (simp_all add: order_trans [OF _ uint_ge_0])
  then show ?thesis by (simp add: sint_uint)
qed

lemma array_locate_idx:
  "ay_size arr \<noteq> 0 \<Longrightarrow> sint (ucast ((word_of_int dist :: u64) div ay_size arr) :: u32) = k \<Longrightarrow> 0 \<le> k \<Longrightarrow>
   word_of_int k * ay_size arr = (word_of_int dist :: u64) \<Longrightarrow> array_locate arr dist = Some k"
  by (simp add: array_locate_def)

lemma array_locate_get:
  assumes wf: "array_wf a" and i: "i < ay_nelem a" and small: "unat i < 2147483648"
  shows "\<exists>p. array_get a i = Some p \<and> array_locate a (int p) = Some (int (unat i))"
proof -
  let ?p = "unat i * unat (ay_size a)"
  have sz: "0 < unat (ay_size a)" using wf by (simp add: array_wf_def)
  then have nz: "ay_size a \<noteq> 0" by auto
  have "(unat i + 1) * unat (ay_size a) < 18446744073709551616"
    using array_get_offset(2) [OF wf i] wf by (simp add: array_wf_def)
  then have b: "?p < 18446744073709551616" by simp
  have w: "(word_of_int (int ?p) :: u64) = of_nat ?p" by simp
  have u: "unat (of_nat ?p :: u64) = ?p" using u32_u64_mult [OF b] by simp
  have "unat ((of_nat ?p :: u64) div ay_size a) = unat i" unfolding unat_div u using sz by simp
  then have q: "ucast ((of_nat ?p :: u64) div ay_size a) = i" by (simp add: word_unat_eq_iff)
  have s: "sint i = int (unat i)" using small by (rule sint_index)
  have e: "(word_of_int (int (unat i)) :: u64) * ay_size a = of_nat ?p" by simp
  have "array_locate a (int ?p) = Some (int (unat i))"
    by (rule array_locate_idx [OF nz]) (simp_all only: w q s e of_nat_0_le_iff)
  then show ?thesis using array_get_offset(1) [OF wf i] by blast
qed

lemma array_locate_unbounded:
  "array_locate \<lparr>ay_size = 4, ay_nalloc = 8, ay_nelem = 2, ay_data = Ptr (replicate 32 0)\<rparr> 20 = Some 5"
  by (simp add: array_locate_def Let_def)


section \<open>Sorting and iterating\<close>

text \<open>What the C library promises of \<^verbatim>\<open>qsort\<close> for a comparison that is a total preorder.\<close>

definition qsort_spec :: "((bytes \<Rightarrow> bytes \<Rightarrow> int) \<Rightarrow> bytes list \<Rightarrow> bytes list) \<Rightarrow> bool" where
  "qsort_spec qsort \<longleftrightarrow> (\<forall>cmp xs. mset (qsort cmp xs) = mset xs \<and>
     ((\<forall>x y z. cmp x y \<le> 0 \<longrightarrow> cmp y z \<le> 0 \<longrightarrow> cmp x z \<le> 0) \<longrightarrow> (\<forall>x y. cmp x y \<le> 0 \<or> cmp y x \<le> 0) \<longrightarrow>
       sorted_wrt (\<lambda>x y. cmp x y \<le> 0) (qsort cmp xs)))"

lemma chunks_concat:
  "\<forall>x \<in> set xs. length x = sz \<Longrightarrow> map (chunk sz (concat xs @ r)) [0 ..< length xs] = xs"
proof (induction xs rule: rev_induct)
  case (snoc x xs)
  have len: "length (concat xs) = length xs * sz"
    using snoc.prems by (induction xs) auto
  have "map (chunk sz (concat (xs @ [x]) @ r)) [0 ..< length xs] = map (chunk sz (concat xs @ r)) [0 ..< length xs]"
    by (rule chunks_cong) (simp add: len [symmetric])
  moreover have "chunk sz (concat (xs @ [x]) @ r) (length xs) = x"
    using snoc.prems by (simp add: chunk_def len [symmetric])
  ultimately show ?case using snoc by simp
qed simp

lemma array_sort_elems:
  assumes spec: "qsort_spec qsort" and wf: "array_wf a" and ne: "ay_nelem a \<noteq> 0"
  shows "\<exists>a'. array_sort qsort cmp a = Some a' \<and> array_elems a' = qsort cmp (array_elems a)"
proof -
  let ?q = "qsort cmp (array_elems a)"
  have m: "mset ?q = mset (array_elems a)" using spec by (simp add: qsort_spec_def)
  then have len: "length ?q = unat (ay_nelem a)" using mset_eq_length [OF m] by simp
  have "length x = unat (ay_size a)" if x: "x \<in> set (array_elems a)" for x
  proof -
    obtain i where i: "i < unat (ay_nelem a)" "x = chunk (unat (ay_size a)) (deref (ay_data a)) i"
      using x by (auto simp: array_elems_def)
    then have "(i + 1) * unat (ay_size a) \<le> unat (ay_nalloc a) * unat (ay_size a)"
      using wf by (intro mult_right_mono) (auto simp: array_wf_def)
    then show ?thesis using chunk_length [of i "unat (ay_size a)"] wf i(2) by (simp add: array_wf_def)
  qed
  then have "\<forall>x \<in> set ?q. length x = unat (ay_size a)" using mset_eq_setD [OF m] by simp
  from chunks_concat [OF this] show ?thesis
    using ne wf len by (simp add: array_sort_def array_elems_def array_wf_def)
qed

text \<open>
  Iterating with a function that keeps the elements, such as a check: the result is the first index
  at which it fails, with its status, or the number of elements.
\<close>

fun each_spec :: "(bytes \<Rightarrow> 's \<Rightarrow> rstatus \<times> 's) \<Rightarrow> bytes list \<Rightarrow> nat \<Rightarrow> 's \<Rightarrow> rstatus \<Rightarrow> nat \<times> 's \<times> rstatus" where
  "each_spec f [] i arg err = (i, arg, err)"
| "each_spec f (x # xs) i arg err =
     (case f x arg of (st, arg) \<Rightarrow> if st \<noteq> CC_OK then (i, arg, st) else each_spec f xs (Suc i) arg err)"

lemma write_back: "p + n \<le> length d \<Longrightarrow> mem_write d p (take n (drop p d)) = Some d"
proof -
  assume "p + n \<le> length d"
  moreover have "take p d @ take n (drop p d) @ drop (p + n) d = d"
    by (metis add.commute append_take_drop_id drop_drop)
  ultimately show ?thesis by (simp add: mem_write_def min_absorb2)
qed

lemma each_loop_spec:
  assumes wf: "array_wf a"
  shows "unat i + k = unat (ay_nelem a) \<Longrightarrow>
    each_loop (\<lambda>x s. case f x s of (st, s) \<Rightarrow> (st, x, s)) k i a arg err =
      (case each_spec f (drop (unat i) (array_elems a)) (unat i) arg err of (j, arg, err) \<Rightarrow> Some (of_nat j, a, arg, err))"
proof (induction k arbitrary: i arg)
  case 0
  then have "i = ay_nelem a" by (simp add: word_unat_eq_iff)
  then show ?case by simp
next
  case (Suc k)
  then have lt: "unat i < unat (ay_nelem a)" by simp
  then have i: "i < ay_nelem a" by (simp add: word_less_nat_alt)
  have i1: "unat (i + 1) = Suc (unat i)" using unat_succ_u32 [OF lt] by simp
  let ?x = "array_elems a ! unat i" and ?p = "unat i * unat (ay_size a)" and ?d = "deref (ay_data a)"
  have rd: "mem_read ?d ?p (unat (ay_size a)) = Some ?x" using wf i by (rule array_elem_read)
  have room: "?p + unat (ay_size a) \<le> length ?d" using array_get_offset(2) [OF wf i] by simp
  then have x: "?x = take (unat (ay_size a)) (drop ?p ?d)" using rd by (simp add: mem_read_Some)
  have wr: "mem_write ?d ?p ?x = Some ?d" unfolding x using room by (rule write_back)
  have same: "a\<lparr>ay_data := Ptr ?d\<rparr> = a" using wf by (cases "ay_data a") (simp_all add: array_wf_def)
  have "drop (unat i) (array_elems a) = ?x # drop (Suc (unat i)) (array_elems a)" using lt by (simp add: Cons_nth_drop_Suc)
  moreover have "ay_data a \<noteq> Null" using wf by (simp add: array_wf_def)
  moreover obtain st arg' where f: "f ?x arg = (st, arg')" by fastforce
  ultimately have spec: "each_spec f (drop (unat i) (array_elems a)) (unat i) arg err =
      (if st \<noteq> CC_OK then (unat i, arg', st) else each_spec f (drop (unat (i + 1)) (array_elems a)) (unat (i + 1)) arg' err)"
    and code: "each_loop (\<lambda>x s. case f x s of (st, s) \<Rightarrow> (st, x, s)) (Suc k) i a arg err =
      (if st \<noteq> CC_OK then Some (i, a, arg', st) else each_loop (\<lambda>x s. case f x s of (st, s) \<Rightarrow> (st, x, s)) k (i + 1) a arg' err)"
    using array_get_offset(1) [OF wf i] rd wr same i1 by simp_all
  have "unat (i + 1) + k = unat (ay_nelem a)" using Suc.prems i1 by simp
  from Suc.IH [OF this, of arg'] show ?case unfolding spec code by simp
qed

lemma array_each_spec:
  assumes "array_wf a" "ay_nelem a \<noteq> 0"
  shows "array_each (\<lambda>x s. case f x s of (st, s) \<Rightarrow> (st, x, s)) a arg err =
    (case each_spec f (array_elems a) 0 arg err of (j, arg, err) \<Rightarrow> Some (of_nat j, a, arg, err))"
  using each_loop_spec [OF assms(1), of 0 "unat (ay_nelem a)"] assms(2) by (simp add: array_each_def)


section \<open>Properties\<close>


definition zero_malloc :: malloc_fn where
  "zero_malloc n = Ptr (replicate (unat n) 0)"

definition zero_realloc :: realloc_fn where
  "zero_realloc p n = Ptr (take (unat n) p @ replicate (unat n - length p) 0)"

lemma replicate_two: "replicate 2 x = [x, x]"
  by (simp add: numeral_2_eq_2)


end
