(* ===== verification/Cc_Log.thy ===== *)
theory Cc_Log
  imports Cc_Channel Cc_Rbuf Cc_Print
begin

text \<open>
  The log of \<^verbatim>\<open>include/cc_log.h\<close> and \<^verbatim>\<open>src/cc_log.c\<close>: a logger writes to a descriptor directly, or
  through a ring buffer of theory \<open>Cc_Rbuf\<close> that is flushed from time to time. The formatting
  functions of the C library are parameters: what \<^verbatim>\<open>vsnprintf\<close> makes of a format and its arguments,
  where the messages of the module itself are the values of \<open>log_msg\<close>.
\<close>

section \<open>Loggers\<close>

datatype log_metric =
    M_log_create | M_log_create_ex | M_log_destroy | M_log_curr | M_log_open | M_log_open_ex
  | M_log_write | M_log_write_byte | M_log_write_ex | M_log_skip | M_log_skip_byte | M_log_flush | M_log_flush_ex

fun log_metric_type :: "log_metric \<Rightarrow> metric_type" where
  "log_metric_type M_log_curr = METRIC_GAUGE"
| "log_metric_type _ = METRIC_COUNTER"

type_synonym log_env = "log_metric io_env"
type_synonym printf_fn = "bytes \<Rightarrow> u64 \<Rightarrow> int \<times> bytes"

record logger =
  lg_name :: "bytes ptr"
  lg_fd :: int
  lg_buf :: "rbuf ptr"

definition LOG_MAX_LEN :: nat where "LOG_MAX_LEN = 2560"
definition LOGGER_SIZE :: u64 where "LOGGER_SIZE = 24"
definition LOG_METRICS_SIZE :: u64 where "LOG_METRICS_SIZE = 416"
definition STDOUT_FILENO :: int where "STDOUT_FILENO = 1"
definition STDERR_FILENO :: int where "STDERR_FILENO = 2"
definition O_LOG_CREATE :: int where "O_LOG_CREATE = 1089"
definition O_LOG_REOPEN :: int where "O_LOG_REOPEN = 577"

text \<open>The messages the module logs, with the arguments of their formats.\<close>

datatype log_msg =
    Msg_setup | Msg_setup_again | Msg_teardown | Msg_never_setup
  | Msg_create "bytes ptr" u32 | Msg_no_logger | Msg_no_buffer | Msg_no_file
  | Msg_rename "bytes ptr" bytes int | Msg_reopen "bytes ptr" int | Msg_no_flush

text \<open>\<^verbatim>\<open>_log_fd\<close>; the array is on the stack, and of its bytes only those that have been written are used.\<close>

definition log_fd :: "printf_fn \<Rightarrow> int \<Rightarrow> log_env \<Rightarrow> log_env option" where
  "log_fd vsnprintf fd e = do {
     let errno_save = os_errno (te_os e);
     let (len, buf) = vscnprintf vsnprintf (replicate LOG_MAX_LEN 0) (of_nat LOG_MAX_LEN);
     buf \<leftarrow> mem_write buf (unat len) [10];
     bs \<leftarrow> mem_read buf 0 (unat len + 1);
     let len = int (unat len) + 1;
     let (r, e) = te_call (syscall (Sys_write fd bs)) e;
     let n = sr_ret r;
     let e = (if n < 0 then te_incr M_log_write_ex e else e);
     let e = (if n < len then te_incr_n M_log_skip_byte (len - n) (te_incr M_log_skip e)
              else te_incr_n M_log_write_byte len (te_incr M_log_write e));
     Some (e\<lparr>te_os := (te_os e)\<lparr>os_errno := errno_save\<rparr>\<rparr>)
   }"

definition log_stderr :: "printf_fn \<Rightarrow> log_env \<Rightarrow> log_env option" where
  "log_stderr vsnprintf = log_fd vsnprintf STDERR_FILENO"

definition log_stdout :: "printf_fn \<Rightarrow> log_env \<Rightarrow> log_env option" where
  "log_stdout vsnprintf = log_fd vsnprintf STDOUT_FILENO"

text \<open>\<^verbatim>\<open>log_panic\<close> aborts.\<close>

definition log_metrics_create :: "malloc_fn \<Rightarrow> log_metric metrics option" where
  "log_metrics_create malloc = do {
     ASSERT (cc_alloc malloc LOG_METRICS_SIZE \<noteq> Null);
     Some (Ptr (\<lambda>x. METRIC_INIT (log_metric_type x)))
   }"

definition log_metrics_destroy :: "log_metric metrics ptr \<Rightarrow> log_metric metrics ptr option" where
  "log_metrics_destroy m = do { ASSERT (m \<noteq> Null); Some (Ptr Null) }"

definition log_setup :: "(log_msg \<Rightarrow> printf_fn) \<Rightarrow> log_metric metrics \<Rightarrow> bool \<times> log_env \<Rightarrow> (bool \<times> log_env) option" where
  "log_setup fmt metrics ie = (case ie of (init, e) \<Rightarrow> do {
     e \<leftarrow> log_stderr (fmt Msg_setup) e;
     let e = e\<lparr>te_metrics := metrics\<rparr>;
     e \<leftarrow> (if init then log_stderr (fmt Msg_setup_again) e else Some e);
     Some (True, e)
   })"

definition log_teardown :: "(log_msg \<Rightarrow> printf_fn) \<Rightarrow> bool \<times> log_env \<Rightarrow> (bool \<times> log_env) option" where
  "log_teardown fmt ie = (case ie of (init, e) \<Rightarrow> do {
     e \<leftarrow> log_stderr (fmt Msg_teardown) e;
     e \<leftarrow> (if \<not> init then log_stderr (fmt Msg_never_setup) e else Some e);
     Some (False, e\<lparr>te_metrics := Null\<rparr>)
   })"

text \<open>The part of \<^verbatim>\<open>log_create\<close> that opens the file.\<close>

definition log_create_open ::
  "(log_msg \<Rightarrow> printf_fn) \<Rightarrow> bytes ptr \<Rightarrow> rbuf ptr \<Rightarrow> rbuf_module \<Rightarrow> log_env \<Rightarrow> (logger ptr \<times> rbuf_module \<times> log_env) option" where
  "log_create_open fmt filename buf rm e =
     (if filename \<noteq> Null then do {
        let (r, e) = te_call (syscall (Sys_open filename O_LOG_CREATE)) e;
        if sr_ret r < 0 then do {
          e \<leftarrow> log_stderr (fmt Msg_no_file) e;
          Some (Null, rm, te_incr M_log_create_ex (te_incr M_log_open_ex e))
        }
        else Some (Ptr \<lparr>lg_name = filename, lg_fd = sr_ret r, lg_buf = buf\<rparr>, rm,
               te_incr M_log_curr (te_incr M_log_create (te_incr M_log_open e)))
      }
      else Some (Ptr \<lparr>lg_name = filename, lg_fd = STDERR_FILENO, lg_buf = buf\<rparr>, rm, te_incr M_log_curr (te_incr M_log_create e)))"

definition log_create ::
  "(log_msg \<Rightarrow> printf_fn) \<Rightarrow> malloc_fn \<Rightarrow> bytes ptr \<Rightarrow> u32 \<Rightarrow> rbuf_module \<Rightarrow> log_env \<Rightarrow>
   (logger ptr \<times> rbuf_module \<times> log_env) option" where
  "log_create fmt malloc filename buf_cap rm e = do {
     e \<leftarrow> log_stderr (fmt (Msg_create filename buf_cap)) e;
     if cc_alloc malloc LOGGER_SIZE = Null then do {
       e \<leftarrow> log_stderr (fmt Msg_no_logger) e;
       Some (Null, rm, te_incr M_log_create_ex e)
     }
     else if buf_cap > 0 then
       (case rbuf_create malloc buf_cap rm of
          (Null, rm) \<Rightarrow> do {
            e \<leftarrow> log_stderr (fmt Msg_no_buffer) e;
            Some (Null, rm, te_incr M_log_create_ex e)
          }
        | (Ptr b, rm) \<Rightarrow> log_create_open fmt filename (Ptr b) rm e)
     else log_create_open fmt filename Null rm e
   }"

definition rbuf_flush :: "rbuf \<Rightarrow> int \<Rightarrow> log_env \<Rightarrow> (int \<times> rbuf \<times> log_env) option" where
  "rbuf_flush buf fd e =
     (let rpos = rb_rpos buf; wpos = rb_wpos buf in
      if wpos < rpos then do {
        let capacity = rb_cap buf - rpos + 1;
        bs \<leftarrow> mem_read (rb_data buf) (unat rpos) (unat capacity);
        let (r, e) = te_call (syscall (Sys_write fd bs)) e;
        let ret = sr_ret r;
        let rpos = (if ret > 0 then rpos + word_of_int ret else rpos);
        if ret = int (unat capacity) then do {
          bs2 \<leftarrow> mem_read (rb_data buf) 0 (unat wpos);
          let (r2, e) = te_call (syscall (Sys_write fd bs2)) e;
          let ret2 = sr_ret r2;
          if ret2 \<ge> 0 then Some (ret + ret2, buf\<lparr>rb_rpos := word_of_int ret2\<rparr>, e)
          else Some (ret, buf\<lparr>rb_rpos := rpos\<rparr>, e)
        }
        else Some (ret, buf\<lparr>rb_rpos := rpos\<rparr>, e)
      }
      else do {
        let capacity = wpos - rpos;
        bs \<leftarrow> mem_read (rb_data buf) (unat rpos) (unat capacity);
        let (r, e) = te_call (syscall (Sys_write fd bs)) e;
        let ret = sr_ret r;
        Some (ret, buf\<lparr>rb_rpos := (if ret > 0 then rpos + word_of_int ret else rpos)\<rparr>, e)
      })"

definition log_flush :: "(log_msg \<Rightarrow> printf_fn) \<Rightarrow> logger \<Rightarrow> log_env \<Rightarrow> (u64 \<times> logger \<times> log_env) option" where
  "log_flush fmt logger e =
     (case lg_buf logger of
        Null \<Rightarrow> Some (0, logger, e)
      | Ptr b \<Rightarrow>
          if lg_fd logger < 0 then do {
            e \<leftarrow> log_stderr (fmt Msg_no_flush) e;
            Some (0, logger, te_incr M_log_flush_ex e)
          }
          else do {
            let buf_len = rbuf_rcap b;
            (n, b, e) \<leftarrow> rbuf_flush b (lg_fd logger) e;
            let e = (if n < sint buf_len then te_incr M_log_flush_ex e else te_incr M_log_flush e);
            Some (if n > 0 then word_of_int n else 0, logger\<lparr>lg_buf := Ptr b\<rparr>, e)
          })"

definition log_destroy ::
  "(log_msg \<Rightarrow> printf_fn) \<Rightarrow> logger ptr \<Rightarrow> rbuf_module \<Rightarrow> log_env \<Rightarrow> (logger ptr \<times> rbuf_module \<times> log_env) option" where
  "log_destroy fmt l rm e =
     (case l of
        Null \<Rightarrow> Some (Null, rm, e)
      | Ptr logger \<Rightarrow> do {
          (_, logger, e) \<leftarrow> log_flush fmt logger e;
          let e = (if lg_fd logger \<ge> 0 \<and> lg_fd logger \<noteq> STDERR_FILENO \<and> lg_fd logger \<noteq> STDOUT_FILENO
                   then snd (te_call (syscall (Sys_close (lg_fd logger))) e) else e);
          (_, rm) \<leftarrow> rbuf_destroy (Ptr (lg_buf logger)) rm;
          let e = te_incr M_log_destroy e;
          Some (Null, rm, e\<lparr>te_metrics := DECR (te_metrics e) M_log_curr\<rparr>)
        })"

definition log_reopen :: "(log_msg \<Rightarrow> printf_fn) \<Rightarrow> logger \<Rightarrow> bytes ptr \<Rightarrow> log_env \<Rightarrow> (rstatus \<times> logger \<times> log_env) option" where
  "log_reopen fmt logger target e =
     (if lg_fd logger \<noteq> STDERR_FILENO \<and> lg_fd logger \<noteq> STDOUT_FILENO then do {
        let (_, e) = te_call (syscall (Sys_close (lg_fd logger))) e;
        e \<leftarrow> (case target of
            Null \<Rightarrow> Some e
          | Ptr t \<Rightarrow> (let (r, e) = te_call (syscall (Sys_rename (lg_name logger) t)) e in
              if sr_ret r < 0 then log_stderr (fmt (Msg_rename (lg_name logger) t (os_errno (te_os e)))) e else Some e));
        let (r, e) = te_call (syscall (Sys_open (lg_name logger) O_LOG_REOPEN)) e;
        let logger = logger\<lparr>lg_fd := sr_ret r\<rparr>;
        if lg_fd logger < 0 then do {
          e \<leftarrow> log_stderr (fmt (Msg_reopen (lg_name logger) (os_errno (te_os e)))) e;
          Some (CC_ERROR, logger, te_incr M_log_open_ex e)
        }
        else Some (CC_OK, logger, te_incr M_log_open e)
      }
      else Some (CC_OK, logger, te_incr M_log_open e))"

definition log_write :: "logger \<Rightarrow> bytes \<Rightarrow> u32 \<Rightarrow> log_env \<Rightarrow> (bool \<times> logger \<times> log_env) option" where
  "log_write logger buf len e =
     (case lg_buf logger of
        Ptr b \<Rightarrow>
          if ucast len \<le> rbuf_wcap b then do {
            (_, b) \<leftarrow> rbuf_write b buf (ucast len);
            Some (True, logger\<lparr>lg_buf := Ptr b\<rparr>, te_incr_n M_log_write_byte (int (unat len)) (te_incr M_log_write e))
          }
          else Some (False, logger, te_incr_n M_log_skip_byte (int (unat len)) (te_incr M_log_skip e))
      | Null \<Rightarrow>
          if lg_fd logger < 0 then Some (False, logger, te_incr M_log_write_ex e)
          else do {
            bs \<leftarrow> mem_read buf 0 (unat len);
            let (r, e) = te_call (syscall (Sys_write (lg_fd logger) bs)) e;
            if sr_ret r < int (unat len) then Some (False, logger, te_incr M_log_write_ex e)
            else Some (True, logger, te_incr_n M_log_write_byte (int (unat len)) (te_incr M_log_write e))
          })"


section \<open>Flushing\<close>

lemma rb_advance:
  assumes wf: "rb_wf b" and k: "unat r' = unat (rb_rpos b) + k"
    "k \<le> (if unat (rb_wpos b) < unat (rb_rpos b) then unat (rb_cap b) + 1 - unat (rb_rpos b) else unat (rb_wpos b) - unat (rb_rpos b))"
  shows "rb_wf (b\<lparr>rb_rpos := r'\<rparr>) \<and> rb_contents (b\<lparr>rb_rpos := r'\<rparr>) = drop k (rb_contents b)"
proof -
  note wfs = rb_wfD [OF wf]
  have "rb_wf (b\<lparr>rb_rpos := r'\<rparr>)" using k wfs by (intro rb_wf_rpos [OF wf]) (auto split: if_splits)
  moreover have "rb_contents (b\<lparr>rb_rpos := r'\<rparr>) = drop k (rb_contents b)"
  proof (cases "unat (rb_wpos b) < unat (rb_rpos b)")
    case True
    then show ?thesis using k wfs by (simp add: rb_contents_wrapped add.commute)
  next
    case False
    then have "\<not> unat (rb_wpos b) < unat (rb_rpos b) + k" using k by simp
    then show ?thesis using False k(1) by (simp add: rb_contents_straight drop_window)
  qed
  ultimately show ?thesis by blast
qed

lemma rb_restart:
  assumes wf: "rb_wf b" and w: "unat (rb_wpos b) < unat (rb_rpos b)" and k: "unat r' = k" "k \<le> unat (rb_wpos b)"
  shows "rb_wf (b\<lparr>rb_rpos := r'\<rparr>) \<and>
    rb_contents (b\<lparr>rb_rpos := r'\<rparr>) = drop (unat (rb_cap b) + 1 - unat (rb_rpos b) + k) (rb_contents b)"
proof -
  note wfs = rb_wfD [OF wf]
  have "rb_wf (b\<lparr>rb_rpos := r'\<rparr>)" using k w wfs by (intro rb_wf_rpos [OF wf]) auto
  then show ?thesis using w k wfs by (simp add: rb_contents_wrapped rb_contents_straight window_def drop_take)
qed

text \<open>Some of the bytes at the front of the buffer have gone out.\<close>

definition flushed :: "rbuf \<Rightarrow> int \<Rightarrow> log_env \<Rightarrow> int \<Rightarrow> rbuf \<Rightarrow> log_env \<Rightarrow> bool" where
  "flushed b fd e n b' e' \<longleftrightarrow> rb_wf b' \<and> rb_cap b' = rb_cap b \<and> os_kernel (te_os e') = os_kernel (te_os e) \<and>
     nat n \<le> length (rb_contents b) \<and> rb_contents b' = drop (nat n) (rb_contents b) \<and>
     outbound fd (os_trace (te_os e')) = outbound fd (os_trace (te_os e)) @ take (nat n) (rb_contents b)"

lemma pos_advance:
  fixes r c :: u32
  assumes "unat r + nat ret \<le> unat c + 1" "unat c < 4294967295" "0 < ret"
  shows "unat (r + word_of_int ret) = unat r + nat ret"
proof -
  have "word_of_int ret = (of_nat (nat ret) :: u32)" using assms(3) by simp
  moreover have "unat (of_nat (nat ret) :: u32) = nat ret" using assms by (intro unat_of_nat_32) linarith
  moreover have "unat r + nat ret < 2 ^ LENGTH(32)" using assms by simp
  ultimately show ?thesis using unat_add_lem [of r "of_nat (nat ret)"] by metis
qed

lemma rbuf_flush_straight:
  assumes wf: "rb_wf b" and w: "\<not> unat (rb_wpos b) < unat (rb_rpos b)" and k: "kernel_ok (os_kernel (te_os e))"
  shows "\<exists>n b' e'. rbuf_flush b fd e = Some (n, b', e') \<and> flushed b fd e n b' e' \<and>
    n = sr_ret (os_kernel (te_os e) (os_trace (te_os e)) (Sys_write fd (rb_contents b)))"
proof -
  note wfs = rb_wfD [OF wf]
  let ?r = "unat (rb_rpos b)" and ?w = "unat (rb_wpos b)" and ?c = "rb_contents b"
  have len: "length ?c = ?w - ?r" using rb_contents_length [OF wf] w by simp
  have rd: "mem_read (rb_data b) ?r (unat (rb_wpos b - rb_rpos b)) = Some ?c"
    using w wfs by (simp add: u32_sub mem_read_Some rb_contents_straight window_def)
  define res where "res = os_kernel (te_os e) (os_trace (te_os e)) (Sys_write fd ?c)"
  have "sr_ret res \<le> int (length ?c)" using kernel_result [OF k, of "Sys_write fd ?c"] by (simp only: res_def result_ok.simps)
  then have res: "nat (sr_ret res) \<le> ?w - ?r" unfolding len nat_le_iff .
  define r' where "r' = (if sr_ret res > 0 then rb_rpos b + word_of_int (sr_ret res) else rb_rpos b)"
  have r': "unat r' = ?r + nat (sr_ret res)"
    using pos_advance [of "rb_rpos b" "sr_ret res" "rb_cap b"] res len wfs by (auto simp: r'_def)
  have "rbuf_flush b fd e = Some (sr_ret res, b\<lparr>rb_rpos := r'\<rparr>, snd (te_call (syscall (Sys_write fd ?c)) e))"
    using w rd by (simp add: rbuf_flush_def Let_def word_less_nat_alt te_call_syscall res_def r'_def)
  moreover have "flushed b fd e (sr_ret res) (b\<lparr>rb_rpos := r'\<rparr>) (snd (te_call (syscall (Sys_write fd ?c)) e))"
    using rb_advance [OF wf r'] res len w by (simp add: flushed_def te_call_syscall Let_def res_def [symmetric] del: nat_le_iff)
  ultimately show ?thesis by (auto simp: res_def)
qed

lemma rbuf_flush_wrapped:
  assumes wf: "rb_wf b" and w: "unat (rb_wpos b) < unat (rb_rpos b)" and k: "kernel_ok (os_kernel (te_os e))"
  shows "\<exists>n b' e'. rbuf_flush b fd e = Some (n, b', e') \<and> flushed b fd e n b' e' \<and>
    ((\<forall>t bs. sr_ret (os_kernel (te_os e) t (Sys_write fd bs)) = int (length bs)) \<longrightarrow> n = int (length (rb_contents b)))"
proof -
  note wfs = rb_wfD [OF wf]
  let ?r = "unat (rb_rpos b)" and ?w = "unat (rb_wpos b)" and ?c = "rb_contents b" and ?K = "os_kernel (te_os e)"
  let ?b1 = "drop ?r (rb_data b)" and ?b2 = "take ?w (rb_data b)" and ?m = "unat (rb_cap b) + 1 - unat (rb_rpos b)"
  have c: "?c = ?b1 @ ?b2" using w by (rule rb_contents_wrapped)
  have l: "length ?b1 = ?m" "length ?b2 = ?w" using wfs w by simp_all
  have cap: "unat (rb_cap b - rb_rpos b + 1) = ?m" using wfs by (simp add: u32_sub_add1)
  have rd: "mem_read (rb_data b) ?r ?m = Some ?b1" "mem_read (rb_data b) 0 ?w = Some ?b2"
    using wfs w by (simp_all add: mem_read_Some)
  define res where "res = ?K (os_trace (te_os e)) (Sys_write fd ?b1)"
  have "sr_ret res \<le> int ?m" using kernel_result [OF k, of "Sys_write fd ?b1"] by (simp only: res_def l result_ok.simps)
  then have res: "nat (sr_ret res) \<le> ?m" unfolding nat_le_iff .
  define e1 where "e1 = snd (te_call (syscall (Sys_write fd ?b1)) e)"
  have e1: "te_call (syscall (Sys_write fd ?b1)) e = (res, e1)" by (simp add: e1_def te_call_syscall res_def Let_def)
  have k1: "os_kernel (te_os e1) = ?K" "outbound fd (os_trace (te_os e1)) = outbound fd (os_trace (te_os e)) @ take (nat (sr_ret res)) ?b1"
    by (simp_all add: e1_def te_call_syscall Let_def res_def)
  define r' where "r' = (if sr_ret res > 0 then rb_rpos b + word_of_int (sr_ret res) else rb_rpos b)"
  have r': "unat r' = ?r + nat (sr_ret res)"
    using pos_advance [of "rb_rpos b" "sr_ret res" "rb_cap b"] res wfs by (auto simp: r'_def)
  have adv: "flushed b fd e (sr_ret res) (b\<lparr>rb_rpos := r'\<rparr>) x"
    if x: "os_kernel (te_os x) = ?K" "outbound fd (os_trace (te_os x)) = outbound fd (os_trace (te_os e1))" for x
    using rb_advance [OF wf r'] res w l k1 x by (simp add: flushed_def c)
  have code: "rbuf_flush b fd e = (if sr_ret res = int ?m then
      (let (r2, e2) = te_call (syscall (Sys_write fd ?b2)) e1 in
       if sr_ret r2 \<ge> 0 then Some (sr_ret res + sr_ret r2, b\<lparr>rb_rpos := word_of_int (sr_ret r2)\<rparr>, e2)
       else Some (sr_ret res, b\<lparr>rb_rpos := r'\<rparr>, e2))
     else Some (sr_ret res, b\<lparr>rb_rpos := r'\<rparr>, e1))"
  proof -
    have "rb_wpos b < rb_rpos b" using w by (simp add: word_less_nat_alt)
    then show ?thesis unfolding rbuf_flush_def Let_def cap rd r'_def by (simp only: if_True bind.bind_lunit e1 split_conv rd)
  qed
  show ?thesis
  proof (cases "sr_ret res = int ?m")
    case False
    then show ?thesis using adv [OF k1(1) refl] code l(1) by (auto simp: res_def)
  next
    case True
    define r2 where "r2 = ?K (os_trace (te_os e1)) (Sys_write fd ?b2)"
    define e2 where "e2 = snd (te_call (syscall (Sys_write fd ?b2)) e1)"
    have e2: "te_call (syscall (Sys_write fd ?b2)) e1 = (r2, e2)" by (simp add: e2_def te_call_syscall r2_def Let_def k1)
    have k2: "os_kernel (te_os e2) = ?K" "outbound fd (os_trace (te_os e2)) = outbound fd (os_trace (te_os e1)) @ take (nat (sr_ret r2)) ?b2"
      by (simp_all add: e2_def te_call_syscall Let_def r2_def k1)
    have "sr_ret r2 \<le> int ?w" using kernel_result [OF k, of "Sys_write fd ?b2"] by (simp only: r2_def l result_ok.simps)
    then have r2: "nat (sr_ret r2) \<le> ?w" unfolding nat_le_iff .
    show ?thesis
    proof (cases "sr_ret r2 \<ge> 0")
      case False
      then show ?thesis using adv [of e2] k2 code True e2 by (auto simp: r2_def)
    next
      case pos: True
      have "word_of_int (sr_ret r2) = (of_nat (nat (sr_ret r2)) :: u32)" using pos by simp
      then have u: "unat (word_of_int (sr_ret r2) :: u32) = nat (sr_ret r2)"
        using unat_of_nat_32 [of "nat (sr_ret r2)"] le_less_trans [OF r2 unat_u32_lt] by simp
      have nn: "nat (sr_ret res + sr_ret r2) = ?m + nat (sr_ret r2)" using pos True by (simp add: nat_add_distrib)
      have "flushed b fd e (sr_ret res + sr_ret r2) (b\<lparr>rb_rpos := word_of_int (sr_ret r2)\<rparr>) e2"
        using rb_restart [OF wf w u] r2 k1 k2 l True unfolding flushed_def nn c by simp
      moreover have "sr_ret res + sr_ret r2 = int (length ?c)" if "\<forall>t bs. sr_ret (?K t (Sys_write fd bs)) = int (length bs)"
        using that True l by (simp add: r2_def c)
      ultimately show ?thesis using code True e2 pos by simp
    qed
  qed
qed

lemma rbuf_flush_spec:
  assumes wf: "rb_wf b" and k: "kernel_ok (os_kernel (te_os e))"
  shows "\<exists>n b' e'. rbuf_flush b fd e = Some (n, b', e') \<and> flushed b fd e n b' e' \<and>
    ((\<forall>t bs. sr_ret (os_kernel (te_os e) t (Sys_write fd bs)) = int (length bs)) \<longrightarrow> n = int (length (rb_contents b)))"
proof (cases "unat (rb_wpos b) < unat (rb_rpos b)")
  case True
  then show ?thesis by (rule rbuf_flush_wrapped [OF wf _ k])
next
  case False
  obtain n b' e' where "rbuf_flush b fd e = Some (n, b', e')" "flushed b fd e n b' e'"
      "n = sr_ret (os_kernel (te_os e) (os_trace (te_os e)) (Sys_write fd (rb_contents b)))"
    using rbuf_flush_straight [OF wf False k] by blast
  then show ?thesis by auto
qed


section \<open>A client of a logger\<close>

datatype log_op = LWrite bytes | LFlush

type_synonym log_client = "bytes \<times> logger \<times> log_env"

text \<open>\<open>acc\<close> is what the logger has accepted.\<close>

fun log_step :: "(log_msg \<Rightarrow> printf_fn) \<Rightarrow> log_op \<Rightarrow> log_client \<Rightarrow> log_client option" where
  "log_step fmt (LWrite bs) (acc, l, e) = do {
     (ok, l, e) \<leftarrow> log_write l bs (of_nat (length bs)) e;
     Some (if ok then acc @ bs else acc, l, e)
   }"
| "log_step fmt LFlush (acc, l, e) = do { (_, l, e) \<leftarrow> log_flush fmt l e; Some (acc, l, e) }"

fun log_run :: "(log_msg \<Rightarrow> printf_fn) \<Rightarrow> log_op list \<Rightarrow> log_client \<Rightarrow> log_client option" where
  "log_run fmt [] s = Some s"
| "log_run fmt (op # ops) s = do { s \<leftarrow> log_step fmt op s; log_run fmt ops s }"

fun op_len_ok :: "log_op \<Rightarrow> bool" where
  "op_len_ok (LWrite bs) = (length bs < 4294967296)"
| "op_len_ok LFlush = True"

abbreviation log_out :: "int \<Rightarrow> log_env \<Rightarrow> bytes" where
  "log_out fd e \<equiv> outbound fd (os_trace (te_os e))"

definition logged :: "kernel \<Rightarrow> int \<Rightarrow> bytes \<Rightarrow> log_client \<Rightarrow> bool" where
  "logged k fd start s \<longleftrightarrow> (case s of (acc, l, e) \<Rightarrow> os_kernel (te_os e) = k \<and> lg_fd l = fd \<and>
     (\<exists>b. lg_buf l = Ptr b \<and> rb_wf b \<and> log_out fd e @ rb_contents b = start @ acc))"

text \<open>A message is accepted exactly when it fits into the buffer.\<close>

lemma log_write_buffered:
  assumes b: "lg_buf l = Ptr b" "rb_wf b" and len: "length bs < 4294967296"
  shows "\<exists>b' e'. log_write l bs (of_nat (length bs)) e = Some (length bs \<le> rb_room b, l\<lparr>lg_buf := Ptr b'\<rparr>, e') \<and> te_os e' = te_os e \<and>
    rb_wf b' \<and> rb_contents b' = rb_contents b @ (if length bs \<le> rb_room b then bs else [])"
proof -
  let ?n = "ucast (of_nat (length bs) :: u32) :: u64"
  have n: "unat ?n = length bs" using len by (simp add: unat_of_nat_32)
  have fits: "(?n \<le> rbuf_wcap b) = (length bs \<le> rb_room b)" using n rbuf_wcap_nat [OF b(2)] by (simp add: word_le_nat_alt)
  have same: "l\<lparr>lg_buf := Ptr b\<rparr> = l" using b(1) by simp
  show ?thesis
  proof (cases "length bs \<le> rb_room b")
    case True
    have "rb_write_ok b bs ?n (min (unat ?n) (rb_room b))"
      using b(2) len True n by (intro rbuf_write_spec) simp_all
    then obtain ret b' where "rbuf_write b bs ?n = Some (ret, b')" "rb_wf b'" "rb_contents b' = rb_contents b @ bs"
      using True n by (auto simp: rb_write_ok_def min_absorb1)
    then show ?thesis using b(1) fits True by (auto simp: log_write_def intro: exI [of _ b'])
  next
    case False
    then show ?thesis using b fits same by (auto simp: log_write_def intro: exI [of _ b])
  qed
qed

lemma log_flush_logged:
  assumes k: "kernel_ok k" and fd: "0 \<le> fd" and s: "logged k fd start (acc, l, e)"
  shows "\<exists>n l' e'. log_flush fmt l e = Some (n, l', e') \<and> logged k fd start (acc, l', e') \<and>
    ((\<forall>t bs. sr_ret (k t (Sys_write fd bs)) = int (length bs)) \<longrightarrow> log_out fd e' = start @ acc)"
proof -
  obtain b where b: "lg_buf l = Ptr b" "rb_wf b" "log_out fd e @ rb_contents b = start @ acc" "os_kernel (te_os e) = k" "lg_fd l = fd"
    using s by (auto simp: logged_def)
  then have ke: "kernel_ok (os_kernel (te_os e))" using k by simp
  obtain n b' e' where fl: "rbuf_flush b fd e = Some (n, b', e')" "flushed b fd e n b' e'"
      "(\<forall>t bs. sr_ret (k t (Sys_write fd bs)) = int (length bs)) \<longrightarrow> n = int (length (rb_contents b))"
    using rbuf_flush_spec [OF b(2) ke, of fd] b(4) by blast
  let ?e = "if n < sint (rbuf_rcap b) then te_incr M_log_flush_ex e' else te_incr M_log_flush e'"
  have te: "te_os ?e = te_os e'" by simp
  have out: "log_out fd e' = log_out fd e @ take (nat n) (rb_contents b)" "rb_contents b' = drop (nat n) (rb_contents b)" "rb_wf b'"
      "os_kernel (te_os e') = k"
    using fl(2) b(4) by (simp_all add: flushed_def)
  have "log_flush fmt l e = Some (if n > 0 then word_of_int n else 0, l\<lparr>lg_buf := Ptr b'\<rparr>, ?e)"
    using b(1,5) fl(1) fd by (simp add: log_flush_def Let_def)
  moreover have "log_out fd e' @ rb_contents b' = start @ acc" using out b(3) by simp
  then have "logged k fd start (acc, l\<lparr>lg_buf := Ptr b'\<rparr>, ?e)"
    unfolding logged_def prod.case te using out b(5) by simp
  moreover have "log_out fd e' = start @ acc" if "\<forall>t bs. sr_ret (k t (Sys_write fd bs)) = int (length bs)"
    using fl(3) that out b(3) by simp
  ultimately show ?thesis using te by (metis (no_types, lifting))
qed

lemma log_run_logged:
  assumes k: "kernel_ok k" and fd: "0 \<le> fd"
  shows "logged k fd start s \<Longrightarrow> \<forall>op \<in> set ops. op_len_ok op \<Longrightarrow> \<exists>s'. log_run fmt ops s = Some s' \<and> logged k fd start s'"
proof (induction ops arbitrary: s)
  case (Cons op ops)
  obtain acc l e where s: "s = (acc, l, e)" by (cases s)
  have "\<exists>s'. log_step fmt op s = Some s' \<and> logged k fd start s'"
  proof (cases op)
    case (LWrite bs)
    obtain b where b: "lg_buf l = Ptr b" "rb_wf b" "log_out fd e @ rb_contents b = start @ acc" "os_kernel (te_os e) = k" "lg_fd l = fd"
      using Cons.prems(1) s by (auto simp: logged_def)
    have len: "length bs < 4294967296" using Cons.prems(2) LWrite by simp
    obtain b' e' where w: "log_write l bs (of_nat (length bs)) e = Some (length bs \<le> rb_room b, l\<lparr>lg_buf := Ptr b'\<rparr>, e')" "te_os e' = te_os e"
        "rb_wf b'" "rb_contents b' = rb_contents b @ (if length bs \<le> rb_room b then bs else [])"
      using log_write_buffered [OF b(1,2) len] by blast
    have st: "log_step fmt op s = Some (if length bs \<le> rb_room b then acc @ bs else acc, l\<lparr>lg_buf := Ptr b'\<rparr>, e')"
      using LWrite s w(1) by simp
    have "log_out fd e @ rb_contents b @ x = start @ acc @ x" for x using b(3) by (metis append_assoc)
    then show ?thesis using st w(2-4) b(4,5) by (auto simp: logged_def)
  next
    case LFlush
    then show ?thesis using log_flush_logged [OF k fd, of start acc l e fmt] Cons.prems(1) s by auto
  qed
  then show ?case using Cons.IH Cons.prems(2) by auto
qed simp

lemma log_run_append: "log_run fmt (xs @ ys) s = do { s \<leftarrow> log_run fmt xs s; log_run fmt ys s }"
  by (induction xs arbitrary: s) (simp_all split: bind_splits)

text \<open>A new logger with a buffer has a descriptor and an empty buffer.\<close>

lemma log_create_buffered:
  assumes "malloc_spec malloc" "log_create fmt malloc filename cap rm e0 = Some (Ptr l, rm', e)" "0 < cap" "unat cap < 4294967295"
  shows "\<exists>b. lg_buf l = Ptr b \<and> rb_wf b \<and> rb_contents b = [] \<and> 0 \<le> lg_fd l"
proof -
  obtain e1 where e1: "log_stderr (fmt (Msg_create filename cap)) e0 = Some e1"
    using assms(2) by (auto simp: log_create_def split: bind_splits)
  obtain p rm1 where c: "rbuf_create malloc cap rm = (p, rm1)" by fastforce
  have np: "p \<noteq> Null" using assms(2,3) e1 c by (auto simp: log_create_def split: if_splits bind_splits)
  then obtain b where p: "p = Ptr b" by (cases p) auto
  have op: "log_create_open fmt filename (Ptr b) rm1 e1 = Some (Ptr l, rm', e)"
    using assms(2,3) e1 c p by (auto simp: log_create_def split: if_splits bind_splits)
  then have "lg_buf l = Ptr b \<and> 0 \<le> lg_fd l"
    by (auto simp: log_create_open_def STDERR_FILENO_def Let_def split: if_splits bind_splits prod.splits)
  moreover have "rb_wf b \<and> rb_contents b = []" using rbuf_create_Ptr [OF assms(1), of cap rm b rm1] c p assms(4) by auto
  ultimately show ?thesis by blast
qed


section \<open>Errors\<close>

text \<open>When the file cannot be opened the buffer is not given back: the module of the buffers counts it.\<close>

lemma log_create_leaks_buffer:
  assumes "rbuf_create malloc cap rm = (Ptr b, rm1)" "0 < cap" "log_create fmt malloc filename cap rm e = Some (Null, rm2, e2)"
    "cc_alloc malloc LOGGER_SIZE \<noteq> Null"
  shows "rm2 = rm1"
  using assms by (auto simp: log_create_def log_create_open_def Let_def split: if_splits bind_splits prod.splits)

text \<open>A failed write to the standard error counts one byte too many as skipped.\<close>

lemma log_fd_skip_byte:
  assumes "te_metrics e = Ptr m" "m_type (m M_log_skip_byte) = METRIC_COUNTER" "\<And>t c. sr_ret (os_kernel (te_os e) t c) = - 1"
  shows "\<exists>e' m'. log_fd (\<lambda>buf sz. (0, buf)) fd e = Some e' \<and> te_metrics e' = Ptr m' \<and>
    m_bits (m' M_log_skip_byte) = m_bits (m M_log_skip_byte) + 2"
  using assms by (simp add: log_fd_def vscnprintf_def LOG_MAX_LEN_def mem_write_def mem_read_def te_call_syscall Let_def te_incr_def
      te_incr_n_def INCR_def INCR_N_def metric_incr_n_def)


section \<open>Properties\<close>

text \<open>C6: a buffered logger loses nothing. Over any kernel and any sequence of writes and flushes to a
  logger that was created with a buffer, every call returns; a message is accepted whole or not at
  all; the bytes that have gone out, followed by those in the buffer, are at every moment the
  accepted messages, in order, each once, however little the kernel takes at a time. When the kernel
  takes whole writes, a flush sends out everything that was accepted.\<close>

theorem log_delivers:
  assumes "malloc_spec malloc" and "log_create fmt malloc filename cap rm e0 = Some (Ptr l, rm', e)"
    and "0 < cap" and "unat cap < 4294967295" and "kernel_ok (os_kernel (te_os e))" and "\<forall>op \<in> set ops. op_len_ok op"
  shows "\<exists>acc l' e' b'. log_run fmt ops ([], l, e) = Some (acc, l', e') \<and> lg_buf l' = Ptr b' \<and>
     log_out (lg_fd l) e' @ rb_contents b' = log_out (lg_fd l) e @ acc \<and>
     ((\<forall>t bs. sr_ret (os_kernel (te_os e) t (Sys_write (lg_fd l) bs)) = int (length bs)) \<longrightarrow>
      (\<exists>l'' e''. log_run fmt (ops @ [LFlush]) ([], l, e) = Some (acc, l'', e'') \<and> log_out (lg_fd l) e'' = log_out (lg_fd l) e @ acc))"
proof -
  obtain b where b: "lg_buf l = Ptr b" "rb_wf b" "rb_contents b = []" "0 \<le> lg_fd l"
    using log_create_buffered [OF assms(1-4)] by blast
  then have "logged (os_kernel (te_os e)) (lg_fd l) (log_out (lg_fd l) e) ([], l, e)" by (simp add: logged_def)
  then obtain s where s: "log_run fmt ops ([], l, e) = Some s" "logged (os_kernel (te_os e)) (lg_fd l) (log_out (lg_fd l) e) s"
    using log_run_logged [OF assms(5) b(4)] assms(6) by blast
  obtain acc l' e' where s': "s = (acc, l', e')" by (cases s)
  obtain b' where b': "lg_buf l' = Ptr b'" "log_out (lg_fd l) e' @ rb_contents b' = log_out (lg_fd l) e @ acc"
    using s(2) by (auto simp: s' logged_def)
  obtain n l2 e2 where "log_flush fmt l' e' = Some (n, l2, e2)"
      "(\<forall>t bs. sr_ret (os_kernel (te_os e) t (Sys_write (lg_fd l) bs)) = int (length bs)) \<longrightarrow> log_out (lg_fd l) e2 = log_out (lg_fd l) e @ acc"
    using log_flush_logged [OF assms(5) b(4) s(2) [unfolded s']] by blast
  then show ?thesis using s(1) b' by (simp add: s' log_run_append)
qed

text \<open>A kernel that takes every write whole.\<close>

definition file_kernel :: kernel where
  "file_kernel t c = (case c of
     Sys_write fd bs \<Rightarrow> \<lparr>sr_ret = int (length bs), sr_errno = 0, sr_data = [], sr_vals = []\<rparr>
   | _ \<Rightarrow> \<lparr>sr_ret = 0, sr_errno = 0, sr_data = [], sr_vals = []\<rparr>)"

lemma file_kernel_ok: "kernel_ok file_kernel"
  unfolding kernel_ok_def
proof (intro conjI allI)
  show "result_ok c (file_kernel t c)" for t c by (cases c) (simp_all add: file_kernel_def)
  show "\<exists>m. \<not> interrupted (file_kernel (tried file_kernel c t m) c)" for t c
    by (cases c) (simp_all add: file_kernel_def interrupted_def)
qed

definition log_sample :: log_env where
  "log_sample = \<lparr>te_metrics = Null, te_os = \<lparr>os_kernel = file_kernel, os_trace = [], os_errno = 0, os_signals = []\<rparr>\<rparr>"

definition log_sample_open :: "logger ptr \<times> rbuf_module \<times> log_env" where
  "log_sample_open = the (log_create (\<lambda>_ buf sz. (0, buf)) (\<lambda>n. Ptr (replicate (unat n) 0)) Null 8
     \<lparr>rbuf_metrics = Null, rbuf_init = True\<rparr> log_sample)"

theorem log_delivers_witness:
  "\<exists>l rm' e acc l'' e''. log_sample_open = (Ptr l, rm', e) \<and> lg_fd l = 2 \<and>
     log_run (\<lambda>_ buf sz. (0, buf)) [LWrite [1, 2, 3], LFlush, LWrite [4, 5], LFlush] ([], l, e) = Some (acc, l'', e'') \<and>
     log_out 2 e'' = log_out 2 e @ acc"
proof -
  let ?f = "\<lambda>_ buf sz. (0, buf)" and ?m = "\<lambda>n. Ptr (replicate (unat n) 0)"
  have "\<exists>l rm' e. log_create ?f ?m Null 8 \<lparr>rbuf_metrics = Null, rbuf_init = True\<rparr> log_sample = Some (Ptr l, rm', e) \<and> lg_fd l = 2 \<and>
      os_kernel (te_os e) = file_kernel"
    by (simp add: log_create_def log_create_open_def log_stderr_def log_fd_def vscnprintf_def LOG_MAX_LEN_def mem_write_def mem_read_def
        te_call_syscall Let_def cc_alloc_def LOGGER_SIZE_def rbuf_create_def RBUF_HDR_SIZE_def STDERR_FILENO_def log_sample_def)
  then obtain l rm' e where c: "log_create ?f ?m Null 8 \<lparr>rbuf_metrics = Null, rbuf_init = True\<rparr> log_sample = Some (Ptr l, rm', e)" "lg_fd l = 2"
      "os_kernel (te_os e) = file_kernel"
    by blast
  have m: "malloc_spec ?m" by (simp add: malloc_spec_def)
  have w: "\<forall>t bs. sr_ret (os_kernel (te_os e) t (Sys_write (lg_fd l) bs)) = int (length bs)" by (simp add: c file_kernel_def)
  have "kernel_ok (os_kernel (te_os e))" by (simp add: c file_kernel_ok)
  from log_delivers [OF m c(1) _ _ this, of "[LWrite [1, 2, 3], LFlush, LWrite [4, 5]]"] w show ?thesis
    by (auto simp: log_sample_open_def c)
qed

end
