(* ===== verification/Cc_Debug.thy ===== *)
theory Cc_Debug
  imports Cc_Log
begin

text \<open>
  The debug log of \<^verbatim>\<open>include/cc_debug.h\<close> and \<^verbatim>\<open>src/cc_debug.c\<close>, the log of the metrics of
  \<^verbatim>\<open>src/stats/cc_stats_log.c\<close>, and the printing of \<^verbatim>\<open>src/stats/cc_metric.c\<close>, all over the loggers of
  theory \<open>Cc_Log\<close>. \<open>put_text t\<close> is what \<^verbatim>\<open>snprintf\<close> does when the format and its arguments make
  the text \<open>t\<close>, which is taken to be shorter than \<^verbatim>\<open>INT_MAX\<close>.
\<close>

section \<open>Formatted output\<close>

definition put_text :: "bytes \<Rightarrow> printf_fn" where
  "put_text t buf sz = (int (length t),
     if sz = 0 then buf
     else (let n = min (length t) (unat sz - 1) in take n t @ [0] @ drop (n + 1) buf))"

text \<open>\<^verbatim>\<open>len += cc_scnprintf (buf + len, size - len, ...)\<close> for a buffer of \<open>size\<close> bytes.\<close>

definition add_text :: "nat \<Rightarrow> bytes \<Rightarrow> nat \<times> bytes \<Rightarrow> nat \<times> bytes" where
  "add_text sz t lb = (case lb of (len, buf) \<Rightarrow>
     let (r, rest) = scnprintf (put_text t) (drop len buf) (of_nat (sz - len)) in (len + unat r, take len buf @ rest))"


section \<open>The debug log\<close>

record debug_logger =
  dl_logger :: "logger ptr"
  dl_level :: int

record debug_module =
  dg_dlog :: debug_logger
  dg_init :: bool

definition DEBUG_LOG_LEVEL :: int where "DEBUG_LOG_LEVEL = 4"
definition DEBUG_LOG_FILE :: "bytes ptr" where "DEBUG_LOG_FILE = Null"
definition DEBUG_LOG_NBUF :: u64 where "DEBUG_LOG_NBUF = 0"

datatype debug_msg = Log_msg log_msg | Msg_debug_setup | Msg_debug_again | Msg_debug_no_logger | Msg_debug_teardown | Msg_debug_never

text \<open>The handlers of the module: \<^verbatim>\<open>_stacktrace\<close> and \<^verbatim>\<open>_logrotate\<close>.\<close>

definition stacktrace_fn :: sig_fn where "stacktrace_fn = Sig_Fn 0"
definition logrotate_fn :: sig_fn where "logrotate_fn = Sig_Fn 1"

definition logrotate :: "(log_msg \<Rightarrow> printf_fn) \<Rightarrow> debug_logger \<Rightarrow> log_env \<Rightarrow> (debug_logger \<times> log_env) option" where
  "logrotate fmt dl e =
     (case dl_logger dl of
        Null \<Rightarrow> None
      | Ptr l \<Rightarrow> do { (_, l, e) \<leftarrow> log_reopen fmt l Null e; Some (dl\<lparr>dl_logger := Ptr l\<rparr>, e) })"

definition debug_log_flush :: "(log_msg \<Rightarrow> printf_fn) \<Rightarrow> debug_logger \<Rightarrow> log_env \<Rightarrow> (debug_logger \<times> log_env) option" where
  "debug_log_flush fmt dl e =
     (case dl_logger dl of
        Null \<Rightarrow> None
      | Ptr l \<Rightarrow> do { (_, l, e) \<leftarrow> log_flush fmt l e; Some (dl\<lparr>dl_logger := Ptr l\<rparr>, e) })"

text \<open>A signal call within the environment of the log.\<close>

definition te_override :: "int \<Rightarrow> string \<Rightarrow> sig_fn \<Rightarrow> log_env \<Rightarrow> (int \<times> log_env) option" where
  "te_override signo info handler e = do {
     (r, s) \<leftarrow> signal_override signo info 0 0 handler (te_os e);
     Some (r, e\<lparr>te_os := s\<rparr>)
   }"

definition debug_setup_error ::
  "(debug_msg \<Rightarrow> printf_fn) \<Rightarrow> debug_module \<Rightarrow> rbuf_module \<Rightarrow> log_env \<Rightarrow> (rstatus \<times> debug_module \<times> rbuf_module \<times> log_env) option" where
  "debug_setup_error fmt m rm e = do {
     (l, rm, e) \<leftarrow> log_destroy (\<lambda>x. fmt (Log_msg x)) (dl_logger (dg_dlog m)) rm e;
     Some (CC_ERROR, m\<lparr>dg_dlog := (dg_dlog m)\<lparr>dl_logger := l\<rparr>\<rparr>, rm, e)
   }"

text \<open>The options are the values of \<^verbatim>\<open>debug_log_file\<close>, \<^verbatim>\<open>debug_log_nbuf\<close> and \<^verbatim>\<open>debug_log_level\<close>.\<close>

definition debug_setup ::
  "(debug_msg \<Rightarrow> printf_fn) \<Rightarrow> malloc_fn \<Rightarrow> (bytes ptr \<times> u64 \<times> u64) ptr \<Rightarrow> debug_module \<Rightarrow> rbuf_module \<Rightarrow> log_env \<Rightarrow>
   (rstatus \<times> debug_module \<times> rbuf_module \<times> log_env) option" where
  "debug_setup fmt malloc options m rm e = do {
     let lfmt = (\<lambda>x. fmt (Log_msg x));
     e \<leftarrow> log_stderr (fmt Msg_debug_setup) e;
     (m, rm, e) \<leftarrow> (if dg_init m then do {
         e \<leftarrow> log_stderr (fmt Msg_debug_again) e;
         (l, rm, e) \<leftarrow> log_destroy lfmt (dl_logger (dg_dlog m)) rm e;
         Some (m\<lparr>dg_dlog := (dg_dlog m)\<lparr>dl_logger := l\<rparr>\<rparr>, rm, e)
       } else Some (m, rm, e));
     let (filename, nbuf, level) = (case options of
         Null \<Rightarrow> (DEBUG_LOG_FILE, DEBUG_LOG_NBUF, DEBUG_LOG_LEVEL)
       | Ptr (f, n, v) \<Rightarrow> (f, n, sint (ucast v :: u32)));
     (l, rm, e) \<leftarrow> log_create lfmt malloc filename (ucast nbuf) rm e;
     let m = m\<lparr>dg_dlog := \<lparr>dl_logger = l, dl_level = level\<rparr>\<rparr>;
     if l = Null then do {
       e \<leftarrow> log_stderr (fmt Msg_debug_no_logger) e;
       debug_setup_error fmt m rm e
     }
     else do {
       (r, e) \<leftarrow> te_override SIGSEGV ''printing stacktrace when segfault'' stacktrace_fn e;
       if r < 0 then debug_setup_error fmt m rm e
       else do {
         (r, e) \<leftarrow> te_override SIGHUP ''reopen log file'' logrotate_fn e;
         if r < 0 then debug_setup_error fmt m rm e
         else Some (CC_OK, m\<lparr>dg_init := True\<rparr>, rm, e)
       }
     }
   }"

definition debug_teardown ::
  "(debug_msg \<Rightarrow> printf_fn) \<Rightarrow> debug_module \<Rightarrow> rbuf_module \<Rightarrow> log_env \<Rightarrow> (debug_module \<times> rbuf_module \<times> log_env) option" where
  "debug_teardown fmt m rm e = do {
     e \<leftarrow> log_stderr (fmt Msg_debug_teardown) e;
     e \<leftarrow> (if \<not> dg_init m then log_stderr (fmt Msg_debug_never) e else Some e);
     (l, rm, e) \<leftarrow> log_destroy (\<lambda>x. fmt (Log_msg x)) (dl_logger (dg_dlog m)) rm e;
     Some (m\<lparr>dg_dlog := (dg_dlog m)\<lparr>dl_logger := l\<rparr>, dg_init := False\<rparr>, rm, e)
   }"

text \<open>
  \<^verbatim>\<open>_log\<close>: \<open>header\<close> is the text of the time, the thread, the level and the place, \<open>body\<close> that of the
  message. The array of the levels has 8 entries.
\<close>

definition debug_log :: "debug_logger ptr \<Rightarrow> int \<Rightarrow> bytes \<Rightarrow> bytes \<Rightarrow> log_env \<Rightarrow> (debug_logger ptr \<times> log_env) option" where
  "debug_log dl level header body e =
     (case dl of
        Null \<Rightarrow> Some (dl, e)
      | Ptr d \<Rightarrow>
          (case dl_logger d of
             Null \<Rightarrow> Some (dl, e)
           | Ptr l \<Rightarrow>
               if dl_level d < level then Some (dl, e)
               else do {
                 ASSERT (0 \<le> level \<and> level < 8);
                 let errno_save = os_errno (te_os e);
                 let (len, buf) = add_text LOG_MAX_LEN body (add_text LOG_MAX_LEN header (0, replicate LOG_MAX_LEN 0));
                 buf \<leftarrow> mem_write buf len [10];
                 (_, l, e) \<leftarrow> log_write l buf (of_nat (len + 1)) e;
                 Some (Ptr (d\<lparr>dl_logger := Ptr l\<rparr>), e\<lparr>te_os := (te_os e)\<lparr>os_errno := errno_save\<rparr>\<rparr>)
               }))"

text \<open>The texts of one line of a hexadecimal dump: the offset, 16 cells, and the printable characters.\<close>

definition hexdigit :: "nat \<Rightarrow> u8" where
  "hexdigit n = (if n < 10 then 48 + of_nat n else 87 + of_nat n)"

definition hex2 :: "u8 \<Rightarrow> bytes" where
  "hex2 c = [hexdigit (unat c div 16), hexdigit (unat c mod 16)]"

fun hex_fixed :: "nat \<Rightarrow> nat \<Rightarrow> bytes" where
  "hex_fixed 0 n = []"
| "hex_fixed (Suc k) n = hex_fixed k (n div 16) @ [hexdigit (n mod 16)]"

definition gap :: "nat \<Rightarrow> bytes" where
  "gap i = (if i = 7 then [32, 32] else [32])"

fun hex_cells :: "nat \<Rightarrow> bytes \<Rightarrow> bytes list" where
  "hex_cells i [] = map (\<lambda>j. [32, 32] @ gap j) [i ..< 16]"
| "hex_cells i (c # cs) = (hex2 c @ gap i) # hex_cells (Suc i) cs"

definition isprint :: "u8 \<Rightarrow> bool" where
  "isprint c \<longleftrightarrow> 32 \<le> c \<and> c \<le> 126"

definition row_texts :: "nat \<Rightarrow> bytes \<Rightarrow> bytes list" where
  "row_texts off row = (hex_fixed 8 off @ [32, 32]) # hex_cells 0 row @ [[32, 32, 124]] @
     map (\<lambda>c. [if isprint c then c else 46]) row @ [[124, 10]]"

function hexdump_loop :: "nat \<Rightarrow> bytes \<Rightarrow> nat \<Rightarrow> nat \<times> bytes \<Rightarrow> nat \<times> bytes" where
  "hexdump_loop sz data off lb =
     (if data \<noteq> [] \<and> fst lb < sz - 1
      then hexdump_loop sz (drop 16 data) (off + 16) (fold (add_text sz) (row_texts off (take 16 data)) lb)
      else lb)"
  by pat_completeness auto
termination
  by (relation "measure (\<lambda>(sz, data, off, lb). length data)") auto

declare hexdump_loop.simps [simp del]

definition log_hexdump :: "debug_logger \<Rightarrow> int \<Rightarrow> bytes \<Rightarrow> int \<Rightarrow> log_env \<Rightarrow> (debug_logger \<times> log_env) option" where
  "log_hexdump dl level data datalen e =
     (case dl_logger dl of
        Null \<Rightarrow> Some (dl, e)
      | Ptr l \<Rightarrow>
          if dl_level dl < level then Some (dl, e)
          else do {
            let errno_save = os_errno (te_os e);
            ASSERT (0 \<le> datalen);
            data \<leftarrow> mem_read data 0 (nat datalen);
            let sz = 8 * LOG_MAX_LEN;
            let (len, buf) = hexdump_loop sz data 0 (0, replicate sz 0);
            (_, l, e) \<leftarrow> log_write l buf (of_nat len) e;
            Some (dl\<lparr>dl_logger := Ptr l\<rparr>, e\<lparr>te_os := (te_os e)\<lparr>os_errno := errno_save\<rparr>\<rparr>)
          })"


section \<open>The log of the metrics\<close>

text \<open>A metric with its name and description; \<open>show_fpn\<close> is \<^verbatim>\<open>%f\<close>.\<close>

record named_metric =
  nm_name :: bytes
  nm_desc :: bytes
  nm_metric :: metric

definition VALUE_PRINT_LEN :: nat where "VALUE_PRINT_LEN = 30"

definition metric_text :: "(real \<Rightarrow> bytes) \<Rightarrow> metric \<Rightarrow> bytes" where
  "metric_text show_fpn m =
     (case m_type m of
        METRIC_COUNTER \<Rightarrow> dec (unat (m_bits m))
      | METRIC_GAUGE \<Rightarrow> sdec (sint (m_bits m))
      | METRIC_FPN \<Rightarrow> show_fpn (m_fpn m))"

text \<open>\<open>fmt\<close> is the text that the format makes of the name and the value.\<close>

definition metric_print ::
  "(real \<Rightarrow> bytes) \<Rightarrow> bytes \<Rightarrow> nat \<Rightarrow> (bytes \<Rightarrow> bytes \<Rightarrow> bytes) \<Rightarrow> named_metric ptr \<Rightarrow> nat \<times> bytes" where
  "metric_print show_fpn buf nbuf fmt m =
     (case m of
        Null \<Rightarrow> (0, buf)
      | Ptr x \<Rightarrow>
          (let (n, val_buf) = add_text VALUE_PRINT_LEN (metric_text show_fpn (nm_metric x)) (0, replicate VALUE_PRINT_LEN 0)
           in add_text nbuf (fmt (nm_name x) (take n val_buf)) (0, buf)))"

definition metric_describe_all ::
  "(bytes \<Rightarrow> bytes \<Rightarrow> bytes \<Rightarrow> bytes) \<Rightarrow> named_metric list \<Rightarrow> log_env \<Rightarrow> log_env option" where
  "metric_describe_all fmt metrics e = do {
     let str = map (of_char :: char \<Rightarrow> u8);
     e \<leftarrow> log_stdout (put_text (fmt (str ''NAME'') (str ''TYPE'') (str ''DESCRIPTION''))) e;
     fold (\<lambda>x r. do { e \<leftarrow> r; log_stdout (put_text (fmt (nm_name x) (str (metric_type_str (m_type (nm_metric x)))) (nm_desc x))) e })
       metrics (Some e)
   }"

record stats_module =
  sl_slog :: "logger ptr"
  sl_init :: bool

definition STATS_LOG_FILE :: "bytes ptr" where "STATS_LOG_FILE = Null"
definition STATS_LOG_NBUF :: u64 where "STATS_LOG_NBUF = 0"
definition PRINT_BUF_LEN :: nat where "PRINT_BUF_LEN = 64"

definition stats_log_fmt :: "bytes \<Rightarrow> bytes \<Rightarrow> bytes" where
  "stats_log_fmt name val = name @ [58, 32] @ val @ [44, 32]"

definition stats_log_setup ::
  "(log_msg \<Rightarrow> printf_fn) \<Rightarrow> malloc_fn \<Rightarrow> (bytes ptr \<times> u64) ptr \<Rightarrow> stats_module \<Rightarrow> rbuf_module \<Rightarrow> log_env \<Rightarrow>
   (stats_module \<times> rbuf_module \<times> log_env) option" where
  "stats_log_setup fmt malloc options m rm e = do {
     (m, rm, e) \<leftarrow> (if sl_init m \<and> sl_slog m \<noteq> Null then do {
         (l, rm, e) \<leftarrow> log_destroy fmt (sl_slog m) rm e;
         Some (m\<lparr>sl_slog := l\<rparr>, rm, e)
       } else Some (m, rm, e));
     let (filename, nbuf) = (case options of Null \<Rightarrow> (STATS_LOG_FILE, STATS_LOG_NBUF) | Ptr opts \<Rightarrow> opts);
     (m, rm, e) \<leftarrow> (if filename \<noteq> Null then do {
         (l, rm, e) \<leftarrow> log_create fmt malloc filename (ucast nbuf) rm e;
         Some (m\<lparr>sl_slog := l\<rparr>, rm, e)
       } else Some (m, rm, e));
     Some (m\<lparr>sl_init := True\<rparr>, rm, e)
   }"

definition stats_log_teardown ::
  "(log_msg \<Rightarrow> printf_fn) \<Rightarrow> stats_module \<Rightarrow> rbuf_module \<Rightarrow> log_env \<Rightarrow> (stats_module \<times> rbuf_module \<times> log_env) option" where
  "stats_log_teardown fmt m rm e = do {
     (m, rm, e) \<leftarrow> (if sl_slog m \<noteq> Null then do {
         (l, rm, e) \<leftarrow> log_destroy fmt (sl_slog m) rm e;
         Some (m\<lparr>sl_slog := l\<rparr>, rm, e)
       } else Some (m, rm, e));
     Some (m\<lparr>sl_init := False\<rparr>, rm, e)
   }"

fun stats_loop :: "(real \<Rightarrow> bytes) \<Rightarrow> named_metric list \<Rightarrow> bytes \<Rightarrow> logger \<Rightarrow> log_env \<Rightarrow> (bytes \<times> logger \<times> log_env) option" where
  "stats_loop show_fpn [] buf l e = Some (buf, l, e)"
| "stats_loop show_fpn (x # xs) buf l e = do {
     let (len, buf) = metric_print show_fpn buf PRINT_BUF_LEN stats_log_fmt (Ptr x);
     (_, l, e) \<leftarrow> log_write l buf (of_nat len) e;
     stats_loop show_fpn xs buf l e
   }"

text \<open>The array \<open>buf\<close> is static, of \<open>PRINT_BUF_LEN\<close> bytes.\<close>

definition stats_log :: "(real \<Rightarrow> bytes) \<Rightarrow> named_metric list \<Rightarrow> bytes \<Rightarrow> stats_module \<Rightarrow> log_env \<Rightarrow> (bytes \<times> stats_module \<times> log_env) option" where
  "stats_log show_fpn metrics buf m e =
     (case sl_slog m of
        Null \<Rightarrow> Some (buf, m, e)
      | Ptr l \<Rightarrow> do {
          (buf, l, e) \<leftarrow> stats_loop show_fpn metrics buf l e;
          (_, l, e) \<leftarrow> log_write l [13, 10] 2 e;
          Some (buf, m\<lparr>sl_slog := Ptr l\<rparr>, e)
        })"

definition stats_log_flush :: "(log_msg \<Rightarrow> printf_fn) \<Rightarrow> stats_module \<Rightarrow> log_env \<Rightarrow> (stats_module \<times> log_env) option" where
  "stats_log_flush fmt m e =
     (case sl_slog m of
        Null \<Rightarrow> Some (m, e)
      | Ptr l \<Rightarrow> do { (_, l, e) \<leftarrow> log_flush fmt l e; Some (m\<lparr>sl_slog := Ptr l\<rparr>, e) })"


section \<open>Texts in a buffer\<close>

text \<open>The buffer of \<open>sz\<close> bytes holds the text \<open>s\<close>, cut off to leave room for the terminator.\<close>

definition holds :: "nat \<Rightarrow> bytes \<Rightarrow> nat \<times> bytes \<Rightarrow> bool" where
  "holds sz s lb \<longleftrightarrow> (case lb of (len, buf) \<Rightarrow> length buf = sz \<and> len = min (length s) (sz - 1) \<and> take len buf = take (sz - 1) s)"

lemma holds_empty: "0 < sz \<Longrightarrow> holds sz [] (0, replicate sz 0)"
  by (simp add: holds_def)

lemma int_round_trip: "unat v < 2147483648 \<Longrightarrow> unat (scast (ucast v :: u32) :: u64) = unat v" for v :: u64
proof -
  assume v: "unat v < 2147483648"
  have "sint (ucast v :: u32) = int (unat v)" using sint_u32_small [OF v] by (simp only: of_nat_unat)
  then have "(scast (ucast v :: u32) :: u64) = word_of_int (int (unat v))" by (simp add: scast_eq)
  then show ?thesis by simp
qed

lemma scnprintf_put_text:
  assumes "0 < m" "m < 2147483648"
  shows "scnprintf (put_text t) buf (of_nat m) = (r, rest) \<Longrightarrow>
    unat r = min (length t) (m - 1) \<and> rest = take (min (length t) (m - 1)) t @ [0] @ drop (min (length t) (m - 1) + 1) buf"
proof -
  assume r: "scnprintf (put_text t) buf (of_nat m) = (r, rest)"
  have m: "unat (of_nat m :: u64) = m" "sint (ucast (of_nat m :: u64) :: u32) = int m"
  proof -
    show u: "unat (of_nat m :: u64) = m" using assms(2) by (simp add: unat_of_nat_64)
    have "sint (of_nat (unat (of_nat m :: u64)) :: u32) = int m" unfolding u by (rule sint_u32_small [OF assms(2)])
    then show "sint (ucast (of_nat m :: u64) :: u32) = int m" by (simp only: of_nat_unat)
  qed
  then have m0: "(of_nat m :: u64) \<noteq> 0" using assms(1) by (metis unat_0 less_irrefl)
  have m1: "unat ((of_nat m :: u64) - 1) = m - 1" using m(1) m0 by (simp add: unat_minus_one)
  define v where "v = (if int (length t) \<le> 0 then 0 else if int (length t) < int m then word_of_int (int (length t)) else (of_nat m :: u64) - 1)"
  have v: "unat v = min (length t) (m - 1)"
    using assms m1 by (auto simp: v_def unat_of_nat_64 min_def)
  then have "unat v < 2147483648" using assms(2) by simp
  then have "unat (scast (ucast v :: u32) :: u64) = min (length t) (m - 1)" using int_round_trip v by simp
  moreover have "scnprintf (put_text t) buf (of_nat m) =
      (scast (ucast v :: u32), take (min (length t) (m - 1)) t @ [0] @ drop (min (length t) (m - 1) + 1) buf)"
    unfolding scnprintf_def vscnprintf_def put_text_def Let_def v_def m using m0 by simp
  ultimately show ?thesis using r by simp
qed

lemma add_text_holds:
  assumes sz: "0 < sz" "sz < 2147483648" and h: "holds sz s lb"
  shows "holds sz (s @ t) (add_text sz t lb)"
proof -
  obtain len buf where lb: "lb = (len, buf)" by (cases lb)
  have l: "length buf = sz" "len = min (length s) (sz - 1)" "take len buf = take (sz - 1) s"
    using h unfolding holds_def lb prod.case by blast+
  obtain r rest where r: "scnprintf (put_text t) (drop len buf) (of_nat (sz - len)) = (r, rest)" by fastforce
  let ?n = "min (length t) (sz - len - 1)"
  have "0 < sz - len" "sz - len < 2147483648" using l(2) sz by auto
  from scnprintf_put_text [OF this r] have u: "unat r = ?n" "rest = take ?n t @ [0] @ drop (?n + 1) (drop len buf)" by blast+
  have len': "len + ?n = min (length (s @ t)) (sz - 1)" unfolding l(2) length_append using sz(1) by linarith
  have "length (take len buf @ rest) = sz" using u(2) l(1,2) sz(1) by auto
  moreover have "take (len + ?n) (take len buf @ rest) = take len buf @ take ?n t" using u(2) l(1,2) by simp
  moreover have "take len buf @ take ?n t = take (sz - 1) (s @ t)"
  proof (cases "length s \<le> sz - 1")
    case True
    then have "?n = min (length t) (sz - 1 - length s)" using l(2) by auto
    then show ?thesis using l(3) True by (simp add: min_def)
  qed (use l in simp)
  ultimately show ?thesis unfolding holds_def lb add_text_def prod.case r Let_def u(1) len' by argo
qed

lemma fold_holds: "0 < sz \<Longrightarrow> sz < 2147483648 \<Longrightarrow> holds sz s lb \<Longrightarrow> holds sz (s @ concat ts) (fold (add_text sz) ts lb)"
proof (induction ts arbitrary: s lb)
  case (Cons t ts)
  then show ?case using Cons.IH [of "s @ t"] add_text_holds by simp
qed simp

function hex_text :: "bytes \<Rightarrow> nat \<Rightarrow> bytes" where
  "hex_text data off = (if data = [] then [] else concat (row_texts off (take 16 data)) @ hex_text (drop 16 data) (off + 16))"
  by pat_completeness auto
termination
  by (relation "measure (\<lambda>(data, off). length data)") auto

declare hex_text.simps [simp del]

lemma hex_text_Nil [simp]: "hex_text [] off = []"
  by (subst hex_text.simps) simp

lemma holds_full: "holds sz s lb \<Longrightarrow> \<not> fst lb < sz - 1 \<Longrightarrow> holds sz (s @ t) lb"
  by (auto simp: holds_def min_def split: if_splits prod.splits)

lemma hexdump_loop_holds:
  assumes "0 < sz" "sz < 2147483648"
  shows "holds sz s lb \<Longrightarrow> holds sz (s @ hex_text data off) (hexdump_loop sz data off lb)"
proof (induction data off arbitrary: s lb rule: hex_text.induct)
  case (1 data off)
  show ?case
  proof (cases "data \<noteq> [] \<and> fst lb < sz - 1")
    case True
    have "holds sz ((s @ concat (row_texts off (take 16 data))) @ hex_text (drop 16 data) (off + 16))
        (hexdump_loop sz (drop 16 data) (off + 16) (fold (add_text sz) (row_texts off (take 16 data)) lb))"
      using True "1.IH" [OF _ fold_holds [OF assms "1.prems"]] by blast
    then show ?thesis using True by (subst hexdump_loop.simps, subst hex_text.simps) simp
  next
    case False
    then show ?thesis using 1(2) holds_full [OF 1(2)] by (subst hexdump_loop.simps) auto
  qed
qed

text \<open>Only the bytes that are to be written matter.\<close>

lemma mem_read_take: "i + k \<le> n \<Longrightarrow> n \<le> length m \<Longrightarrow> mem_read (take n m) i k = mem_read m i k"
  by (simp add: mem_read_def drop_take min_absorb1)

lemma memcpy_take: "i + k \<le> n \<Longrightarrow> n \<le> length m \<Longrightarrow> cc_memcpy d j (take n m) i k = cc_memcpy d j m i k"
  by (simp add: cc_memcpy_def mem_read_take)

lemma rbuf_min_le: "unat (ucast (rbuf_min a b) :: u64) \<le> unat b"
  by (simp add: rbuf_min_def word_less_nat_alt)

lemma rbuf_write_take:
  assumes "unat n < 4294967296" "unat n \<le> length src"
  shows "rbuf_write b (take (unat n) src) n = rbuf_write b src n"
proof -
  have u: "unat (ucast k :: u32) \<le> unat k" for k :: u64 by simp
  have first: "unat (ucast (rbuf_min a (ucast n)) :: u64) \<le> unat n" for a
    using rbuf_min_le u order_trans by blast
  have rest: "unat r + unat (ucast (rbuf_min a (ucast (n - r))) :: u64) \<le> unat n" if r: "r \<le> n" for a r
  proof -
    have "unat (ucast (rbuf_min a (ucast (n - r))) :: u64) \<le> unat (n - r)" using rbuf_min_le u order_trans by blast
    then show ?thesis using r by (simp add: unat_sub word_le_nat_alt)
  qed
  have m1: "cc_memcpy d j (take (unat n) src) 0 (unat (ucast (rbuf_min a (ucast n)) :: u64)) =
      cc_memcpy d j src 0 (unat (ucast (rbuf_min a (ucast n)) :: u64))" for d j a
    using memcpy_take [OF _ assms(2)] first by simp
  have m2: "cc_memcpy d j (take (unat n) src) (unat r) (unat (ucast (rbuf_min a (ucast (n - r))) :: u64)) =
      cc_memcpy d j src (unat r) (unat (ucast (rbuf_min a (ucast (n - r))) :: u64))" if "r < n" for d j a r
    using memcpy_take [OF rest assms(2)] that by simp
  show ?thesis unfolding rbuf_write_def Let_def m1 by (simp only: m2 cong: if_cong)
qed

lemma log_write_take:
  assumes "unat len \<le> length buf"
  shows "log_write l (take (unat len) buf) len e = log_write l buf len e"
proof -
  have u: "unat (ucast len :: u64) = unat len" by simp
  have "rbuf_write b (take (unat len) buf) (ucast len) = rbuf_write b buf (ucast len)" for b
    using rbuf_write_take [of "ucast len" buf b] assms unsigned_less [of len] unfolding u by simp
  then show ?thesis using mem_read_take [of 0 "unat len" "unat len" buf] assms
    by (simp add: log_write_def split: ptr.splits)
qed


section \<open>What is logged\<close>

definition log_bytes :: "logger \<Rightarrow> bytes \<Rightarrow> log_env \<Rightarrow> (logger \<times> log_env) option" where
  "log_bytes l bs e = map_option snd (log_write l bs (of_nat (length bs)) e)"

lemma holds_written:
  assumes "holds sz s (len, buf)" "0 < sz" "sz < 2147483648"
  shows "map_option snd (log_write l buf (of_nat len) e) = log_bytes l (take (sz - 1) s) e"
proof -
  have h: "length buf = sz" "len = min (length s) (sz - 1)" "take len buf = take (sz - 1) s"
    using assms(1) unfolding holds_def prod.case by blast+
  then have u: "unat (of_nat len :: u32) = len" using assms(2,3) by (intro unat_of_nat_32) linarith
  have "len = length (take (sz - 1) s)" using h(2) by simp
  then show ?thesis using log_write_take [of "of_nat len" buf l e] h u unfolding log_bytes_def by simp
qed

lemma debug_log_text:
  assumes "dl_logger d = Ptr l" "level \<le> dl_level d" "0 \<le> level" "level < 8"
  shows "debug_log (Ptr d) level header body e =
    map_option (\<lambda>(l, e'). (Ptr (d\<lparr>dl_logger := Ptr l\<rparr>), e'\<lparr>te_os := (te_os e')\<lparr>os_errno := os_errno (te_os e)\<rparr>\<rparr>))
      (log_bytes l (take (LOG_MAX_LEN - 1) (header @ body) @ [10]) e)"
proof -
  obtain len buf where lb: "add_text LOG_MAX_LEN body (add_text LOG_MAX_LEN header (0, replicate LOG_MAX_LEN 0)) = (len, buf)"
    by fastforce
  have sz: "0 < LOG_MAX_LEN" "LOG_MAX_LEN < 2147483648" by (simp_all add: LOG_MAX_LEN_def)
  have "holds LOG_MAX_LEN (header @ body) (len, buf)"
    using add_text_holds [OF sz add_text_holds [OF sz holds_empty [OF sz(1)]], of header body] lb by simp
  then have h: "length buf = LOG_MAX_LEN" "len = min (length (header @ body)) (LOG_MAX_LEN - 1)" "take len buf = take (LOG_MAX_LEN - 1) (header @ body)"
    unfolding holds_def prod.case by blast+
  let ?line = "take (LOG_MAX_LEN - 1) (header @ body) @ [10]"
  define buf' where "buf' = take len buf @ [10] @ drop (len + 1) buf"
  have w: "mem_write buf len [10] = Some buf'" using h(1,2) sz by (simp add: mem_write_def buf'_def)
  define n where "n = len + 1"
  have n: "n = length ?line" "n \<le> LOG_MAX_LEN" "length buf' = LOG_MAX_LEN" using h(1,2) sz by (simp_all add: n_def buf'_def)
  have un: "unat (of_nat n :: u32) = n" using n(2) sz by (intro unat_of_nat_32) linarith
  have "len < length buf" using h(1,2) sz by simp
  then have "take n buf' = take len buf @ [10]" by (simp add: n_def buf'_def)
  then have "take n buf' = ?line" using h(3) by simp
  then have "log_write l buf' (of_nat n) e = log_write l ?line (of_nat (length ?line)) e"
    using log_write_take [of "of_nat n" buf' l e] n un by simp
  then show ?thesis using assms lb w unfolding debug_log_def log_bytes_def n_def
    by (cases "log_write l buf' (of_nat (len + 1)) e") auto
qed

lemma log_hexdump_text:
  assumes "dl_logger d = Ptr l" "level \<le> dl_level d" "int (length data) = datalen"
  shows "log_hexdump d level data datalen e =
    map_option (\<lambda>(l, e'). (d\<lparr>dl_logger := Ptr l\<rparr>, e'\<lparr>te_os := (te_os e')\<lparr>os_errno := os_errno (te_os e)\<rparr>\<rparr>))
      (log_bytes l (take (8 * LOG_MAX_LEN - 1) (hex_text data 0)) e)"
proof -
  define sz where "sz = 8 * LOG_MAX_LEN"
  obtain len buf where lb: "hexdump_loop sz data 0 (0, replicate sz 0) = (len, buf)" by fastforce
  have sz: "0 < sz" "sz < 2147483648" by (simp_all add: sz_def LOG_MAX_LEN_def)
  have "holds sz (hex_text data 0) (len, buf)"
    using hexdump_loop_holds [OF sz holds_empty [OF sz(1)], of data 0] lb by simp
  from holds_written [OF this sz, of l e, symmetric] show ?thesis using assms lb unfolding log_hexdump_def sz_def [symmetric]
    by (cases "log_write l buf (of_nat len) e") (auto simp: mem_read_def)
qed

text \<open>The text of a metric in the log: its name and value, cut off after 63 bytes.\<close>

definition stats_text :: "(real \<Rightarrow> bytes) \<Rightarrow> named_metric \<Rightarrow> bytes" where
  "stats_text show_fpn x = take (PRINT_BUF_LEN - 1)
     (stats_log_fmt (nm_name x) (take (VALUE_PRINT_LEN - 1) (metric_text show_fpn (nm_metric x))))"

fun log_all :: "logger \<Rightarrow> bytes list \<Rightarrow> log_env \<Rightarrow> (logger \<times> log_env) option" where
  "log_all l [] e = Some (l, e)"
| "log_all l (t # ts) e = do { (l, e) \<leftarrow> log_bytes l t e; log_all l ts e }"

lemma metric_print_holds:
  assumes "length buf = sz" "0 < sz" "sz < 2147483648"
  shows "holds sz (fmt (nm_name x) (take (VALUE_PRINT_LEN - 1) (metric_text show_fpn (nm_metric x)))) (metric_print show_fpn buf sz fmt (Ptr x))"
proof -
  obtain n v where v: "add_text VALUE_PRINT_LEN (metric_text show_fpn (nm_metric x)) (0, replicate VALUE_PRINT_LEN 0) = (n, v)" by fastforce
  have vs: "0 < VALUE_PRINT_LEN" "VALUE_PRINT_LEN < 2147483648" by (simp_all add: VALUE_PRINT_LEN_def)
  have "holds VALUE_PRINT_LEN (metric_text show_fpn (nm_metric x)) (n, v)"
    using add_text_holds [OF vs holds_empty [OF vs(1)], of "metric_text show_fpn (nm_metric x)"] v by simp
  then have "take n v = take (VALUE_PRINT_LEN - 1) (metric_text show_fpn (nm_metric x))" unfolding holds_def prod.case by blast
  moreover have "holds sz [] (0, buf)" using assms by (simp add: holds_def)
  ultimately show ?thesis using add_text_holds [OF assms(2,3)] v by (fastforce simp: metric_print_def)
qed

lemma stats_loop_text:
  "length buf = PRINT_BUF_LEN \<Longrightarrow>
    map_option snd (stats_loop show_fpn xs buf l e) = log_all l (map (stats_text show_fpn) xs) e"
proof (induction xs arbitrary: buf l e)
  case (Cons x xs)
  obtain len buf' where m: "metric_print show_fpn buf PRINT_BUF_LEN stats_log_fmt (Ptr x) = (len, buf')" by fastforce
  have sz: "0 < PRINT_BUF_LEN" "PRINT_BUF_LEN < 2147483648" by (simp_all add: PRINT_BUF_LEN_def)
  have h: "holds PRINT_BUF_LEN (stats_log_fmt (nm_name x) (take (VALUE_PRINT_LEN - 1) (metric_text show_fpn (nm_metric x)))) (len, buf')"
    using metric_print_holds [OF Cons.prems sz, of stats_log_fmt x show_fpn] m by simp
  then have "length buf' = PRINT_BUF_LEN" unfolding holds_def prod.case by blast
  note IH = Cons.IH [OF this]
  have "log_bytes l (stats_text show_fpn x) e = map_option snd (log_write l buf' (of_nat len) e)"
    unfolding stats_text_def by (rule holds_written [OF h sz, symmetric])
  then show ?case using m IH by (cases "log_write l buf' (of_nat len) e") (auto simp: option.map_comp)
qed simp

text \<open>A dump of the metrics is their texts and an end of line.\<close>

lemma stats_log_text:
  assumes "sl_slog m = Ptr l" "length buf = PRINT_BUF_LEN"
  shows "map_option snd (stats_log show_fpn xs buf m e) =
    map_option (\<lambda>(l, e). (m\<lparr>sl_slog := Ptr l\<rparr>, e)) (log_all l (map (stats_text show_fpn) xs @ [[13, 10]]) e)"
proof -
  have app: "log_all l (ts @ [t]) e = do { (l, e) \<leftarrow> log_all l ts e; log_bytes l t e }" for l ts t e
    by (induction ts arbitrary: l e) (auto split: bind_splits)
  have b: "log_bytes l [13, 10] e = map_option snd (log_write l [13, 10] 2 e)" for l e by (simp add: log_bytes_def)
  show ?thesis
  proof (cases "stats_loop show_fpn xs buf l e")
    case None
    then show ?thesis using stats_loop_text [OF assms(2), of show_fpn xs l e, symmetric] assms(1) by (simp add: stats_log_def app)
  next
    case (Some r)
    obtain buf' l' e' where r: "r = (buf', l', e')" by (cases r)
    have "log_all l (map (stats_text show_fpn) xs) e = Some (l', e')"
      using stats_loop_text [OF assms(2), of show_fpn xs l e] Some r by simp
    then show ?thesis using Some r assms(1) by (cases "log_write l' [13, 10] 2 e'") (auto simp: stats_log_def app b)
  qed
qed


section \<open>Properties\<close>

text \<open>C27: a debug message through a buffered logger. A message whose level is above the level of the
  log changes nothing. Any other becomes one line: its header and text, cut off at 2559 bytes, and
  an end of line, however long the text is. The line is put whole at the end of what is buffered, or
  not at all when there is no room for it; the call always returns, issues no system call and leaves
  the caller's \<^verbatim>\<open>errno\<close> alone.\<close>

theorem debug_log_line:
  fixes header body :: bytes
  assumes "dl_logger d = Ptr l" and "lg_buf l = Ptr b" and "rb_wf b" and "0 \<le> level" and "level < 8"
  defines "line \<equiv> take 2559 (header @ body) @ [10]"
  shows "if dl_level d < level then debug_log (Ptr d) level header body e = Some (Ptr d, e)
    else \<exists>b' e'. debug_log (Ptr d) level header body e = Some (Ptr (d\<lparr>dl_logger := Ptr (l\<lparr>lg_buf := Ptr b'\<rparr>)\<rparr>), e') \<and>
      te_os e' = te_os e \<and> rb_wf b' \<and> rb_contents b' = rb_contents b @ (if length line \<le> rb_room b then line else [])"
proof (cases "dl_level d < level")
  case True
  then show ?thesis using assms(1) by (simp add: debug_log_def)
next
  case False
  have len: "length line < 4294967296" by (simp add: line_def)
  obtain b' e' where w: "log_write l line (of_nat (length line)) e = Some (length line \<le> rb_room b, l\<lparr>lg_buf := Ptr b'\<rparr>, e')"
      "te_os e' = te_os e" "rb_wf b'" "rb_contents b' = rb_contents b @ (if length line \<le> rb_room b then line else [])"
    using log_write_buffered [OF assms(2,3) len, of e] by blast
  have "debug_log (Ptr d) level header body e =
      Some (Ptr (d\<lparr>dl_logger := Ptr (l\<lparr>lg_buf := Ptr b'\<rparr>)\<rparr>), e'\<lparr>te_os := (te_os e')\<lparr>os_errno := os_errno (te_os e)\<rparr>\<rparr>)"
    using debug_log_text [OF assms(1) _ assms(4,5), of header body e] False w(1) by (simp add: LOG_MAX_LEN_def log_bytes_def line_def)
  then show ?thesis using False w(2-4) unfolding if_not_P [OF False] by (intro exI [of _ b'] exI [of _ "e'\<lparr>te_os := (te_os e')\<lparr>os_errno := os_errno (te_os e)\<rparr>\<rparr>"]) simp
qed

theorem debug_log_line_witness:
  "\<exists>d b e'. debug_log (Ptr \<lparr>dl_logger = Ptr \<lparr>lg_name = Null, lg_fd = 3, lg_buf = Ptr \<lparr>rb_rpos = 0, rb_wpos = 1, rb_cap = 7, rb_data = replicate 8 65\<rparr>\<rparr>, dl_level = 4\<rparr>)
      4 [66, 67] [68] log_sample = Some (Ptr d, e') \<and> dl_logger d = Ptr \<lparr>lg_name = Null, lg_fd = 3, lg_buf = Ptr b\<rparr> \<and>
      rb_contents b = [65, 66, 67, 68, 10]"
proof -
  let ?b = "\<lparr>rb_rpos = 0, rb_wpos = 1, rb_cap = 7, rb_data = replicate 8 65\<rparr>"
  let ?l = "\<lparr>lg_name = Null, lg_fd = 3, lg_buf = Ptr ?b\<rparr>"
  let ?d = "\<lparr>dl_logger = Ptr ?l, dl_level = 4\<rparr>"
  have wf: "rb_wf ?b" by (simp add: rb_wf_def)
  have "rb_contents ?b = [65]" "rb_room ?b = 6" by (simp_all add: rb_contents_def rb_room_def window_def)
  with debug_log_line [of ?d ?l ?b 4 "[66, 67]" "[68]" log_sample] wf show ?thesis by auto
qed

end
