(* ===== verification/Cc_Histogram.thy ===== *)
theory Cc_Histogram
  imports Cc_Prelude Cc_Mm Complex_Main
begin

text \<open>
  The histogram of \<^verbatim>\<open>src/stats/cc_histogram.c\<close> and \<^verbatim>\<open>include/cc_histogram.h\<close>: values are counted in
  buckets whose width grows with the value, and percentiles are read off the counts. The main facts
  are that the buckets cut the range into adjacent intervals, that the reported bucket is the one of
  the nearest-rank percentile of what was recorded, and that the report of several percentiles in
  one pass agrees with the single reports.

  The shift \<^verbatim>\<open>1 << k\<close> is one of 32-bit signed integers: it is undefined from 31 on. Doubles are real
  numbers with a rounding function \<open>rnd\<close> applied after every operation, a parameter of the model.
\<close>

datatype histo_rstatus = HISTO_OK | HISTO_EOVERFLOW | HISTO_EUNDERFLOW | HISTO_EEMPTY | HISTO_EORDER

text \<open>Memory that was allocated and not yet written holds \<open>None\<close>; reading it is undefined.\<close>

record percentile_profile =
  pp_cap :: u8
  pp_count :: u8
  pp_percentile :: "real option list"
  pp_result :: "u64 option list"
  pp_min :: "u64 option"
  pp_max :: "u64 option"

record histo_u32 =
  hi_m :: u32
  hi_r :: u32
  hi_n :: u32
  hi_M :: u64
  hi_R :: u64
  hi_N :: u64
  hi_G :: u64
  hi_nbucket :: u64
  hi_nrecord :: u64
  hi_buckets :: "u32 list"

definition HISTO_SIZE :: u64 where "HISTO_SIZE = 72"
definition PROFILE_SIZE :: u64 where "PROFILE_SIZE = 40"
definition DBL_EPSILON :: real where "DBL_EPSILON = 1 / 2 ^ 52"

definition c_shl1 :: "u64 \<Rightarrow> u64 option" where
  "c_shl1 k = (if k < 31 then Some (push_bit (unat k) 1) else None)"

definition c_shr :: "u64 \<Rightarrow> u32 \<Rightarrow> u64 option" where
  "c_shr v k = (if k < 64 then Some (drop_bit (unat k) v) else None)"

definition c_get :: "'a list \<Rightarrow> nat \<Rightarrow> 'a option" where
  "c_get xs i = (if i < length xs then Some (xs ! i) else None)"

definition c_put :: "'a list \<Rightarrow> nat \<Rightarrow> 'a \<Rightarrow> 'a list option" where
  "c_put xs i x = (if i < length xs then Some (xs[i := x]) else None)"


section \<open>Creating and recording\<close>

definition histo_u32_reset :: "histo_u32 \<Rightarrow> histo_u32" where
  "histo_u32_reset h = h\<lparr>hi_nrecord := 0, hi_buckets := replicate (unat (hi_nbucket h)) 0\<rparr>"

definition histo_u32_create :: "malloc_fn \<Rightarrow> u32 \<Rightarrow> u32 \<Rightarrow> u32 \<Rightarrow> histo_u32 ptr option" where
  "histo_u32_create malloc m r n =
     (if r \<le> m \<or> r > n \<or> n > 64 then Some Null
      else if cc_alloc malloc HISTO_SIZE = Null then Some Null
      else do {
        sm \<leftarrow> c_shl1 (ucast m);
        sr \<leftarrow> c_shl1 (ucast r);
        sn \<leftarrow> c_shl1 (ucast n);
        sg \<leftarrow> c_shl1 (ucast (r - m - 1));
        let nbucket = ucast (n - r + 2) * sg;
        if cc_alloc malloc (nbucket * 4) = Null then Some Null
        else Some (Ptr (histo_u32_reset
          \<lparr>hi_m = m, hi_r = r, hi_n = n, hi_M = sm, hi_R = sr - 1, hi_N = sn - 1, hi_G = sg, hi_nbucket = nbucket,
           hi_nrecord = 0, hi_buckets = []\<rparr>))
      })"

definition histo_u32_destroy :: "histo_u32 ptr ptr \<Rightarrow> histo_u32 ptr ptr option" where
  "histo_u32_destroy h = do {
     ASSERT (h \<noteq> Null);
     Some (Ptr Null)
   }"

text \<open>The position of the highest bit that is set, and the number of zeros above it in 64 bits.\<close>

fun top_bit :: "nat \<Rightarrow> nat" where
  "top_bit n = (if n < 2 then 0 else Suc (top_bit (n div 2)))"

declare top_bit.simps [simp del]

definition builtin_clzll :: "u64 \<Rightarrow> u32" where
  "builtin_clzll v = of_nat (63 - top_bit (unat v))"

definition bucket_offset :: "u64 \<Rightarrow> u32 \<Rightarrow> u32 \<Rightarrow> u64 \<Rightarrow> u64 option" where
  "bucket_offset value m r G =
     (let v = (if value = 0 then 1 else 0) + value; h = 63 - builtin_clzll v in
      if h < r then c_shr value m
      else do {
        let d = h - r + 1;
        s \<leftarrow> c_shl1 (ucast h);
        q \<leftarrow> c_shr (value - s) (m + d);
        Some (ucast (d + 1) * G + q)
      })"

definition histo_u32_record :: "histo_u32 \<Rightarrow> u64 \<Rightarrow> u32 \<Rightarrow> (histo_rstatus \<times> histo_u32) option" where
  "histo_u32_record h value count =
     (if value > hi_N h then Some (HISTO_EOVERFLOW, h)
      else do {
        offset \<leftarrow> bucket_offset value (hi_m h) (hi_r h) (hi_G h);
        c \<leftarrow> c_get (hi_buckets h) (unat offset);
        bs \<leftarrow> c_put (hi_buckets h) (unat offset) (c + count);
        Some (HISTO_OK, h\<lparr>hi_buckets := bs, hi_nrecord := hi_nrecord h + ucast count\<rparr>)
      })"

text \<open>
  The bounds of a bucket. Both summands are computed and one is multiplied by 0, so the shifts of the
  summand that does not count must be defined too.
\<close>

definition bucket_low :: "histo_u32 \<Rightarrow> u64 \<Rightarrow> u64 option" where
  "bucket_low h bucket = do {
     g \<leftarrow> c_shr bucket (hi_r h - hi_m h - 1);
     let b = bucket - g * hi_G h;
     s0 \<leftarrow> c_shl1 (ucast (hi_m h));
     s1 \<leftarrow> c_shl1 (ucast (hi_r h) + g - 2);
     s2 \<leftarrow> c_shl1 (ucast (hi_m h) + g - 1);
     Some ((if g = 0 then 1 else 0) * (s0 * b) + (if g > 0 then 1 else 0) * (s1 + s2 * b))
   }"

definition bucket_high :: "histo_u32 \<Rightarrow> u64 \<Rightarrow> u64 option" where
  "bucket_high h bucket = do {
     g \<leftarrow> c_shr bucket (hi_r h - hi_m h - 1);
     let b = bucket - g * hi_G h + 1;
     s0 \<leftarrow> c_shl1 (ucast (hi_m h));
     s1 \<leftarrow> c_shl1 (ucast (hi_r h) + g - 2);
     s2 \<leftarrow> c_shl1 (ucast (hi_m h) + g - 1);
     Some ((if g = 0 then 1 else 0) * (s0 * b - 1) + (if g > 0 then 1 else 0) * (s1 + s2 * b - 1))
   }"


section \<open>Reports\<close>

definition greater_dbl :: "(real \<Rightarrow> real) \<Rightarrow> real \<Rightarrow> real \<Rightarrow> bool" where
  "greater_dbl rnd a b \<longleftrightarrow> rnd (a - b) \<ge> DBL_EPSILON"

definition lesser_dbl :: "(real \<Rightarrow> real) \<Rightarrow> real \<Rightarrow> real \<Rightarrow> bool" where
  "lesser_dbl rnd a b \<longleftrightarrow> rnd (b - a) \<ge> DBL_EPSILON"

definition equal_dbl :: "(real \<Rightarrow> real) \<Rightarrow> real \<Rightarrow> real \<Rightarrow> bool" where
  "equal_dbl rnd a b \<longleftrightarrow> \<bar>rnd (b - a)\<bar> < DBL_EPSILON"

text \<open>The conversion of a double to an unsigned integer is undefined when its value does not fit.\<close>

definition threshold :: "(real \<Rightarrow> real) \<Rightarrow> u64 \<Rightarrow> real \<Rightarrow> u64 option" where
  "threshold rnd nrecord percentile =
     (let x = \<lceil>rnd (rnd (percentile * rnd (real (unat nrecord))) / 100)\<rceil> in
      if 0 \<le> x \<and> x < 2 ^ 64 then Some (word_of_int x) else None)"

lemma unat_next: "i < n \<Longrightarrow> unat (i + 1) = unat i + 1" for i n :: u64
proof -
  assume "i < n"
  then have "unat i + 1 < 18446744073709551616" using unat_u64_lt [of n] unfolding word_less_nat_alt by linarith
  then show ?thesis by (simp add: unat_word_ariths)
qed

lemma scan_measure: "i < n \<Longrightarrow> unat n - unat (i + 1) < unat n - unat i" for i n :: u64
  using unat_next [of i n] by (simp add: word_less_nat_alt)

function skip_empty :: "u32 list \<Rightarrow> u64 \<Rightarrow> u64 \<Rightarrow> u64 option" where
  "skip_empty bs nbucket offset =
     (if offset < nbucket then do {
        c \<leftarrow> c_get bs (unat offset);
        if c = 0 then skip_empty bs nbucket (offset + 1) else Some offset
      } else Some offset)"
  by pat_completeness auto
termination
  by (relation "measure (\<lambda>(bs, nbucket, offset). unat nbucket - unat offset)")
    (auto intro: scan_measure)

function report_loop :: "u32 list \<Rightarrow> u64 \<Rightarrow> u64 \<Rightarrow> u64 \<Rightarrow> u64 \<Rightarrow> u64 \<Rightarrow> u64 option" where
  "report_loop bs nbucket rthreshold offset rcount value =
     (if offset < nbucket \<and> rcount < rthreshold then do {
        c \<leftarrow> c_get bs (unat offset);
        report_loop bs nbucket rthreshold (offset + 1) (rcount + ucast c) offset
      } else Some value)"
  by pat_completeness auto
termination
  by (relation "measure (\<lambda>(bs, nbucket, rthreshold, offset, rcount, value). unat nbucket - unat offset)")
    (auto intro: scan_measure)

declare skip_empty.simps [simp del] report_loop.simps [simp del]

definition histo_u32_report :: "(real \<Rightarrow> real) \<Rightarrow> histo_u32 \<Rightarrow> real \<Rightarrow> (histo_rstatus \<times> u64 option) option" where
  "histo_u32_report rnd h p =
     (if greater_dbl rnd p 100 then Some (HISTO_EOVERFLOW, None)
      else if lesser_dbl rnd p 0 then Some (HISTO_EUNDERFLOW, None)
      else if hi_nrecord h = 0 then Some (HISTO_EEMPTY, None)
      else do {
        rthreshold \<leftarrow> threshold rnd (hi_nrecord h) p;
        offset \<leftarrow> skip_empty (hi_buckets h) (hi_nbucket h) 0;
        value \<leftarrow> report_loop (hi_buckets h) (hi_nbucket h) rthreshold offset 0 offset;
        Some (HISTO_OK, Some value)
      })"

text \<open>The report of all percentiles of a profile: the inner scan, the loop over the percentiles that
  the same bucket satisfies, and the two together.\<close>

function multi_scan :: "u32 list \<Rightarrow> u64 \<Rightarrow> u64 \<Rightarrow> u64 \<Rightarrow> u64 \<Rightarrow> u64 \<Rightarrow> (u64 \<times> u64 \<times> u64) option" where
  "multi_scan bs nbucket rthreshold cur rcount offset =
     (if cur < nbucket \<and> rcount < rthreshold then do {
        c \<leftarrow> c_get bs (unat cur);
        if c > 0 then multi_scan bs nbucket rthreshold (cur + 1) (rcount + ucast c) cur
        else multi_scan bs nbucket rthreshold (cur + 1) rcount offset
      } else Some (cur, rcount, offset))"
  by pat_completeness auto
termination
  by (relation "measure (\<lambda>(bs, nbucket, rthreshold, cur, rcount, offset). unat nbucket - unat cur)")
    (auto intro: scan_measure)

declare multi_scan.simps [simp del]

definition profile_threshold :: "(real \<Rightarrow> real) \<Rightarrow> u64 \<Rightarrow> real option list \<Rightarrow> nat \<Rightarrow> u64 option" where
  "profile_threshold rnd nrecord ps i = do { p \<leftarrow> c_get ps i; x \<leftarrow> p; threshold rnd nrecord x }"

fun multi_fill ::
  "(real \<Rightarrow> real) \<Rightarrow> u64 \<Rightarrow> real option list \<Rightarrow> u64 \<Rightarrow> u64 \<Rightarrow> nat \<Rightarrow> nat \<Rightarrow> u64 option list \<Rightarrow> u64 \<Rightarrow>
   (nat \<times> nat \<times> u64 option list \<times> u64) option" where
  "multi_fill rnd nrecord ps rcount offset 0 i vs rthreshold = None"
| "multi_fill rnd nrecord ps rcount offset (Suc count) i vs rthreshold = do {
     vs \<leftarrow> c_put vs i (Some offset);
     if count = 0 then Some (count, i, vs, rthreshold)
     else do {
       rthreshold \<leftarrow> profile_threshold rnd nrecord ps (i + 1);
       if rthreshold \<le> rcount then multi_fill rnd nrecord ps rcount offset count (i + 1) vs rthreshold
       else Some (count, i + 1, vs, rthreshold)
     }
   }"

lemma multi_fill_count: "multi_fill rnd nrecord ps rcount offset count i vs t = Some (count', r) \<Longrightarrow> count' < count"
  by (induction rnd nrecord ps rcount offset count i vs t rule: multi_fill.induct)
    (fastforce split: bind_splits if_splits)+

function multi_loop ::
  "(real \<Rightarrow> real) \<Rightarrow> histo_u32 \<Rightarrow> real option list \<Rightarrow> u64 \<Rightarrow> u64 \<Rightarrow> u64 \<Rightarrow> nat \<Rightarrow> nat \<Rightarrow> u64 option list \<Rightarrow> u64 \<Rightarrow>
   (u64 \<times> u64 \<times> u64 option list) option" where
  "multi_loop rnd h ps cur rcount offset count i vs rthreshold =
     (if cur < hi_nbucket h \<and> count > 0
      then (case multi_scan (hi_buckets h) (hi_nbucket h) rthreshold cur rcount offset of
              None \<Rightarrow> None
            | Some (cur, rcount, offset) \<Rightarrow>
                (case multi_fill rnd (hi_nrecord h) ps rcount offset count i vs rthreshold of
                   None \<Rightarrow> None
                 | Some (count, i, vs, rthreshold) \<Rightarrow> multi_loop rnd h ps cur rcount offset count i vs rthreshold))
      else Some (cur, offset, vs))"
  by pat_completeness auto
termination
  by (relation "measure (\<lambda>(rnd, h, ps, cur, rcount, offset, count, i, vs, t). count)")
    (auto dest: multi_fill_count)

declare multi_loop.simps [simp del]

text \<open>The last loop, which means to find the highest bucket in use, assigns \<open>offset\<close>.\<close>

function max_loop :: "u32 list \<Rightarrow> u64 \<Rightarrow> u64 \<Rightarrow> u64 \<Rightarrow> u64 \<Rightarrow> u64 option" where
  "max_loop bs nbucket offset cur mx =
     (if cur < nbucket then do {
        c \<leftarrow> c_get bs (unat cur);
        max_loop bs nbucket offset (cur + 1) (mx * (if c = 0 then 1 else 0) + offset * (if c = 0 then 0 else 1))
      } else Some mx)"
  by pat_completeness auto
termination
  by (relation "measure (\<lambda>(bs, nbucket, offset, cur, mx). unat nbucket - unat cur)")
    (auto intro: scan_measure)

declare max_loop.simps [simp del]

definition histo_u32_report_multi ::
  "(real \<Rightarrow> real) \<Rightarrow> percentile_profile \<Rightarrow> histo_u32 \<Rightarrow> (histo_rstatus \<times> percentile_profile) option" where
  "histo_u32_report_multi rnd pp h =
     (if hi_nrecord h = 0 then Some (HISTO_EEMPTY, pp)
      else do {
        low \<leftarrow> skip_empty (hi_buckets h) (hi_nbucket h) 0;
        rthreshold \<leftarrow> profile_threshold rnd (hi_nrecord h) (pp_percentile pp) 0;
        (cur, offset, vs) \<leftarrow> multi_loop rnd h (pp_percentile pp) low 0 low (unat (pp_count pp)) 0 (pp_result pp) rthreshold;
        mx \<leftarrow> max_loop (hi_buckets h) (hi_nbucket h) offset cur offset;
        Some (HISTO_OK, pp\<lparr>pp_result := vs, pp_min := Some low, pp_max := Some mx\<rparr>)
      })"


section \<open>Profiles\<close>

definition percentile_profile_create :: "malloc_fn \<Rightarrow> u8 \<Rightarrow> percentile_profile ptr" where
  "percentile_profile_create malloc cap =
     (if cc_alloc malloc PROFILE_SIZE = Null then Null
      else if cc_alloc malloc (ucast cap * 8) = Null then Null
      else if cc_alloc malloc (ucast cap * 8) = Null then Null
      else Ptr \<lparr>pp_cap = cap, pp_count = 0, pp_percentile = replicate (unat cap) None, pp_result = replicate (unat cap) None,
                pp_min = None, pp_max = None\<rparr>)"

definition percentile_profile_destroy :: "percentile_profile ptr ptr \<Rightarrow> percentile_profile ptr ptr option" where
  "percentile_profile_destroy pp = do {
     ASSERT (pp \<noteq> Null);
     Some (Ptr Null)
   }"

fun profile_loop :: "(real \<Rightarrow> real) \<Rightarrow> real list \<Rightarrow> nat \<Rightarrow> nat \<Rightarrow> real \<Rightarrow> real option list \<Rightarrow> (histo_rstatus \<times> real option list) option" where
  "profile_loop rnd percentile i 0 last_p dst = Some (HISTO_OK, dst)"
| "profile_loop rnd percentile i (Suc count) last_p dst = do {
     src \<leftarrow> c_get percentile i;
     if greater_dbl rnd src 100 then Some (HISTO_EOVERFLOW, dst)
     else if lesser_dbl rnd src 0 then Some (HISTO_EUNDERFLOW, dst)
     else if lesser_dbl rnd src last_p \<or> equal_dbl rnd src last_p then Some (HISTO_EORDER, dst)
     else do {
       dst \<leftarrow> c_put dst i (Some src);
       profile_loop rnd percentile (i + 1) count src dst
     }
   }"

definition percentile_profile_set ::
  "(real \<Rightarrow> real) \<Rightarrow> percentile_profile \<Rightarrow> real list \<Rightarrow> u8 \<Rightarrow> (histo_rstatus \<times> percentile_profile) option" where
  "percentile_profile_set rnd pp percentile count = do {
     (st, dst) \<leftarrow> profile_loop rnd percentile 0 (unat count) (- 1) (pp_percentile pp);
     Some (st, pp\<lparr>pp_count := count, pp_percentile := dst\<rparr>)
   }"


section \<open>The buckets over the naturals\<close>

lemma top_bit_bounds: "0 < n \<Longrightarrow> 2 ^ top_bit n \<le> n \<and> n < 2 ^ Suc (top_bit n)"
proof (induction n rule: top_bit.induct)
  case (1 n)
  show ?case
  proof (cases "n < 2")
    case False
    define t where "t = (2::nat) ^ top_bit (n div 2)"
    have "t \<le> n div 2 \<and> n div 2 < 2 * t" using 1 False by (simp add: t_def)
    moreover have "top_bit n = Suc (top_bit (n div 2))" using False by (subst top_bit.simps) simp
    then have "2 ^ top_bit n = 2 * t" by (simp add: t_def)
    ultimately show ?thesis unfolding power_Suc by linarith
  qed (use 1 in \<open>simp add: top_bit.simps\<close>)
qed

lemma top_bit_less: "0 < n \<Longrightarrow> n < 2 ^ k \<Longrightarrow> top_bit n < k"
  using top_bit_bounds [of n] power_less_imp_less_exp [of "2::nat" "top_bit n" k] by (meson le_less_trans one_less_numeral_iff semiring_norm(76))

lemma top_bit_ge: "2 ^ k \<le> n \<Longrightarrow> k \<le> top_bit n"
  using top_bit_bounds [of n] power_less_imp_less_exp [of "2::nat" k "Suc (top_bit n)"]
  by (cases "n = 0") auto

definition offset_of :: "nat \<Rightarrow> nat \<Rightarrow> nat \<Rightarrow> nat" where
  "offset_of m r v =
     (if v < 2 ^ r then v div 2 ^ m
      else (top_bit v - r + 2) * 2 ^ (r - m - 1) + (v - 2 ^ top_bit v) div 2 ^ (m + (top_bit v - r + 1)))"

text \<open>The width and the lower end of the \<open>b\<close>-th bucket of the group \<open>g\<close>.\<close>

definition width_of :: "nat \<Rightarrow> nat \<Rightarrow> nat" where
  "width_of m g = (if g = 0 then 2 ^ m else 2 ^ (m + g - 1))"

definition start_of :: "nat \<Rightarrow> nat \<Rightarrow> nat \<Rightarrow> nat \<Rightarrow> nat" where
  "start_of m r g b = (if g = 0 then 2 ^ m * b else 2 ^ (r + g - 2) + 2 ^ (m + g - 1) * b)"

definition low_of :: "nat \<Rightarrow> nat \<Rightarrow> nat \<Rightarrow> nat" where
  "low_of m r k = start_of m r (k div 2 ^ (r - m - 1)) (k mod 2 ^ (r - m - 1))"

lemma start_of_next: "start_of m r g (Suc b) = start_of m r g b + width_of m g"
  by (simp add: start_of_def width_of_def)

lemma start_of_group: "m < r \<Longrightarrow> start_of m r g (2 ^ (r - m - 1)) = start_of m r (Suc g) 0"
proof (cases g)
  case 0
  assume "m < r"
  then have "m + (r - m - 1) = r - 1" by simp
  then show ?thesis using 0 by (simp add: start_of_def flip: power_add)
next
  case (Suc i)
  assume "m < r"
  then have e: "m + g - 1 + (r - m - 1) = r + g - 2" "r + Suc g - 2 = Suc (r + g - 2)" using Suc by simp_all
  have "start_of m r g (2 ^ (r - m - 1)) = 2 ^ (r + g - 2) + 2 ^ (m + g - 1 + (r - m - 1))" using Suc by (simp add: start_of_def power_add)
  also have "\<dots> = start_of m r (Suc g) 0" unfolding start_of_def e by simp
  finally show ?thesis .
qed

lemma div_mod_Suc:
  fixes G :: nat
  assumes "0 < G"
  shows "if Suc (k mod G) < G then Suc k div G = k div G \<and> Suc k mod G = Suc (k mod G)
         else Suc k div G = Suc (k div G) \<and> Suc k mod G = 0 \<and> G = Suc (k mod G)"
  using assms mod_less_divisor [OF assms, of k] by (auto simp: div_Suc mod_Suc)

text \<open>The buckets are adjacent.\<close>

lemma low_of_next: "m < r \<Longrightarrow> low_of m r (Suc k) = low_of m r k + width_of m (k div 2 ^ (r - m - 1))"
  using div_mod_Suc [of "2 ^ (r - m - 1)" k] start_of_next [of m r "k div 2 ^ (r - m - 1)" "k mod 2 ^ (r - m - 1)"]
    start_of_group [of m r "k div 2 ^ (r - m - 1)"]
  by (auto simp: low_of_def split: if_splits)

lemma width_of_pos: "0 < width_of m g"
  by (simp add: width_of_def)

lemma low_of_mono: "m < r \<Longrightarrow> j \<le> k \<Longrightarrow> low_of m r j \<le> low_of m r k"
  by (induction k rule: nat_induct) (auto simp: le_Suc_eq low_of_next)

text \<open>A value lies in the bucket that it is counted in.\<close>

lemma offset_of_within:
  assumes "m < r"
  shows "low_of m r (offset_of m r v) \<le> v \<and> v < low_of m r (Suc (offset_of m r v))"
proof -
  let ?G = "2 ^ (r - m - 1) :: nat"
  have inside: "low_of m r k \<le> v \<and> v < low_of m r (Suc k)"
    if "k = g * ?G + b" "b < ?G" "start_of m r g b \<le> v" "v < start_of m r g b + width_of m g" for k g b
    using that low_of_next [OF assms, of k] by (simp add: low_of_def)
  show ?thesis
  proof (cases "v < 2 ^ r")
    case True
    have split: "v = 2 ^ m * (v div 2 ^ m) + v mod 2 ^ m" "v mod 2 ^ m < (2::nat) ^ m" by simp_all
    have up: "v < 2 ^ m * (v div 2 ^ m) + 2 ^ m" using split by linarith
    have r: "(2::nat) ^ r = 2 ^ m * (2 * ?G)" using assms by (simp flip: power_add power_Suc)
    have k: "v div 2 ^ m < 2 * ?G" using True unfolding r by (simp add: less_mult_imp_div_less mult.commute)
    have G: "(2::nat) ^ (r - 1) = 2 ^ m * ?G" using assms by (simp flip: power_add)
    show ?thesis
    proof (cases "v div 2 ^ m < ?G")
      case t: True
      have "v < start_of m r 0 (v div 2 ^ m) + width_of m 0" unfolding start_of_def width_of_def using up by simp
      then show ?thesis using True t inside [of "v div 2 ^ m" 0 "v div 2 ^ m"] by (simp add: offset_of_def start_of_def)
    next
      case False
      then have "v div 2 ^ m = 1 * ?G + (v div 2 ^ m - ?G)" "v div 2 ^ m - ?G < ?G" using k by simp_all
      moreover have "start_of m r 1 (v div 2 ^ m - ?G) = 2 ^ m * (v div 2 ^ m)"
        using False G by (simp add: start_of_def diff_mult_distrib2)
      moreover have "v < 2 ^ m * (v div 2 ^ m) + width_of m 1" unfolding width_of_def using up by simp
      ultimately show ?thesis using True inside [of "v div 2 ^ m" 1 "v div 2 ^ m - ?G"] by (simp add: offset_of_def)
    qed
  next
    case False
    define h where "h = top_bit v"
    define d where "d = h - r + 1"
    have "2 ^ r \<le> v" "0 < v" using False by (auto intro: gr0I)
    then have h: "r \<le> h" "2 ^ h \<le> v" "v < 2 ^ h + 2 ^ h" using top_bit_ge [of r v] top_bit_bounds [of v] by (simp_all add: h_def)
    have e: "h = m + d + (r - m - 1)" using h(1) assms by (simp add: d_def)
    have H: "(2::nat) ^ h = 2 ^ (m + d) * ?G" by (subst e) (simp only: power_add)
    let ?b = "(v - 2 ^ h) div 2 ^ (m + d)"
    have b: "?b < ?G" using h(2,3) H by (simp add: less_mult_imp_div_less mult.commute)
    have w: "width_of m (d + 1) = 2 ^ (m + d)" "start_of m r (d + 1) ?b = 2 ^ h + 2 ^ (m + d) * ?b"
      using h(1) by (simp_all add: width_of_def start_of_def d_def)
    have split: "v - 2 ^ h = 2 ^ (m + d) * ?b + (v - 2 ^ h) mod 2 ^ (m + d)" "(v - 2 ^ h) mod 2 ^ (m + d) < (2::nat) ^ (m + d)" by simp_all
    have "offset_of m r v = (d + 1) * ?G + ?b" using False by (simp add: offset_of_def h_def d_def)
    then show ?thesis using inside [OF _ b, of "offset_of m r v" "d + 1"] w split h(2) by linarith
  qed
qed

lemma offset_of_mono:
  assumes "m < r" "u \<le> v"
  shows "offset_of m r u \<le> offset_of m r v"
proof (rule ccontr)
  assume "\<not> ?thesis"
  then have "low_of m r (Suc (offset_of m r v)) \<le> low_of m r (offset_of m r u)" by (intro low_of_mono assms(1)) simp
  then show False using offset_of_within [OF assms(1), of u] offset_of_within [OF assms(1), of v] assms(2) by linarith
qed

lemma offset_of_bound:
  assumes "m < r" "r \<le> n" "v < 2 ^ n"
  shows "offset_of m r v < (n - r + 2) * 2 ^ (r - m - 1)"
proof (rule ccontr)
  let ?G = "2 ^ (r - m - 1) :: nat"
  assume "\<not> ?thesis"
  then have "low_of m r ((n - r + 2) * ?G) \<le> low_of m r (offset_of m r v)" by (intro low_of_mono assms(1)) simp
  moreover have "low_of m r ((n - r + 2) * ?G) = 2 ^ n" using assms by (simp add: low_of_def start_of_def)
  ultimately show False using offset_of_within [OF assms(1), of v] assms(3) by linarith
qed


section \<open>The buckets of a histogram\<close>

definition histo_wf :: "histo_u32 \<Rightarrow> bool" where
  "histo_wf h \<longleftrightarrow> unat (hi_m h) < unat (hi_r h) \<and> unat (hi_r h) \<le> unat (hi_n h) \<and> unat (hi_n h) \<le> 30 \<and>
     unat (hi_N h) = 2 ^ unat (hi_n h) - 1 \<and> unat (hi_G h) = 2 ^ (unat (hi_r h) - unat (hi_m h) - 1) \<and>
     unat (hi_nbucket h) = (unat (hi_n h) - unat (hi_r h) + 2) * 2 ^ (unat (hi_r h) - unat (hi_m h) - 1) \<and>
     length (hi_buckets h) = unat (hi_nbucket h)"

lemma pow_31: "k < 31 \<Longrightarrow> (2::nat) ^ k \<le> 1073741824"
  using power_increasing [of k 30 "2::nat"] by simp

lemma c_shl1_Some: "unat k < 31 \<Longrightarrow> \<exists>s. c_shl1 k = Some s \<and> unat s = 2 ^ unat k"
proof -
  assume k: "unat k < 31"
  have "push_bit (unat k) (1 :: u64) = of_nat (2 ^ unat k)" by simp
  then have "unat (push_bit (unat k) 1 :: u64) = 2 ^ unat k" using pow_31 [OF k] by (simp only:) (rule unat_of_nat_64, linarith)
  then show ?thesis using k by (simp add: c_shl1_def word_less_nat_alt)
qed

lemma c_shl1_D: "c_shl1 k = Some s \<Longrightarrow> unat k < 31 \<and> unat s = 2 ^ unat k"
  using c_shl1_Some [of k] by (auto simp: c_shl1_def word_less_nat_alt split: if_splits)

lemma c_shr_Some: "unat k < 64 \<Longrightarrow> \<exists>q. c_shr v k = Some q \<and> unat q = unat v div 2 ^ unat k"
proof -
  have "unat (drop_bit (unat k) v) = unat v div 2 ^ unat k" unfolding unat_drop_bit_eq by (rule drop_bit_eq_div)
  then show "unat k < 64 \<Longrightarrow> ?thesis" by (simp add: c_shr_def word_less_nat_alt)
qed

lemma histo_create_wf:
  assumes "histo_u32_create malloc m r n = Some (Ptr h)"
  shows "histo_wf h \<and> hi_nrecord h = 0 \<and> hi_buckets h = replicate (unat (hi_nbucket h)) 0 \<and> hi_m h = m \<and> hi_r h = r \<and> hi_n h = n"
proof -
  obtain sm sr sn sg where s: "m < r" "r \<le> n" "c_shl1 (ucast m) = Some sm" "c_shl1 (ucast r) = Some sr" "c_shl1 (ucast n) = Some sn"
      "c_shl1 (ucast (r - m - 1)) = Some sg"
      "h = histo_u32_reset \<lparr>hi_m = m, hi_r = r, hi_n = n, hi_M = sm, hi_R = sr - 1, hi_N = sn - 1, hi_G = sg,
         hi_nbucket = ucast (n - r + 2) * sg, hi_nrecord = 0, hi_buckets = []\<rparr>"
    using assms by (auto simp: histo_u32_create_def Let_def not_le not_less split: if_splits bind_splits)
  have n: "unat n < 31" "unat sn = 2 ^ unat n" using c_shl1_D [OF s(5)] by simp_all
  have le: "unat m < unat r" "unat r \<le> unat n" using s(1,2) by (simp_all add: word_less_nat_alt word_le_nat_alt)
  have one: "1 \<le> r - m" using s(1) by (metis word_less_1 not_less right_minus_eq less_irrefl)
  have "unat (r - m - 1) = unat r - unat m - 1" using s(1) one by (simp add: unat_sub word_le_nat_alt [symmetric] order_less_imp_le)
  then have g: "unat sg = 2 ^ (unat r - unat m - 1)" using c_shl1_D [OF s(6)] by simp
  have nr: "unat (n - r + 2) = unat n - unat r + 2" using s(2) n(1) by (simp add: unat_word_ariths unat_sub)
  have "unat sg \<le> 1073741824" using g pow_31 [of "unat r - unat m - 1"] le n(1) by simp
  moreover have "unat (n - r + 2) \<le> 33" using nr n(1) by linarith
  ultimately have "unat (n - r + 2) * unat sg \<le> 33 * 1073741824" by (intro mult_mono) simp_all
  then have "unat (n - r + 2) * unat sg < 18446744073709551616" by simp
  then have nb: "unat (ucast (n - r + 2) * sg) = (unat n - unat r + 2) * 2 ^ (unat r - unat m - 1)"
    using nr g by (simp add: unat_word_ariths)
  have "unat (sn - 1) = 2 ^ unat n - 1" using n by (simp add: unat_minus_one unat_gt_0 [symmetric])
  then show ?thesis using s(7) n(1) le g nb by (simp add: histo_wf_def histo_u32_reset_def)
qed

lemma offset_small:
  assumes "m < r" "r \<le> n" "n \<le> 30" "v < 2 ^ n"
  shows "offset_of m r v < 18446744073709551616"
proof -
  have "offset_of m r v < (n - r + 2) * 2 ^ (r - m - 1)" using offset_of_bound assms by blast
  also have "\<dots> \<le> 32 * 1073741824" using assms pow_31 [of "r - m - 1"] by (intro mult_mono) simp_all
  finally show ?thesis by simp
qed

lemma bucket_offset_nat:
  assumes w: "unat m < unat r" "unat r \<le> n" "n \<le> 30" "unat v < 2 ^ n" and G: "unat G = 2 ^ (unat r - unat m - 1)"
  shows "\<exists>q. bucket_offset v m r G = Some q \<and> unat q = offset_of (unat m) (unat r) (unat v)"
proof -
  define x where "x = (if v = 0 then 1 else 0) + v"
  define t where "t = top_bit (unat x)"
  have xv: "v \<noteq> 0 \<Longrightarrow> x = v" "v = 0 \<Longrightarrow> x = 1" by (simp_all add: x_def)
  have x0: "0 < unat x" using xv by (cases "v = 0") (simp_all add: unat_gt_0)
  have "unat x < 2 ^ n" using w xv one_less_power [of "2::nat" n] by (cases "v = 0") simp_all
  with x0 have t: "t < n" "2 ^ t \<le> unat x" unfolding t_def by (simp_all add: top_bit_less top_bit_bounds)
  have clz: "63 - builtin_clzll x = of_nat t"
  proof -
    have "(of_nat (63 - t) :: u32) = 63 - of_nat t" using t(1) w(3) by (simp add: of_nat_diff)
    then show ?thesis by (simp add: builtin_clzll_def t_def)
  qed
  have ut: "unat (of_nat t :: u32) = t" using t w by (simp add: unat_of_nat_32)
  show ?thesis
  proof (cases "t < unat r")
    case True
    have "unat v < 2 ^ unat r"
    proof (cases "v = 0")
      case False
      then have "unat v < 2 ^ Suc t" using top_bit_bounds [of "unat x"] xv by (simp add: t_def unat_gt_0)
      also have "\<dots> \<le> 2 ^ unat r" using True by (intro power_increasing) simp_all
      finally show ?thesis .
    qed simp
    moreover have "(63 - builtin_clzll x) < r" using True ut by (simp add: clz word_less_nat_alt)
    ultimately show ?thesis using c_shr_Some [of m v] w by (simp add: bucket_offset_def Let_def offset_of_def x_def)
  next
    case False
    have v0: "v \<noteq> 0" using False w(1) xv(2) by (auto simp: t_def top_bit.simps)
    then have tv: "t = top_bit (unat v)" "2 ^ t \<le> unat v" using xv(1) t(2) by (simp_all add: t_def)
    have big: "\<not> unat v < 2 ^ unat r" using tv(2) power_increasing [of "unat r" t "2::nat"] False unfolding not_less by linarith
    define d where "d = of_nat t - r + 1"
    have d: "unat d = t - unat r + 1"
    proof -
      have "unat (of_nat t - r) = t - unat r" using False ut by (simp add: unat_sub word_le_nat_alt)
      then show ?thesis using t(1) w(3) by (simp add: d_def unat_add1_u32)
    qed
    have md: "unat (m + d) = unat m + unat d" "unat (d + 1) = unat d + 1" using d t w by (simp_all add: unat_add1_u32 unat_word_ariths)
    obtain s where s: "c_shl1 (ucast (of_nat t :: u32)) = Some s" "unat s = 2 ^ t" using c_shl1_Some [of "ucast (of_nat t :: u32)"] ut t w by auto
    have "unat (m + d) < 64" using md d t w by linarith
    then obtain q where q: "c_shr (v - s) (m + d) = Some q" "unat q = unat (v - s) div 2 ^ (unat m + unat d)"
      using c_shr_Some [of "m + d" "v - s"] unfolding md(1) by blast
    have vs: "unat (v - s) = unat v - 2 ^ t" using s tv by (simp add: unat_sub word_le_nat_alt)
    have "bucket_offset v m r G = Some (ucast (d + 1) * G + q)"
      using False s q ut unfolding bucket_offset_def Let_def x_def [symmetric] clz d_def [symmetric] by (simp add: word_less_nat_alt)
    moreover have "unat (ucast (d + 1) * G + q) = offset_of (unat m) (unat r) (unat v)"
    proof -
      have e: "offset_of (unat m) (unat r) (unat v) = (unat d + 1) * unat G + unat q"
        using big d q(2) vs tv(1) G by (simp add: offset_of_def)
      have "offset_of (unat m) (unat r) (unat v) < 18446744073709551616" using offset_small [OF w] .
      then show ?thesis using e md by (simp add: unat_word_ariths)
    qed
    ultimately show ?thesis by blast
  qed
qed

text \<open>The shifts that \<^verbatim>\<open>bucket_low\<close> and \<^verbatim>\<open>bucket_high\<close> share.\<close>

lemma bucket_shifts:
  assumes wf: "histo_wf h" and m: "hi_m h \<noteq> 0" and k: "k < hi_nbucket h"
  defines "M \<equiv> unat (hi_m h)" and "R \<equiv> unat (hi_r h)" and "G \<equiv> 2 ^ (unat (hi_r h) - unat (hi_m h) - 1) :: nat"
  shows "\<exists>g s0 s1 s2. c_shr k (hi_r h - hi_m h - 1) = Some g \<and> unat g = unat k div G \<and> unat (k - g * hi_G h) = unat k mod G \<and>
    c_shl1 (ucast (hi_m h)) = Some s0 \<and> unat s0 = 2 ^ M \<and> c_shl1 (ucast (hi_r h) + g - 2) = Some s1 \<and> unat s1 = 2 ^ (R + unat g - 2) \<and>
    c_shl1 (ucast (hi_m h) + g - 1) = Some s2 \<and> unat s2 = 2 ^ (M + unat g - 1) \<and> R + unat g \<le> 31 \<and> M + unat g < 31"
proof -
  have w: "M < R" "R \<le> unat (hi_n h)" "unat (hi_n h) \<le> 30" "unat (hi_G h) = G" "unat k < (unat (hi_n h) - R + 2) * G"
    using wf k by (simp_all add: histo_wf_def M_def R_def G_def word_less_nat_alt)
  have M0: "0 < M" using m by (simp add: M_def unat_gt_0)
  have le: "hi_m h \<le> hi_r h" using w(1) by (simp add: M_def R_def word_le_nat_alt)
  then have sub: "unat (hi_r h - hi_m h) = R - M" by (simp add: M_def R_def unat_sub)
  have "hi_r h - hi_m h \<noteq> 0" using w(1) by (auto simp: M_def R_def)
  then have sh: "unat (hi_r h - hi_m h - 1) = R - M - 1" by (simp add: unat_minus_one sub)
  have "R - M - 1 < 64" using w(2,3) by linarith
  then obtain g where g: "c_shr k (hi_r h - hi_m h - 1) = Some g" "unat g = unat k div G"
    using c_shr_Some [of "hi_r h - hi_m h - 1" k] unfolding sh G_def M_def R_def by blast
  have "unat g < unat (hi_n h) - R + 2" unfolding g(2) by (rule less_mult_imp_div_less [OF w(5)])
  then have gb: "R + unat g \<le> 31" "M + unat g < 31" using w by linarith+
  have "unat k div G * G < 18446744073709551616" by (rule le_less_trans [OF div_times_less_eq_dividend unat_u64_lt])
  then have "unat (g * hi_G h) = unat k div G * G" using g(2) w(4) by (simp add: unat_word_ariths)
  then have b: "unat (k - g * hi_G h) = unat k mod G" by (simp add: unat_sub word_le_nat_alt modulo_nat_def)
  have a1: "unat (ucast (hi_r h) + g - 2) = R + unat g - 2" and a2: "unat (ucast (hi_m h) + g - 1) = M + unat g - 1"
    using gb M0 w(1) by (simp_all add: unat_word_ariths unat_sub word_le_nat_alt R_def M_def)
  obtain s0 where "c_shl1 (ucast (hi_m h)) = Some s0" "unat s0 = 2 ^ M" using c_shl1_Some [of "ucast (hi_m h)"] w by (auto simp: M_def)
  moreover obtain s1 where "c_shl1 (ucast (hi_r h) + g - 2) = Some s1" "unat s1 = 2 ^ (R + unat g - 2)"
    using c_shl1_Some [of "ucast (hi_r h) + g - 2"] gb(1) unfolding a1 by fastforce
  moreover obtain s2 where "c_shl1 (ucast (hi_m h) + g - 1) = Some s2" "unat s2 = 2 ^ (M + unat g - 1)"
    using c_shl1_Some [of "ucast (hi_m h) + g - 1"] gb(2) unfolding a2 by fastforce
  ultimately show ?thesis using g b gb by blast
qed

lemma bucket_low_high:
  assumes wf: "histo_wf h" and m: "hi_m h \<noteq> 0" and k: "k < hi_nbucket h"
  defines "M \<equiv> unat (hi_m h)" and "R \<equiv> unat (hi_r h)"
  shows "\<exists>lo hi. bucket_low h k = Some lo \<and> bucket_high h k = Some hi \<and>
    unat lo = low_of M R (unat k) \<and> unat hi + 1 = low_of M R (Suc (unat k))"
proof -
  define G where "G = (2::nat) ^ (R - M - 1)"
  obtain g s0 s1 s2 where s: "c_shr k (hi_r h - hi_m h - 1) = Some g" "unat g = unat k div G" "unat (k - g * hi_G h) = unat k mod G"
      "c_shl1 (ucast (hi_m h)) = Some s0" "unat s0 = 2 ^ M" "c_shl1 (ucast (hi_r h) + g - 2) = Some s1" "unat s1 = 2 ^ (R + unat g - 2)"
      "c_shl1 (ucast (hi_m h) + g - 1) = Some s2" "unat s2 = 2 ^ (M + unat g - 1)" "R + unat g \<le> 31" "M + unat g < 31"
    using bucket_shifts [OF wf m k] unfolding M_def R_def G_def by blast
  have mr: "M < R" "R \<le> 30" using wf by (simp_all add: histo_wf_def M_def R_def)
  define b where "b = k - g * hi_G h"
  have b: "unat b < G" "unat b = unat k mod G" using s(3) by (simp_all add: b_def G_def)
  have "G \<le> 1073741824" unfolding G_def by (rule pow_31) (use mr in linarith)
  then have small: "unat x * (unat b + 1) \<le> 1073741824 * 1073741824" "unat x * unat b \<le> 1073741824 * 1073741824"
    if "unat x \<le> 1073741824" for x :: u64
    using that b(1) by (intro mult_mono; simp)+
  have p: "unat s0 \<le> 1073741824" "unat s1 \<le> 1073741824" "unat s2 \<le> 1073741824"
    unfolding s(5,7,9) using s(10,11) mr by (intro pow_31; linarith)+
  have lo: "unat (s0 * b) = 2 ^ M * unat b" "unat (s1 + s2 * b) = unat s1 + unat s2 * unat b"
    using small(2) [OF p(1)] small(2) [OF p(3)] p(2) s(5) by (simp_all add: unat_word_ariths)
  have b1: "unat (b + 1) = unat b + 1" using b(1) \<open>G \<le> 1073741824\<close> by (simp add: unat_word_ariths)
  have h0: "unat (s0 * (b + 1)) = unat s0 * (unat b + 1)" "unat (s1 + s2 * (b + 1)) = unat s1 + unat s2 * (unat b + 1)"
    using small(1) [OF p(1)] small(1) [OF p(3)] p(2) b1 by (simp_all add: unat_word_ariths)
  have pos: "0 < unat s0" "0 < unat s1" "0 < unat s2" using s by simp_all
  have hi: "unat (s0 * (b + 1) - 1) + 1 = 2 ^ M * (unat b + 1)" "unat (s1 + s2 * (b + 1) - 1) + 1 = unat s1 + unat s2 * (unat b + 1)"
    using h0 pos s(5) unat_minus_one [of "s0 * (b + 1)"] unat_minus_one [of "s1 + s2 * (b + 1)"] by (auto simp: unat_gt_0 [symmetric])
  have next_low: "low_of M R (Suc (unat k)) = start_of M R (unat g) (unat b + 1)"
    using low_of_next [OF mr(1), of "unat k"] start_of_next [of M R "unat g" "unat b"] s(2) b(2) by (simp add: low_of_def G_def)
  have low: "low_of M R (unat k) = start_of M R (unat g) (unat b)" using s(2) b(2) by (simp add: low_of_def G_def)
  show ?thesis
  proof (cases "g = 0")
    case True
    then show ?thesis using s lo(1) hi(1) unfolding low next_low bucket_low_def bucket_high_def
      by (simp add: b_def start_of_def)
  next
    case False
    then have "0 < unat g" "g > 0" by (simp_all add: unat_gt_0 word_neq_0_conv)
    then show ?thesis using s False lo(2) hi(2) unfolding low next_low bucket_low_def bucket_high_def
      by (simp add: b_def start_of_def)
  qed
qed


section \<open>What a histogram has recorded\<close>

abbreviation offset_in :: "histo_u32 \<Rightarrow> nat \<Rightarrow> nat" where
  "offset_in h \<equiv> offset_of (unat (hi_m h)) (unat (hi_r h))"

definition recorded :: "histo_u32 \<Rightarrow> nat list \<Rightarrow> bool" where
  "recorded h vs \<longleftrightarrow> histo_wf h \<and> length vs < 4294967296 \<and> unat (hi_nrecord h) = length vs \<and> (\<forall>v \<in> set vs. v \<le> unat (hi_N h)) \<and>
     (\<forall>k < length (hi_buckets h). unat (hi_buckets h ! k) = length (filter (\<lambda>v. offset_in h v = k) vs))"

fun record_all :: "(u64 \<times> u32) list \<Rightarrow> histo_u32 \<Rightarrow> histo_u32 option" where
  "record_all [] h = Some h"
| "record_all ((v, c) # rs) h = do { (_, h) \<leftarrow> histo_u32_record h v c; record_all rs h }"

text \<open>The values that are counted: each as often as its count says, those above the maximum not at all.\<close>

definition kept :: "u64 \<Rightarrow> (u64 \<times> u32) list \<Rightarrow> nat list" where
  "kept N rs = concat (map (\<lambda>(v, c). if v > N then [] else replicate (unat c) (unat v)) rs)"

lemma offset_in_bound:
  assumes "histo_wf h" "v \<le> unat (hi_N h)"
  shows "offset_in h v < length (hi_buckets h)"
proof -
  have "v < 2 ^ unat (hi_n h)" using assms by (simp add: histo_wf_def) (metis Suc_pred le_imp_less_Suc zero_less_numeral zero_less_power)
  then show ?thesis using assms offset_of_bound by (simp add: histo_wf_def)
qed

lemma record_recorded:
  assumes rec: "recorded h vs" and c: "length vs + unat c < 4294967296" and v: "v \<le> hi_N h"
  shows "\<exists>h'. histo_u32_record h v c = Some (HISTO_OK, h') \<and> recorded h' (vs @ replicate (unat c) (unat v)) \<and>
    hi_m h' = hi_m h \<and> hi_r h' = hi_r h \<and> hi_N h' = hi_N h"
proof -
  have wf: "histo_wf h" and n: "unat (hi_nrecord h) = length vs" using rec by (simp_all add: recorded_def)
  have vN: "unat v \<le> unat (hi_N h)" using v by (simp add: word_le_nat_alt)
  have "unat v < 2 ^ unat (hi_n h)" using vN wf by (simp add: histo_wf_def) (metis Suc_pred le_imp_less_Suc zero_less_numeral zero_less_power)
  then obtain q where q: "bucket_offset v (hi_m h) (hi_r h) (hi_G h) = Some q" "unat q = offset_in h (unat v)"
    using wf bucket_offset_nat [of "hi_m h" "hi_r h" "unat (hi_n h)" v "hi_G h"] by (auto simp: histo_wf_def)
  have k: "unat q < length (hi_buckets h)" using offset_in_bound [OF wf vN] q(2) by simp
  define bs where "bs = (hi_buckets h)[unat q := hi_buckets h ! unat q + c]"
  define h' where "h' = h\<lparr>hi_buckets := bs, hi_nrecord := hi_nrecord h + ucast c\<rparr>"
  have "unat (hi_buckets h ! unat q) = length (filter (\<lambda>x. offset_in h x = unat q) vs)" using rec k by (simp only: recorded_def)
  also have "\<dots> \<le> length vs" by (rule length_filter_le)
  finally have old: "unat (hi_buckets h ! unat q) + unat c < 4294967296" using c by linarith
  have "unat (bs ! j) = length (filter (\<lambda>x. offset_in h x = j) (vs @ replicate (unat c) (unat v)))" if "j < length bs" for j
    using that rec k old q(2) by (cases "j = unat q") (auto simp: bs_def recorded_def unat_word_ariths filter_replicate)
  moreover have "unat (hi_nrecord h + ucast c) = length vs + unat c" using n c by (simp add: unat_word_ariths)
  ultimately have "recorded h' (vs @ replicate (unat c) (unat v))"
    using rec wf c vN by (auto simp: recorded_def h'_def bs_def histo_wf_def)
  moreover have "histo_u32_record h v c = Some (HISTO_OK, h')"
    using v q(1) k by (simp add: histo_u32_record_def c_get_def c_put_def h'_def bs_def)
  ultimately show ?thesis by (auto simp: h'_def)
qed

lemma record_all_recorded:
  "recorded h vs \<Longrightarrow> length (vs @ kept (hi_N h) rs) < 4294967296 \<Longrightarrow>
    \<exists>h'. record_all rs h = Some h' \<and> recorded h' (vs @ kept (hi_N h) rs) \<and> hi_m h' = hi_m h \<and> hi_r h' = hi_r h \<and> hi_N h' = hi_N h"
proof (induction rs arbitrary: h vs)
  case (Cons r rs)
  obtain v c where r: "r = (v, c)" by (cases r)
  show ?case
  proof (cases "v \<le> hi_N h")
    case True
    then have k: "kept (hi_N h) (r # rs) = replicate (unat c) (unat v) @ kept (hi_N h) rs" by (simp add: kept_def r leD)
    then have "length vs + unat c < 4294967296" using Cons.prems(2) by simp
    then obtain h1 where h1: "histo_u32_record h v c = Some (HISTO_OK, h1)" "recorded h1 (vs @ replicate (unat c) (unat v))"
        "hi_m h1 = hi_m h" "hi_r h1 = hi_r h" "hi_N h1 = hi_N h"
      using record_recorded [OF Cons.prems(1) _ True, of c] by blast
    then show ?thesis using Cons.IH [OF h1(2)] Cons.prems(2) k by (simp add: r)
  next
    case False
    then have k: "kept (hi_N h) (r # rs) = kept (hi_N h) rs" "histo_u32_record h v c = Some (HISTO_EOVERFLOW, h)"
      by (simp_all add: kept_def r histo_u32_record_def not_le)
    then show ?thesis using Cons.IH [OF Cons.prems(1)] Cons.prems(2) by (simp add: r)
  qed
qed (simp add: kept_def)


section \<open>Percentiles\<close>

text \<open>The number of records in the first \<open>k\<close> buckets, and the bucket of the record of rank \<open>t\<close>.\<close>

definition below :: "u32 list \<Rightarrow> nat \<Rightarrow> nat" where
  "below bs k = sum_list (map unat (take k bs))"

definition at_rank :: "u32 list \<Rightarrow> nat \<Rightarrow> nat \<Rightarrow> bool" where
  "at_rank bs t k \<longleftrightarrow> k < length bs \<and> below bs k < max 1 t \<and> max 1 t \<le> below bs (Suc k)"

lemma below_0 [simp]: "below bs 0 = 0"
  by (simp add: below_def)

lemma below_Suc: "k < length bs \<Longrightarrow> below bs (Suc k) = below bs k + unat (bs ! k)"
  by (simp add: below_def take_Suc_conv_app_nth)

lemma below_mono: "j \<le> k \<Longrightarrow> below bs j \<le> below bs k"
proof (rule lift_Suc_mono_le [of "below bs"])
  show "below bs n \<le> below bs (Suc n)" for n
    by (cases "n < length bs") (simp_all add: below_Suc, simp add: below_def)
qed

lemma at_rank_unique:
  assumes "at_rank bs t j" "at_rank bs t k"
  shows "j = k"
proof (rule ccontr)
  assume "j \<noteq> k"
  then have "Suc j \<le> k \<or> Suc k \<le> j" by linarith
  then show False using below_mono [of "Suc j" k bs] below_mono [of "Suc k" j bs] assms unfolding at_rank_def by linarith
qed

lemma below_recorded: "recorded h vs \<Longrightarrow> k \<le> length (hi_buckets h) \<Longrightarrow> below (hi_buckets h) k = length (filter (\<lambda>v. offset_in h v < k) vs)"
proof (induction k)
  case (Suc k)
  have split: "length (filter (\<lambda>v. f v < Suc k) xs) = length (filter (\<lambda>v. f v < k) xs) + length (filter (\<lambda>v. f v = k) xs)" for f :: "nat \<Rightarrow> nat" and xs
    by (induction xs) auto
  show ?case using Suc by (simp add: below_Suc split recorded_def)
qed simp

lemma below_all: "recorded h vs \<Longrightarrow> below (hi_buckets h) (length (hi_buckets h)) = length vs"
  using below_recorded [of h vs "length (hi_buckets h)"] offset_in_bound [of h] by (simp add: recorded_def)

text \<open>In a sorted list, the element of rank \<open>t\<close> is told by how many are smaller and how many are not larger.\<close>

lemma rank_in_sorted:
  fixes ws :: "nat list"
  assumes "sorted ws" "1 \<le> t" "t \<le> length ws" "length (filter (\<lambda>w. w < k) ws) < t" "t \<le> length (filter (\<lambda>w. w < Suc k) ws)"
  shows "ws ! (t - 1) = k"
proof -
  define xs y zs where "xs = take (t - 1) ws" and "y = ws ! (t - 1)" and "zs = drop t ws"
  have ws: "ws = xs @ y # zs" using assms(2,3) id_take_nth_drop [of "t - 1" ws] by (simp add: xs_def y_def zs_def)
  have len: "length xs = t - 1" using assms(3) by (simp add: xs_def)
  have s: "\<forall>x \<in> set xs. x \<le> y" "\<forall>z \<in> set zs. y \<le> z" using assms(1) unfolding ws by (auto simp: sorted_append)
  have "y \<le> k"
  proof (rule ccontr)
    assume "\<not> y \<le> k"
    then have "\<not> y < Suc k" "filter (\<lambda>w. w < Suc k) zs = []" using s(2) by (auto simp: filter_empty_conv)
    then have "t \<le> length (filter (\<lambda>w. w < Suc k) xs)" using assms(5) unfolding ws by simp
    then show False using length_filter_le [of "\<lambda>w. w < Suc k" xs] len assms(2) by linarith
  qed
  moreover have "k \<le> y"
  proof (rule ccontr)
    assume "\<not> k \<le> y"
    then have "filter (\<lambda>w. w < k) xs = xs" "y < k" using s(1) by (auto simp: filter_id_conv)
    then show False using assms(2,4) len unfolding ws by simp
  qed
  ultimately show ?thesis by (simp add: y_def)
qed

lemma at_rank_value:
  assumes rec: "recorded h vs" and t: "t \<le> length vs" "vs \<noteq> []" and k: "at_rank (hi_buckets h) t k"
  shows "offset_in h (sort vs ! (max 1 t - 1)) = k"
proof -
  have mr: "unat (hi_m h) < unat (hi_r h)" using rec by (simp add: recorded_def histo_wf_def)
  have fil: "length (filter P (map f (sort vs))) = length (filter (\<lambda>v. P (f v)) vs)" for P :: "nat \<Rightarrow> bool" and f :: "nat \<Rightarrow> nat"
  proof -
    have "length (filter Q (sort vs)) = length (filter Q vs)" for Q by (simp add: filter_sort)
    then show ?thesis by (simp add: filter_map comp_def)
  qed
  have "sorted (map (offset_in h) (sort vs))" using offset_of_mono [OF mr] by (intro sorted_map_mono) (auto intro: mono_onI)
  moreover have "max 1 t \<le> length (map (offset_in h) (sort vs))" "1 \<le> max 1 t" using t by (cases vs) auto
  moreover have b: "below (hi_buckets h) j = length (filter (\<lambda>w. w < j) (map (offset_in h) (sort vs)))" if "j \<le> length (hi_buckets h)" for j
    using below_recorded [OF rec that] unfolding fil .
  have "length (filter (\<lambda>w. w < k) (map (offset_in h) (sort vs))) < max 1 t" "max 1 t \<le> length (filter (\<lambda>w. w < Suc k) (map (offset_in h) (sort vs)))"
    using k b [of k] b [of "Suc k"] unfolding at_rank_def by (metis less_imp_le, metis Suc_leI)
  ultimately have "map (offset_in h) (sort vs) ! (max 1 t - 1) = k" by (intro rank_in_sorted)
  then show ?thesis using \<open>max 1 t \<le> length (map (offset_in h) (sort vs))\<close> by (cases vs) auto
qed

text \<open>What is used of the rounding of doubles: it is monotone and keeps the integers of 53 bits.\<close>

definition dbl_rounding :: "(real \<Rightarrow> real) \<Rightarrow> bool" where
  "dbl_rounding rnd \<longleftrightarrow> mono rnd \<and> (\<forall>k::int. \<bar>k\<bar> \<le> 2 ^ 53 \<longrightarrow> rnd (real_of_int k) = real_of_int k)"

definition rank_of :: "(real \<Rightarrow> real) \<Rightarrow> nat \<Rightarrow> real \<Rightarrow> nat" where
  "rank_of rnd n p = nat \<lceil>rnd (rnd (p * real n) / 100)\<rceil>"

lemma rounding_nat: "dbl_rounding rnd \<Longrightarrow> n \<le> 2 ^ 53 \<Longrightarrow> rnd (real n) = real n"
  unfolding dbl_rounding_def by (metis abs_of_nat of_int_of_nat_eq of_nat_le_iff of_nat_numeral of_nat_power)

lemma rounding_mono: "dbl_rounding rnd \<Longrightarrow> x \<le> y \<Longrightarrow> rnd x \<le> rnd y"
  by (simp add: dbl_rounding_def monoD)

lemma rounding_le: "dbl_rounding rnd \<Longrightarrow> n \<le> 2 ^ 53 \<Longrightarrow> x \<le> real n \<Longrightarrow> rnd x \<le> real n"
  using rounding_mono [of rnd x "real n"] rounding_nat [of rnd n] by simp

lemma rounding_0: "dbl_rounding rnd \<Longrightarrow> rnd 0 = 0"
  using rounding_nat [of rnd 0] by simp

lemma rounding_ge: "dbl_rounding rnd \<Longrightarrow> 0 \<le> x \<Longrightarrow> 0 \<le> rnd x"
  using rounding_mono [of rnd 0 x] by (simp add: rounding_0)

lemma not_greater: "dbl_rounding rnd \<Longrightarrow> p \<le> q \<Longrightarrow> \<not> greater_dbl rnd p q"
  using rounding_mono [of rnd "p - q" 0] by (simp add: greater_dbl_def rounding_0 DBL_EPSILON_def not_le)

lemma not_lesser: "dbl_rounding rnd \<Longrightarrow> q \<le> p \<Longrightarrow> \<not> lesser_dbl rnd p q"
  using not_greater [of rnd q p] by (simp add: greater_dbl_def lesser_dbl_def)

lemma rank_of_mono:
  assumes r: "dbl_rounding rnd" and "p \<le> q"
  shows "rank_of rnd n p \<le> rank_of rnd n q"
proof -
  have "rnd (p * real n) \<le> rnd (q * real n)" using assms(2) by (intro rounding_mono [OF r] mult_right_mono) simp_all
  then have "rnd (rnd (p * real n) / 100) \<le> rnd (rnd (q * real n) / 100)"
    by (intro rounding_mono [OF r]) (rule divide_right_mono, assumption, simp)
  then show ?thesis unfolding rank_of_def by (intro nat_mono ceiling_mono)
qed

lemma rank_of_le:
  assumes r: "dbl_rounding rnd" and n: "n < 4294967296" and p: "p \<le> 100"
  shows "rank_of rnd n p \<le> n"
proof -
  have "p * real n \<le> real (100 * n)" using p by (simp add: mult_right_mono)
  then have "rnd (p * real n) \<le> real (100 * n)" using n by (intro rounding_le [OF r]) simp_all
  then have "rnd (p * real n) / 100 \<le> real n" by simp
  then have "rnd (rnd (p * real n) / 100) \<le> real n" using n by (intro rounding_le [OF r]) simp_all
  then have "\<lceil>rnd (rnd (p * real n) / 100)\<rceil> \<le> int n" by (simp add: ceiling_le_iff)
  then show ?thesis unfolding rank_of_def by linarith
qed

lemma threshold_rank:
  assumes r: "dbl_rounding rnd" and n: "unat n < 4294967296" and p: "0 \<le> p" "p \<le> 100"
  shows "\<exists>t. threshold rnd n p = Some t \<and> unat t = rank_of rnd (unat n) p"
proof -
  define k where "k = unat n"
  define x where "x = \<lceil>rnd (rnd (p * real k) / 100)\<rceil>"
  have "0 \<le> p * real k" using p(1) by simp
  then have "0 \<le> rnd (rnd (p * real k) / 100)" by (intro rounding_ge [OF r] divide_nonneg_nonneg) simp_all
  then have x0: "0 \<le> x" by (simp add: x_def)
  have k: "k < 4294967296" using n by (simp add: k_def)
  have xk: "nat x = rank_of rnd k p" by (simp add: rank_of_def x_def)
  then have x: "nat x < 4294967296" using rank_of_le [OF r k p(2)] k by simp
  then have xw: "unat (word_of_int x :: u64) = nat x" "x < 2 ^ 64" using unat_of_nat_64 [of "nat x"] x0 by simp_all
  have "rnd (real (unat n)) = real k" using k unfolding k_def by (intro rounding_nat [OF r]) simp
  then have "threshold rnd n p = Some (word_of_int x)"
    unfolding threshold_def Let_def using x0 xw(2) by (simp only: x_def [symmetric]) simp
  then show ?thesis using xw xk by (simp add: k_def)
qed

lemma in_range: "length bs = unat nb \<Longrightarrow> i \<le> nb \<Longrightarrow> i \<noteq> nb \<Longrightarrow> i < nb \<and> unat i < length bs"
  by (metis order_less_le word_less_nat_alt)

lemma skip_empty_spec:
  "length bs = unat nb \<Longrightarrow> i \<le> nb \<Longrightarrow> below bs (unat i) = 0 \<Longrightarrow> 0 < below bs (unat nb) \<Longrightarrow>
    \<exists>low. skip_empty bs nb i = Some low \<and> at_rank bs 0 (unat low) \<and> below bs (unat low) = 0"
proof (induction bs nb i rule: skip_empty.induct)
  case (1 bs nb i)
  have "i \<noteq> nb" using "1.prems"(3,4) by auto
  then have i: "i < nb" "unat i < length bs" using in_range [OF "1.prems"(1,2)] by simp_all
  show ?case
  proof (cases "bs ! unat i = 0")
    case True
    then have "below bs (unat (i + 1)) = 0" using below_Suc [OF i(2)] "1.prems"(3) unat_next [OF i(1)] by simp
    moreover have "i + 1 \<le> nb" using i(1) unat_next [OF i(1)] by (simp add: word_le_nat_alt word_less_nat_alt)
    ultimately show ?thesis using "1.IH" [OF i(1), of "bs ! unat i"] "1.prems" i True by (subst skip_empty.simps) (simp add: c_get_def)
  next
    case False
    then have "at_rank bs 0 (unat i)" using below_Suc [OF i(2)] "1.prems"(3) i(2) by (simp add: at_rank_def unat_gt_0 Suc_le_eq)
    then show ?thesis using False i "1.prems"(3) by (subst skip_empty.simps) (simp add: c_get_def)
  qed
qed

lemma report_loop_spec:
  "length bs = unat nb \<Longrightarrow> i \<le> nb \<Longrightarrow> unat rcount = below bs (unat i) \<Longrightarrow> unat t \<le> below bs (unat nb) \<Longrightarrow> below bs (unat nb) < 4294967296 \<Longrightarrow>
    (unat t \<le> unat rcount \<Longrightarrow> at_rank bs (unat t) (unat value)) \<Longrightarrow>
    \<exists>k. report_loop bs nb t i rcount value = Some k \<and> at_rank bs (unat t) (unat k)"
proof (induction bs nb t i rcount "value" rule: report_loop.induct)
  case (1 bs nb t i rcount v)
  show ?case
  proof (cases "rcount < t")
    case True
    then have "i \<noteq> nb" using "1.prems"(3,4) by (auto simp: word_less_nat_alt)
    then have i: "i < nb" "unat i < length bs" using in_range [OF "1.prems"(1,2)] by simp_all
    let ?c = "rcount + ucast (bs ! unat i)"
    have nx: "i + 1 \<le> nb" "unat (i + 1) = Suc (unat i)" using i(1) unat_next [OF i(1)] by (simp_all add: word_le_nat_alt word_less_nat_alt)
    have "below bs (Suc (unat i)) \<le> below bs (unat nb)" using nx by (intro below_mono) (simp add: word_le_nat_alt)
    then have c: "unat ?c = below bs (unat (i + 1))" using nx(2) below_Suc [OF i(2)] "1.prems"(3,5) by (simp add: unat_word_ariths)
    have "at_rank bs (unat t) (unat i)" if "unat t \<le> unat ?c"
      using that True "1.prems"(3) c nx(2) i(2) by (simp add: at_rank_def word_less_nat_alt)
    then show ?thesis using "1.IH" [of "bs ! unat i"] "1.prems"(1,4,5) nx(1) c i True by (subst report_loop.simps) (simp add: c_get_def)
  next
    case False
    then show ?thesis using "1.prems"(6) by (subst report_loop.simps) (simp add: word_less_nat_alt)
  qed
qed

lemma report_at_rank:
  assumes rec: "recorded h vs" and vs: "vs \<noteq> []" and r: "dbl_rounding rnd" and p: "0 \<le> p" "p \<le> 100"
  shows "\<exists>k. histo_u32_report rnd h p = Some (HISTO_OK, Some k) \<and> at_rank (hi_buckets h) (rank_of rnd (length vs) p) (unat k)"
proof -
  let ?bs = "hi_buckets h" and ?nb = "hi_nbucket h"
  have len: "length ?bs = unat ?nb" and n: "unat (hi_nrecord h) = length vs" "length vs < 4294967296"
    using rec by (simp_all add: recorded_def histo_wf_def)
  have all: "below ?bs (unat ?nb) = length vs" using below_all [OF rec] by (simp add: len)
  obtain t where t: "threshold rnd (hi_nrecord h) p = Some t" "unat t = rank_of rnd (length vs) p"
    using threshold_rank [OF r _ p, of "hi_nrecord h"] n by auto
  obtain low where low: "skip_empty ?bs ?nb 0 = Some low" "at_rank ?bs 0 (unat low)" "below ?bs (unat low) = 0"
    using skip_empty_spec [OF len, of 0] all vs by auto
  have "low \<le> ?nb" using low(2) len by (simp add: at_rank_def word_le_nat_alt)
  moreover have "unat t \<le> length vs" using t(2) rank_of_le [OF r n(2) p(2)] by simp
  ultimately obtain k where "report_loop ?bs ?nb t low 0 low = Some k" "at_rank ?bs (unat t) (unat k)"
    using report_loop_spec [OF len, of low 0 t low] all n(2) low(2,3) by auto
  moreover have "hi_nrecord h \<noteq> 0" using n vs by auto
  ultimately show ?thesis using t low(1) not_greater [OF r p(2)] not_lesser [OF r p(1)] by (simp add: histo_u32_report_def)
qed

lemma multi_scan_spec:
  assumes "length bs = unat nb" "below bs (unat nb) < 4294967296"
  shows "cur \<le> nb \<Longrightarrow> unat rcount = below bs (unat cur) \<Longrightarrow> unat t \<le> below bs (unat nb) \<Longrightarrow> at_rank bs (unat rcount) (unat offset) \<Longrightarrow>
    \<exists>cur' rcount' offset'. multi_scan bs nb t cur rcount offset = Some (cur', rcount', offset') \<and> cur' \<le> nb \<and>
      unat rcount' = below bs (unat cur') \<and> unat t \<le> unat rcount' \<and> at_rank bs (unat rcount') (unat offset') \<and>
      (rcount < t \<longrightarrow> at_rank bs (unat t) (unat offset')) \<and> (\<not> rcount < t \<longrightarrow> rcount' = rcount \<and> offset' = offset)"
  using assms
proof (induction bs nb t cur rcount offset rule: multi_scan.induct)
  case (1 bs nb t i rcount offset)
  note inv = "1.prems"(1-4) and len = "1.prems"(5) and lim = "1.prems"(6)
  show ?case
  proof (cases "rcount < t")
    case True
    then have "i \<noteq> nb" using inv(2,3) by (auto simp: word_less_nat_alt)
    then have i: "i < nb" "unat i < length bs" using in_range [OF len inv(1)] by simp_all
    have nx: "i + 1 \<le> nb" "unat (i + 1) = Suc (unat i)" using i(1) unat_next [OF i(1)] by (simp_all add: word_le_nat_alt word_less_nat_alt)
    show ?thesis
    proof (cases "bs ! unat i = 0")
      case z: True
      then have "unat rcount = below bs (unat (i + 1))" using inv(2) nx(2) below_Suc [OF i(2)] by simp
      then show ?thesis using "1.IH"(2) [of "bs ! unat i"] i True z nx(1) inv len lim by (subst multi_scan.simps) (simp add: c_get_def)
    next
      case nz: False
      let ?c = "rcount + ucast (bs ! unat i)"
      have "below bs (Suc (unat i)) \<le> below bs (unat nb)" using nx by (intro below_mono) (simp add: word_le_nat_alt)
      then have c: "unat ?c = below bs (unat (i + 1))" using nx(2) below_Suc [OF i(2)] inv(2) lim by (simp add: unat_word_ariths)
      have step: "multi_scan bs nb t i rcount offset = multi_scan bs nb t (i + 1) ?c i"
        using i True nz by (subst multi_scan.simps) (simp add: c_get_def word_neq_0_conv)
      have pos: "0 < unat (bs ! unat i)" using nz by (simp add: unat_gt_0)
      have ri: "at_rank bs (unat ?c) (unat i)" unfolding at_rank_def using c nx(2) i(2) inv(2) below_Suc [OF i(2)] pos by simp
      obtain c' r' o' where res: "multi_scan bs nb t (i + 1) ?c i = Some (c', r', o')" "c' \<le> nb" "unat r' = below bs (unat c')" "unat t \<le> unat r'"
          "at_rank bs (unat r') (unat o')" "?c < t \<longrightarrow> at_rank bs (unat t) (unat o')" "\<not> ?c < t \<longrightarrow> r' = ?c \<and> o' = i"
        using "1.IH"(1) [of "bs ! unat i", OF _ _ _ nx(1) c inv(3) ri len lim] i True nz by (auto simp: c_get_def word_neq_0_conv)
      have "at_rank bs (unat t) (unat o')"
      proof (cases "?c < t")
        case False
        then show ?thesis using res(7) c nx(2) True inv(2) i(2) by (simp add: at_rank_def word_less_nat_alt)
      qed (use res(6) in simp)
      then show ?thesis using res step True by auto
    qed
  next
    case False
    then show ?thesis using inv by (subst multi_scan.simps) (simp add: word_less_nat_alt)
  qed
qed

lemma at_rank_between: "at_rank bs a k \<Longrightarrow> at_rank bs b k \<Longrightarrow> a \<le> x \<Longrightarrow> x \<le> b \<Longrightarrow> at_rank bs x k"
  by (auto simp: at_rank_def)

text \<open>The thresholds of a profile of \<open>n\<close> percentiles, in increasing order.\<close>

definition thresholds :: "(real \<Rightarrow> real) \<Rightarrow> u64 \<Rightarrow> real option list \<Rightarrow> nat \<Rightarrow> (nat \<Rightarrow> u64) \<Rightarrow> bool" where
  "thresholds rnd nrecord ps n T \<longleftrightarrow> (\<forall>j < n. profile_threshold rnd nrecord ps j = Some (T j)) \<and> (\<forall>j k. j \<le> k \<and> k < n \<longrightarrow> T j \<le> T k)"

lemma multi_fill_spec:
  assumes T: "thresholds rnd nrecord ps n T" and b: "at_rank bs (unat rcount) (unat offset)"
  shows "i + Suc c = n \<Longrightarrow> n \<le> length vs \<Longrightarrow> at_rank bs (unat (T i)) (unat offset) \<Longrightarrow> T i \<le> rcount \<Longrightarrow>
    \<exists>c' i' vs' t'. multi_fill rnd nrecord ps rcount offset (Suc c) i vs t = Some (c', i', vs', t') \<and> c' \<le> c \<and> length vs' = length vs \<and>
      (\<forall>j < i. vs' ! j = vs ! j) \<and> (\<forall>j. i \<le> j \<and> j < n - c' \<longrightarrow> vs' ! j = Some offset \<and> at_rank bs (unat (T j)) (unat offset)) \<and>
      (0 < c' \<longrightarrow> i' + c' = n \<and> t' = T i' \<and> rcount < t')"
proof (induction c arbitrary: i vs t)
  case 0
  then show ?case by (auto simp: c_put_def less_Suc_eq)
next
  case (Suc c)
  define vs1 where "vs1 = vs[i := Some offset]"
  have put: "c_put vs i (Some offset) = Some vs1" using Suc.prems(1,2) by (simp add: c_put_def vs1_def)
  have t: "profile_threshold rnd nrecord ps (i + 1) = Some (T (i + 1))" "T i \<le> T (i + 1)" using T Suc.prems(1) by (simp_all add: thresholds_def)
  show ?case
  proof (cases "T (i + 1) \<le> rcount")
    case True
    have r: "at_rank bs (unat (T (i + 1))) (unat offset)"
      using at_rank_between [OF Suc.prems(3) b] t(2) True by (simp add: word_le_nat_alt)
    have step: "multi_fill rnd nrecord ps rcount offset (Suc (Suc c)) i vs t = multi_fill rnd nrecord ps rcount offset (Suc c) (i + 1) vs1 (T (i + 1))"
      using put t(1) True by simp
    obtain c' i' vs' t' where ih: "multi_fill rnd nrecord ps rcount offset (Suc c) (i + 1) vs1 (T (i + 1)) = Some (c', i', vs', t')" "c' \<le> c"
        "length vs' = length vs1" "\<forall>j < i + 1. vs' ! j = vs1 ! j"
        "\<forall>j. i + 1 \<le> j \<and> j < n - c' \<longrightarrow> vs' ! j = Some offset \<and> at_rank bs (unat (T j)) (unat offset)"
        "0 < c' \<longrightarrow> i' + c' = n \<and> t' = T i' \<and> rcount < t'"
      using Suc.IH [of "i + 1" vs1 "T (i + 1)"] Suc.prems(1,2) r True by (auto simp: vs1_def)
    have "vs' ! j = Some offset \<and> at_rank bs (unat (T j)) (unat offset)" if "i \<le> j" "j < n - c'" for j
      using that ih(4,5) Suc.prems(1-3) by (cases "j = i") (auto simp: vs1_def)
    then show ?thesis unfolding step ih(1) using ih(2-4,6) by (auto simp: vs1_def)
  next
    case False
    then have res: "multi_fill rnd nrecord ps rcount offset (Suc (Suc c)) i vs t = Some (Suc c, i + 1, vs1, T (i + 1))" using put t(1) by simp
    have "j = i" if "i \<le> j" "j < n - Suc c" for j using that Suc.prems(1) by linarith
    then show ?thesis unfolding res using False Suc.prems by (auto simp: vs1_def not_le less_Suc_eq)
  qed
qed

lemma multi_loop_spec:
  assumes T: "thresholds rnd (hi_nrecord h) ps n T" and len: "length (hi_buckets h) = unat (hi_nbucket h)"
    and lim: "below (hi_buckets h) (unat (hi_nbucket h)) < 4294967296" and top: "\<forall>j < n. unat (T j) \<le> below (hi_buckets h) (unat (hi_nbucket h))"
  shows "i + c = n \<Longrightarrow> n \<le> length vs \<Longrightarrow> cur \<le> hi_nbucket h \<Longrightarrow> unat rcount = below (hi_buckets h) (unat cur) \<Longrightarrow>
    at_rank (hi_buckets h) (unat rcount) (unat offset) \<Longrightarrow> \<forall>j < i. \<exists>k. vs ! j = Some k \<and> at_rank (hi_buckets h) (unat (T j)) (unat k) \<Longrightarrow>
    (0 < c \<Longrightarrow> t = T i \<and> (rcount < t \<or> cur < hi_nbucket h \<and> t \<le> rcount \<and> at_rank (hi_buckets h) (unat t) (unat offset))) \<Longrightarrow>
    \<exists>cur' offset' vs'. multi_loop rnd h ps cur rcount offset c i vs t = Some (cur', offset', vs') \<and> cur' \<le> hi_nbucket h \<and>
      (\<forall>j < n. \<exists>k. vs' ! j = Some k \<and> at_rank (hi_buckets h) (unat (T j)) (unat k))"
proof (induction c arbitrary: i vs cur rcount offset t rule: less_induct)
  case (less c)
  let ?bs = "hi_buckets h" and ?nb = "hi_nbucket h"
  show ?case
  proof (cases c)
    case 0
    then show ?thesis using less.prems by (subst multi_loop.simps) simp
  next
    case (Suc c0)
    have t: "t = T i" "unat t \<le> below ?bs (unat ?nb)" using less.prems(1,7) Suc top by auto
    have "cur < ?nb"
    proof (cases "rcount < t")
      case True
      then have "cur \<noteq> ?nb" using less.prems(4) t(2) by (auto simp: word_less_nat_alt)
      then show ?thesis using less.prems(3) by simp
    qed (use less.prems(7) Suc in auto)
    moreover obtain cur1 r1 o1 where s: "multi_scan ?bs ?nb t cur rcount offset = Some (cur1, r1, o1)" "cur1 \<le> ?nb" "unat r1 = below ?bs (unat cur1)"
        "unat t \<le> unat r1" "at_rank ?bs (unat r1) (unat o1)" "rcount < t \<longrightarrow> at_rank ?bs (unat t) (unat o1)" "\<not> rcount < t \<longrightarrow> r1 = rcount \<and> o1 = offset"
      using multi_scan_spec [OF len lim less.prems(3,4) t(2) less.prems(5)] by blast
    moreover have "at_rank ?bs (unat (T i)) (unat o1)" using s(6,7) less.prems(7) Suc t(1) by auto
    moreover obtain c' i' vs' t' where f: "multi_fill rnd (hi_nrecord h) ps r1 o1 (Suc c0) i vs t = Some (c', i', vs', t')" "c' \<le> c0"
        "length vs' = length vs" "\<forall>j < i. vs' ! j = vs ! j"
        "\<forall>j. i \<le> j \<and> j < n - c' \<longrightarrow> vs' ! j = Some o1 \<and> at_rank ?bs (unat (T j)) (unat o1)"
        "0 < c' \<longrightarrow> i' + c' = n \<and> t' = T i' \<and> r1 < t'"
      using multi_fill_spec [OF T s(5), of i c0 vs t] less.prems(1,2) Suc s(4) t(1) calculation by (auto simp: word_le_nat_alt)
    ultimately have step: "multi_loop rnd h ps cur rcount offset c i vs t = multi_loop rnd h ps cur1 r1 o1 c' i' vs' t'"
      using Suc by (subst multi_loop.simps) simp
    have done': "\<exists>k. vs' ! j = Some k \<and> at_rank ?bs (unat (T j)) (unat k)" if "j < n - c'" for j
      using that f(4,5) less.prems(6) by (cases "j < i") auto
    show ?thesis
    proof (cases "c' = 0")
      case True
      then show ?thesis unfolding step using done' s(2) by (subst multi_loop.simps) simp
    next
      case False
      then have "i' = n - c'" using f(6) by auto
      then show ?thesis unfolding step using less.IH [of c' i' vs' cur1 r1 o1 t'] False f Suc s(2,3,5) less.prems(2) done' by auto
    qed
  qed
qed

text \<open>The maximum of a report of several percentiles is the bucket of the last one.\<close>

lemma max_loop_stale: "length bs = unat nb \<Longrightarrow> mx = offset \<Longrightarrow> max_loop bs nb offset cur mx = Some offset"
proof (induction bs nb offset cur mx rule: max_loop.induct)
  case (1 bs nb offset cur mx)
  then show ?case by (subst max_loop.simps) (auto simp: c_get_def word_less_nat_alt)
qed

lemma profile_loop_ok:
  assumes r: "dbl_rounding rnd"
  shows "profile_loop rnd ps i count last_p dst = Some (HISTO_OK, dst') \<Longrightarrow>
    length dst' = length dst \<and> (\<forall>j < i. dst' ! j = dst ! j) \<and>
    (\<forall>j. i \<le> j \<and> j < i + count \<longrightarrow> j < length ps \<and> j < length dst \<and> dst' ! j = Some (ps ! j) \<and> last_p < ps ! j) \<and>
    (\<forall>j k. i \<le> j \<and> j < k \<and> k < i + count \<longrightarrow> ps ! j < ps ! k)"
proof (induction count arbitrary: i last_p dst)
  case (Suc count)
  have i: "i < length ps" "i < length dst" and ord: "\<not> lesser_dbl rnd (ps ! i) last_p" "\<not> equal_dbl rnd (ps ! i) last_p"
    and rest: "profile_loop rnd ps (i + 1) count (ps ! i) (dst[i := Some (ps ! i)]) = Some (HISTO_OK, dst')"
    using Suc.prems by (auto simp: c_get_def c_put_def split: if_splits)
  have less: "last_p < ps ! i"
  proof (rule ccontr)
    assume "\<not> last_p < ps ! i"
    then have "0 \<le> rnd (last_p - ps ! i)" by (intro rounding_ge [OF r]) simp
    then show False using ord by (simp add: lesser_dbl_def equal_dbl_def)
  qed
  note IH = Suc.IH [OF rest]
  have "j < length ps \<and> j < length dst \<and> dst' ! j = Some (ps ! j) \<and> last_p < ps ! j" if "i \<le> j" "j < i + Suc count" for j
    using that IH i less by (cases "j = i") (auto intro: less_trans)
  moreover have "ps ! j < ps ! k" if "i \<le> j" "j < k" "k < i + Suc count" for j k
    using that IH by (cases "j = i") auto
  ultimately show ?case using IH by auto
qed auto

lemma profile_set_ok:
  assumes r: "dbl_rounding rnd" and "percentile_profile_set rnd pp0 ps count = Some (HISTO_OK, pp)"
  shows "pp_count pp = count \<and> pp_result pp = pp_result pp0 \<and> length (pp_percentile pp) = length (pp_percentile pp0) \<and>
    (\<forall>j < unat count. j < length ps \<and> j < length (pp_percentile pp) \<and> pp_percentile pp ! j = Some (ps ! j)) \<and>
    (\<forall>j k. j \<le> k \<and> k < unat count \<longrightarrow> ps ! j \<le> ps ! k)"
proof -
  obtain dst where d: "profile_loop rnd ps 0 (unat count) (- 1) (pp_percentile pp0) = Some (HISTO_OK, dst)" "pp = pp0\<lparr>pp_count := count, pp_percentile := dst\<rparr>"
    using assms(2) by (auto simp: percentile_profile_set_def split: bind_splits)
  show ?thesis using profile_loop_ok [OF r d(1)] d(2) by (auto simp: order_le_less)
qed

lemma report_unique:
  assumes "recorded h vs" "vs \<noteq> []" "dbl_rounding rnd" "0 \<le> p" "p \<le> 100" "at_rank (hi_buckets h) (rank_of rnd (length vs) p) (unat k)"
  shows "histo_u32_report rnd h p = Some (HISTO_OK, Some k)"
  using report_at_rank [OF assms(1-5)] at_rank_unique [OF _ assms(6)] by (metis word_unat_eq_iff)

lemma report_multi_at_rank:
  assumes rec: "recorded h vs" and vs: "vs \<noteq> []" and r: "dbl_rounding rnd" and count: "0 < unat (pp_count pp)" "unat (pp_count pp) \<le> length (pp_result pp)"
    and ps: "\<forall>j < unat (pp_count pp). j < length (pp_percentile pp) \<and> pp_percentile pp ! j = Some (ps ! j) \<and> 0 \<le> ps ! j \<and> ps ! j \<le> 100"
    and sorted: "\<forall>j k. j \<le> k \<and> k < unat (pp_count pp) \<longrightarrow> ps ! j \<le> ps ! k"
  shows "\<exists>low vs' mx. histo_u32_report_multi rnd pp h = Some (HISTO_OK, pp\<lparr>pp_result := vs', pp_min := Some low, pp_max := Some mx\<rparr>) \<and>
    at_rank (hi_buckets h) 0 (unat low) \<and>
    (\<forall>j < unat (pp_count pp). \<exists>k. vs' ! j = Some k \<and> at_rank (hi_buckets h) (rank_of rnd (length vs) (ps ! j)) (unat k))"
proof -
  let ?bs = "hi_buckets h" and ?nb = "hi_nbucket h" and ?n = "unat (pp_count pp)"
  have len: "length ?bs = unat ?nb" and n: "unat (hi_nrecord h) = length vs" "length vs < 4294967296" using rec by (simp_all add: recorded_def histo_wf_def)
  have all: "below ?bs (unat ?nb) = length vs" using below_all [OF rec] by (simp add: len)
  obtain low where low: "skip_empty ?bs ?nb 0 = Some low" "at_rank ?bs 0 (unat low)" "below ?bs (unat low) = 0"
    using skip_empty_spec [OF len, of 0] all vs by auto
  have lt: "low < ?nb" using low(2) len by (simp add: at_rank_def word_less_nat_alt)
  define T where "T j = (of_nat (rank_of rnd (length vs) (ps ! j)) :: u64)" for j
  have T: "profile_threshold rnd (hi_nrecord h) (pp_percentile pp) j = Some (T j)" "unat (T j) = rank_of rnd (length vs) (ps ! j)" "unat (T j) \<le> length vs"
    if "j < ?n" for j
  proof -
    have "0 \<le> ps ! j" "ps ! j \<le> 100" using ps that by blast+
    then obtain t where "threshold rnd (hi_nrecord h) (ps ! j) = Some t" "unat t = rank_of rnd (length vs) (ps ! j)"
      using threshold_rank [OF r, of "hi_nrecord h" "ps ! j"] n by auto
    moreover have "T j = t" unfolding T_def calculation(2) [symmetric] by simp
    moreover have "rank_of rnd (length vs) (ps ! j) \<le> length vs" using rank_of_le [OF r n(2)] ps that by simp
    ultimately show "profile_threshold rnd (hi_nrecord h) (pp_percentile pp) j = Some (T j)" "unat (T j) = rank_of rnd (length vs) (ps ! j)" "unat (T j) \<le> length vs"
      using ps that by (simp_all add: profile_threshold_def c_get_def)
  qed
  have th: "thresholds rnd (hi_nrecord h) (pp_percentile pp) ?n T"
    unfolding thresholds_def using T rank_of_mono [OF r] sorted by (auto simp: word_le_nat_alt)
  have start: "T 0 = T 0 \<and> (0 < T 0 \<or> low < ?nb \<and> T 0 \<le> 0 \<and> at_rank ?bs (unat (T 0)) (unat low))"
    using lt low(2) by (cases "T 0 = 0") (simp_all add: word_neq_0_conv)
  obtain cur offset vs' where m: "multi_loop rnd h (pp_percentile pp) low 0 low ?n 0 (pp_result pp) (T 0) = Some (cur, offset, vs')"
      "\<forall>j < ?n. \<exists>k. vs' ! j = Some k \<and> at_rank ?bs (unat (T j)) (unat k)"
    using multi_loop_spec [OF th len, of 0 ?n "pp_result pp" low 0 low "T 0"] all n(2) T(3) count order_less_imp_le [OF lt] low start by auto
  show ?thesis using m T low(1,2) count(1) n vs max_loop_stale [OF len refl, of offset cur] by (auto simp: histo_u32_report_multi_def)
qed


text \<open>Parameters that are accepted and for which a shift of the code is undefined: a maximum of 31 or
  more bits, and a minimal resolution of 1 for the bounds of the buckets of the first group.\<close>

lemma histo_create_31: "histo_u32_create (\<lambda>n. Ptr (replicate (unat n) 0)) 1 3 31 = None"
  by (simp add: histo_u32_create_def c_shl1_def cc_alloc_def HISTO_SIZE_def word_le_nat_alt)

lemma bucket_low_m0: "hi_m h = 0 \<Longrightarrow> c_shr k (hi_r h - 1) = Some 0 \<Longrightarrow> bucket_low h k = None"
  by (simp add: bucket_low_def c_shl1_def split: bind_splits)

text \<open>More percentiles than the profile has room for are written past its end.\<close>

lemma profile_set_overrun:
  "percentile_profile_set (\<lambda>x. x) \<lparr>pp_cap = 1, pp_count = 0, pp_percentile = [None], pp_result = [None], pp_min = None, pp_max = None\<rparr> [50, 90] 2 = None"
proof -
  have u2: "unat (2 :: u8) = Suc (Suc 0)" by simp
  show ?thesis unfolding percentile_profile_set_def u2
    by (simp add: c_get_def c_put_def greater_dbl_def lesser_dbl_def equal_dbl_def DBL_EPSILON_def)
qed


section \<open>Properties\<close>


definition histo_sample :: histo_u32 where
  "histo_sample = \<lparr>hi_m = 1, hi_r = 3, hi_n = 5, hi_M = 2, hi_R = 7, hi_N = 31, hi_G = 2, hi_nbucket = 8, hi_nrecord = 0, hi_buckets = replicate 8 0\<rparr>"

lemma histo_sample_created: "histo_u32_create (\<lambda>n. Ptr (replicate (unat n) 0)) 1 3 5 = Some (Ptr histo_sample)"
  by (simp add: histo_u32_create_def c_shl1_def cc_alloc_def HISTO_SIZE_def histo_u32_reset_def histo_sample_def word_le_nat_alt)

lemma exact_rounding: "dbl_rounding (\<lambda>x. x)"
  by (simp add: dbl_rounding_def mono_def)




end
