(* ===== verification/Cc_Circleq.thy ===== *)
theory Cc_Circleq
  imports Cc_Queue
begin

text \<open>
  The circular queue of \<^verbatim>\<open>include/cc_queue.h\<close>. A pointer of it is an element or the head itself, cast
  to an element: \<open>El e\<close> or \<open>Hd h\<close>. Following a link of a head as if it were an element is undefined.
  The forward and the backward links are two chains that start and end at the head and are read in
  opposite directions; an insertion or a removal is one splice in both.
\<close>

datatype ('h, 'e) node = Hd 'h | El 'e

record ('h, 'e) cqheap =
  cq_first :: "'h \<Rightarrow> ('h, 'e) node"
  cq_last :: "'h \<Rightarrow> ('h, 'e) node"
  cq_next :: "'e \<Rightarrow> ('h, 'e) node"
  cq_prev :: "'e \<Rightarrow> ('h, 'e) node"

definition set_cq_first :: "'h \<Rightarrow> ('h, 'e) node \<Rightarrow> ('h, 'e) cqheap \<Rightarrow> ('h, 'e) cqheap" where
  "set_cq_first h n s = s\<lparr>cq_first := (cq_first s)(h := n)\<rparr>"

definition set_cq_last :: "'h \<Rightarrow> ('h, 'e) node \<Rightarrow> ('h, 'e) cqheap \<Rightarrow> ('h, 'e) cqheap" where
  "set_cq_last h n s = s\<lparr>cq_last := (cq_last s)(h := n)\<rparr>"

definition put_next :: "'e \<Rightarrow> ('h, 'e) node \<Rightarrow> ('h, 'e) cqheap \<Rightarrow> ('h, 'e) cqheap" where
  "put_next e n s = s\<lparr>cq_next := (cq_next s)(e := n)\<rparr>"

definition put_prev :: "'e \<Rightarrow> ('h, 'e) node \<Rightarrow> ('h, 'e) cqheap \<Rightarrow> ('h, 'e) cqheap" where
  "put_prev e n s = s\<lparr>cq_prev := (cq_prev s)(e := n)\<rparr>"

fun set_cq_next :: "('h, 'e) node \<Rightarrow> ('h, 'e) node \<Rightarrow> ('h, 'e) cqheap \<Rightarrow> ('h, 'e) cqheap option" where
  "set_cq_next (Hd _) n s = None"
| "set_cq_next (El e) n s = Some (put_next e n s)"

fun set_cq_prev :: "('h, 'e) node \<Rightarrow> ('h, 'e) node \<Rightarrow> ('h, 'e) cqheap \<Rightarrow> ('h, 'e) cqheap option" where
  "set_cq_prev (Hd _) n s = None"
| "set_cq_prev (El e) n s = Some (put_prev e n s)"


section \<open>The macros\<close>

definition CIRCLEQ_FIRST :: "'h \<Rightarrow> ('h, 'e) cqheap \<Rightarrow> ('h, 'e) node" where
  "CIRCLEQ_FIRST h s = cq_first s h"

definition CIRCLEQ_LAST :: "'h \<Rightarrow> ('h, 'e) cqheap \<Rightarrow> ('h, 'e) node" where
  "CIRCLEQ_LAST h s = cq_last s h"

definition CIRCLEQ_NEXT :: "'e \<Rightarrow> ('h, 'e) cqheap \<Rightarrow> ('h, 'e) node" where
  "CIRCLEQ_NEXT e s = cq_next s e"

definition CIRCLEQ_PREV :: "'e \<Rightarrow> ('h, 'e) cqheap \<Rightarrow> ('h, 'e) node" where
  "CIRCLEQ_PREV e s = cq_prev s e"

definition CIRCLEQ_EMPTY :: "'h \<Rightarrow> ('h, 'e) cqheap \<Rightarrow> bool" where
  "CIRCLEQ_EMPTY h s \<longleftrightarrow> cq_first s h = Hd h"

definition CIRCLEQ_INIT :: "'h \<Rightarrow> ('h, 'e) cqheap \<Rightarrow> ('h, 'e) cqheap" where
  "CIRCLEQ_INIT h s = set_cq_last h (Hd h) (set_cq_first h (Hd h) s)"

definition CIRCLEQ_INSERT_AFTER :: "'h \<Rightarrow> 'e \<Rightarrow> 'e \<Rightarrow> ('h, 'e) cqheap \<Rightarrow> ('h, 'e) cqheap option" where
  "CIRCLEQ_INSERT_AFTER h listelm elm s = do {
     s \<leftarrow> set_cq_next (El elm) (cq_next s listelm) s;
     s \<leftarrow> set_cq_prev (El elm) (El listelm) s;
     s \<leftarrow> (if cq_next s listelm = Hd h then Some (set_cq_last h (El elm) s)
           else set_cq_prev (cq_next s listelm) (El elm) s);
     set_cq_next (El listelm) (El elm) s
   }"

definition CIRCLEQ_INSERT_BEFORE :: "'h \<Rightarrow> 'e \<Rightarrow> 'e \<Rightarrow> ('h, 'e) cqheap \<Rightarrow> ('h, 'e) cqheap option" where
  "CIRCLEQ_INSERT_BEFORE h listelm elm s = do {
     s \<leftarrow> set_cq_next (El elm) (El listelm) s;
     s \<leftarrow> set_cq_prev (El elm) (cq_prev s listelm) s;
     s \<leftarrow> (if cq_prev s listelm = Hd h then Some (set_cq_first h (El elm) s)
           else set_cq_next (cq_prev s listelm) (El elm) s);
     set_cq_prev (El listelm) (El elm) s
   }"

definition CIRCLEQ_INSERT_HEAD :: "'h \<Rightarrow> 'e \<Rightarrow> ('h, 'e) cqheap \<Rightarrow> ('h, 'e) cqheap option" where
  "CIRCLEQ_INSERT_HEAD h elm s = do {
     s \<leftarrow> set_cq_next (El elm) (cq_first s h) s;
     s \<leftarrow> set_cq_prev (El elm) (Hd h) s;
     s \<leftarrow> (if cq_last s h = Hd h then Some (set_cq_last h (El elm) s)
           else set_cq_prev (cq_first s h) (El elm) s);
     Some (set_cq_first h (El elm) s)
   }"

definition CIRCLEQ_INSERT_TAIL :: "'h \<Rightarrow> 'e \<Rightarrow> ('h, 'e) cqheap \<Rightarrow> ('h, 'e) cqheap option" where
  "CIRCLEQ_INSERT_TAIL h elm s = do {
     s \<leftarrow> set_cq_next (El elm) (Hd h) s;
     s \<leftarrow> set_cq_prev (El elm) (cq_last s h) s;
     s \<leftarrow> (if cq_first s h = Hd h then Some (set_cq_first h (El elm) s)
           else set_cq_next (cq_last s h) (El elm) s);
     Some (set_cq_last h (El elm) s)
   }"

definition CIRCLEQ_REMOVE :: "'h \<Rightarrow> 'e \<Rightarrow> ('h, 'e) cqheap \<Rightarrow> ('h, 'e) cqheap option" where
  "CIRCLEQ_REMOVE h elm s = do {
     s \<leftarrow> (if cq_next s elm = Hd h then Some (set_cq_last h (cq_prev s elm) s)
           else set_cq_prev (cq_next s elm) (cq_prev s elm) s);
     if cq_prev s elm = Hd h then Some (set_cq_first h (cq_next s elm) s)
     else set_cq_next (cq_prev s elm) (cq_next s elm) s
   }"

text \<open>The elements that a loop from \<open>var\<close> visits, along \<open>f\<close>, up to the head; a loop that does not come
  back to the head does not end.\<close>

partial_function (option) circle_from :: "('e \<Rightarrow> ('h, 'e) node) \<Rightarrow> 'h \<Rightarrow> ('h, 'e) node \<Rightarrow> 'e list option" where
  [code]: "circle_from f h var =
     (if var = Hd h then Some []
      else case var of Hd _ \<Rightarrow> None | El e \<Rightarrow> do { es \<leftarrow> circle_from f h (f e); Some (e # es) })"

definition CIRCLEQ_FOREACH :: "'h \<Rightarrow> ('h, 'e) cqheap \<Rightarrow> 'e list option" where
  "CIRCLEQ_FOREACH h s = circle_from (\<lambda>e. CIRCLEQ_NEXT e s) h (CIRCLEQ_FIRST h s)"

definition CIRCLEQ_FOREACH_REVERSE :: "'h \<Rightarrow> ('h, 'e) cqheap \<Rightarrow> 'e list option" where
  "CIRCLEQ_FOREACH_REVERSE h s = circle_from (\<lambda>e. CIRCLEQ_PREV e s) h (CIRCLEQ_LAST h s)"


section \<open>Rings\<close>

text \<open>Both kinds of links as functions of a node.\<close>

definition nxt :: "('h, 'e) cqheap \<Rightarrow> ('h, 'e) node \<Rightarrow> ('h, 'e) node" where
  "nxt s n = (case n of Hd h \<Rightarrow> cq_first s h | El e \<Rightarrow> cq_next s e)"

definition prv :: "('h, 'e) cqheap \<Rightarrow> ('h, 'e) node \<Rightarrow> ('h, 'e) node" where
  "prv s n = (case n of Hd h \<Rightarrow> cq_last s h | El e \<Rightarrow> cq_prev s e)"

lemma nxt_simps: "nxt s (Hd h) = cq_first s h" "nxt s (El e) = cq_next s e"
  by (simp_all add: nxt_def)

lemma prv_simps: "prv s (Hd h) = cq_last s h" "prv s (El e) = cq_prev s e"
  by (simp_all add: prv_def)

lemma link_updates:
  "nxt (set_cq_first h n s) = (nxt s)(Hd h := n)" "prv (set_cq_first h n s) = prv s"
  "nxt (set_cq_last h n s) = nxt s" "prv (set_cq_last h n s) = (prv s)(Hd h := n)"
  "nxt (put_next e n s) = (nxt s)(El e := n)" "prv (put_next e n s) = prv s"
  "nxt (put_prev e n s) = nxt s" "prv (put_prev e n s) = (prv s)(El e := n)"
  by (auto simp: nxt_def prv_def set_cq_first_def set_cq_last_def put_next_def put_prev_def fun_eq_iff split: node.splits)

text \<open>From the node \<open>a\<close> the links lead through \<open>xs\<close> to the node \<open>b\<close>.\<close>

fun ring :: "(('h, 'e) node \<Rightarrow> ('h, 'e) node) \<Rightarrow> ('h, 'e) node \<Rightarrow> 'e list \<Rightarrow> ('h, 'e) node \<Rightarrow> bool" where
  "ring f a [] b \<longleftrightarrow> f a = b"
| "ring f a (x # xs) b \<longleftrightarrow> f a = El x \<and> ring f (El x) xs b"

definition left_of :: "('h, 'e) node \<Rightarrow> 'e list \<Rightarrow> ('h, 'e) node" where
  "left_of a xs = (if xs = [] then a else El (last xs))"

definition right_of :: "'e list \<Rightarrow> ('h, 'e) node \<Rightarrow> ('h, 'e) node" where
  "right_of ys b = (if ys = [] then b else El (hd ys))"

lemma ring_append: "ring f a (xs @ ys) b \<longleftrightarrow> ring f a xs (right_of ys b) \<and> ring f (left_of a xs) ys b"
proof (induction xs arbitrary: a)
  case Nil
  then show ?case by (cases ys) (auto simp: left_of_def right_of_def)
qed (auto simp: left_of_def)

lemma ring_left: "ring f a xs b \<Longrightarrow> f (left_of a xs) = b"
  by (induction xs arbitrary: a) (auto simp: left_of_def split: if_splits)

lemma ring_frame: "n \<noteq> a \<Longrightarrow> n \<notin> El ` set xs \<Longrightarrow> ring (f(n := v)) a xs b = ring f a xs b"
  by (induction xs arbitrary: a) auto

lemma ring_frame_El: "a \<noteq> El e \<Longrightarrow> e \<notin> set xs \<Longrightarrow> ring (f(El e := v)) a xs b = ring f a xs b"
  by (intro ring_frame) auto

lemma ring_redirect: "ring f a xs c \<Longrightarrow> distinct xs \<Longrightarrow> a \<notin> El ` set xs \<Longrightarrow> ring (f(left_of a xs := d)) a xs d"
proof (induction xs arbitrary: a)
  case (Cons x xs)
  have e: "left_of a (x # xs) = left_of (El x) xs" by (simp add: left_of_def)
  have "left_of (El x) xs \<noteq> a" using Cons.prems(3) by (auto simp: left_of_def split: if_splits)
  then show ?case using Cons by (auto simp: e)
qed (simp add: left_of_def)

lemma left_of_notin: "distinct (xs @ ys) \<Longrightarrow> a \<notin> El ` set ys \<Longrightarrow> left_of a xs \<notin> El ` set ys"
  by (auto simp: left_of_def dest: last_in_set)

lemma ring_insert:
  assumes r: "ring f (Hd h) (xs @ ys) (Hd h)" and d: "distinct (xs @ ys)" "e \<notin> set (xs @ ys)"
  shows "ring (f(El e := right_of ys (Hd h), left_of (Hd h) xs := El e)) (Hd h) (xs @ e # ys) (Hd h)"
proof -
  let ?l = "left_of (Hd h) xs" and ?r = "right_of ys (Hd h)"
  have p: "ring f (Hd h) xs ?r" "ring f ?l ys (Hd h)" using r by (simp_all add: ring_append)
  have le: "?l \<noteq> El e" using d by (auto simp: left_of_def dest: last_in_set)
  have "ring (f(?l := El e)) (Hd h) xs (El e)" using p(1) d by (intro ring_redirect) auto
  then have 1: "ring (f(?l := El e, El e := ?r)) (Hd h) xs (El e)" using d by (subst ring_frame) auto
  have "ring (f(El e := ?r, ?l := El e)) (El e) ys (Hd h)"
  proof (cases ys)
    case (Cons y zs)
    then have "ring f (El y) zs (Hd h)" using p(2) by simp
    moreover have "?l \<notin> El ` set ys" using d by (intro left_of_notin) auto
    ultimately show ?thesis using Cons d le by (auto simp: ring_frame ring_frame_El right_of_def)
  qed (use le in \<open>simp add: right_of_def\<close>)
  then show ?thesis using 1 le by (simp add: ring_append right_of_def left_of_def fun_upd_twist)
qed

lemma ring_delete:
  assumes r: "ring f (Hd h) (xs @ e # ys) (Hd h)" and d: "distinct (xs @ e # ys)"
  shows "ring (f(left_of (Hd h) xs := right_of ys (Hd h))) (Hd h) (xs @ ys) (Hd h)"
proof -
  let ?l = "left_of (Hd h) xs" and ?r = "right_of ys (Hd h)"
  have p: "ring f (Hd h) xs (El e)" "ring f (El e) ys (Hd h)" using r by (simp_all add: ring_append right_of_def left_of_def split: if_splits)
  have "ring (f(?l := ?r)) (Hd h) xs ?r" using p(1) d by (intro ring_redirect) auto
  moreover have "ring (f(?l := ?r)) ?l ys (Hd h)"
  proof (cases ys)
    case (Cons y zs)
    have "?l \<notin> El ` set ys" using d by (intro left_of_notin) auto
    then show ?thesis using Cons p(2) by (auto simp: ring_frame right_of_def)
  qed (simp add: right_of_def)
  ultimately show ?thesis by (simp add: ring_append)
qed


section \<open>The queue as a list\<close>

definition circleq_rep :: "('h, 'e) cqheap \<Rightarrow> 'h \<Rightarrow> 'e list \<Rightarrow> bool" where
  "circleq_rep s h xs \<longleftrightarrow> distinct xs \<and> ring (nxt s) (Hd h) xs (Hd h) \<and> ring (prv s) (Hd h) (rev xs) (Hd h)"

lemma left_rev: "left_of a (rev ys) = right_of ys a"
  by (simp add: left_of_def right_of_def last_rev)

lemma right_rev: "right_of (rev xs) a = left_of a xs"
  by (simp add: left_of_def right_of_def hd_rev)

lemma splice_rep:
  assumes "circleq_rep s h (xs @ ys)" "e \<notin> set (xs @ ys)"
    and "nxt s' = (nxt s)(El e := right_of ys (Hd h), left_of (Hd h) xs := El e)"
    and "prv s' = (prv s)(El e := left_of (Hd h) xs, right_of ys (Hd h) := El e)"
  shows "circleq_rep s' h (xs @ e # ys)"
  using ring_insert [of "nxt s" h xs ys e] ring_insert [of "prv s" h "rev ys" "rev xs" e] assms
  by (simp add: circleq_rep_def left_rev right_rev Int_commute)

lemma unsplice_rep:
  assumes "circleq_rep s h (xs @ e # ys)"
    and "nxt s' = (nxt s)(left_of (Hd h) xs := right_of ys (Hd h))" and "prv s' = (prv s)(right_of ys (Hd h) := left_of (Hd h) xs)"
  shows "circleq_rep s' h (xs @ ys)"
  using ring_delete [of "nxt s" h xs e ys] ring_delete [of "prv s" h "rev ys" e "rev xs"] assms
  by (simp add: circleq_rep_def left_rev right_rev Int_commute)

lemma circle_first: "circleq_rep s h xs \<Longrightarrow> cq_first s h = right_of xs (Hd h)"
  by (cases xs) (auto simp: circleq_rep_def right_of_def nxt_simps)

lemma circle_last: "circleq_rep s h xs \<Longrightarrow> cq_last s h = left_of (Hd h) xs"
  using ring_append [of "prv s" "Hd h" "[]" "rev xs" "Hd h"]
  by (cases "rev xs") (auto simp: circleq_rep_def prv_simps left_of_def simp flip: hd_rev)

lemma circle_next: "circleq_rep s h (xs @ x # ys) \<Longrightarrow> cq_next s x = right_of ys (Hd h)"
  by (cases ys) (auto simp: circleq_rep_def ring_append right_of_def nxt_simps)

lemma circle_prev: "circleq_rep s h (xs @ x # ys) \<Longrightarrow> cq_prev s x = left_of (Hd h) xs"
  by (cases "rev xs") (auto simp: circleq_rep_def ring_append right_of_def prv_simps left_of_def simp flip: hd_rev)

lemma right_head: "distinct xs \<Longrightarrow> right_of ys (Hd h) = Hd h \<longleftrightarrow> ys = []" "left_of (Hd h) xs = Hd h \<longleftrightarrow> xs = []"
  by (simp_all add: right_of_def left_of_def)

lemma link_fields:
  "cq_first (set_cq_last h n s) = cq_first s" "cq_first (put_next e n s) = cq_first s" "cq_first (put_prev e n s) = cq_first s"
  "cq_last (set_cq_first h n s) = cq_last s" "cq_last (put_next e n s) = cq_last s" "cq_last (put_prev e n s) = cq_last s"
  "cq_next (set_cq_first h n s) = cq_next s" "cq_next (set_cq_last h n s) = cq_next s"
  "cq_next (put_next e n s) = (cq_next s)(e := n)" "cq_next (put_prev e n s) = cq_next s"
  "cq_prev (set_cq_first h n s) = cq_prev s" "cq_prev (set_cq_last h n s) = cq_prev s"
  "cq_prev (put_next e n s) = cq_prev s" "cq_prev (put_prev e n s) = (cq_prev s)(e := n)"
  by (simp_all add: set_cq_first_def set_cq_last_def put_next_def put_prev_def)

lemmas cq_eval = link_updates link_fields

lemma INIT_rep: "circleq_rep (CIRCLEQ_INIT h s) h []"
  by (simp add: circleq_rep_def CIRCLEQ_INIT_def link_updates)

lemma INSERT_HEAD_rep:
  assumes r: "circleq_rep s h ys" and e: "e \<notin> set ys"
  shows "\<exists>s'. CIRCLEQ_INSERT_HEAD h e s = Some s' \<and> circleq_rep s' h (e # ys)"
proof (cases ys)
  case Nil
  then show ?thesis using splice_rep [of s h "[]" "[]" e] r circle_first [OF r] circle_last [OF r]
    by (simp add: CIRCLEQ_INSERT_HEAD_def cq_eval right_of_def left_of_def)
next
  case (Cons y zs)
  then show ?thesis using splice_rep [of s h "[]" ys e] r e circle_first [OF r] circle_last [OF r]
    by (simp add: CIRCLEQ_INSERT_HEAD_def cq_eval right_of_def left_of_def)
qed

lemma INSERT_TAIL_rep:
  assumes r: "circleq_rep s h xs" and e: "e \<notin> set xs"
  shows "\<exists>s'. CIRCLEQ_INSERT_TAIL h e s = Some s' \<and> circleq_rep s' h (xs @ [e])"
proof (cases "xs = []")
  case True
  then show ?thesis using splice_rep [of s h "[]" "[]" e] r circle_first [OF r] circle_last [OF r]
    by (simp add: CIRCLEQ_INSERT_TAIL_def cq_eval right_of_def left_of_def)
next
  case False
  then show ?thesis using splice_rep [of s h xs "[]" e] r e circle_first [OF r] circle_last [OF r]
    by (simp add: CIRCLEQ_INSERT_TAIL_def cq_eval right_of_def left_of_def)
qed

lemma INSERT_AFTER_rep:
  assumes r: "circleq_rep s h (xs @ a # ys)" and e: "e \<notin> set (xs @ a # ys)"
  shows "\<exists>s'. CIRCLEQ_INSERT_AFTER h a e s = Some s' \<and> circleq_rep s' h (xs @ a # e # ys)"
proof -
  have ae: "a \<noteq> e" using e by auto
  show ?thesis
  proof (cases "ys = []")
    case True
    then show ?thesis using splice_rep [of s h "xs @ [a]" "[]" e] r e ae circle_next [OF r]
      by (simp add: CIRCLEQ_INSERT_AFTER_def cq_eval right_of_def left_of_def)
  next
    case False
    then show ?thesis using splice_rep [of s h "xs @ [a]" ys e] r e ae circle_next [OF r]
      by (simp add: CIRCLEQ_INSERT_AFTER_def cq_eval right_of_def left_of_def)
  qed
qed

lemma INSERT_BEFORE_rep:
  assumes r: "circleq_rep s h (xs @ a # ys)" and e: "e \<notin> set (xs @ a # ys)"
  shows "\<exists>s'. CIRCLEQ_INSERT_BEFORE h a e s = Some s' \<and> circleq_rep s' h (xs @ e # a # ys)"
proof -
  have ae: "a \<noteq> e" using e by auto
  show ?thesis
  proof (cases "xs = []")
    case True
    then show ?thesis using splice_rep [of s h "[]" "a # ys" e] r e ae circle_prev [OF r]
      by (simp add: CIRCLEQ_INSERT_BEFORE_def cq_eval right_of_def left_of_def)
  next
    case False
    then show ?thesis using splice_rep [of s h xs "a # ys" e] r e ae circle_prev [OF r]
      by (simp add: CIRCLEQ_INSERT_BEFORE_def cq_eval right_of_def left_of_def)
  qed
qed

lemma REMOVE_rep:
  assumes r: "circleq_rep s h (xs @ e # ys)"
  shows "\<exists>s'. CIRCLEQ_REMOVE h e s = Some s' \<and> circleq_rep s' h (xs @ ys)"
proof -
  have d: "distinct (xs @ e # ys)" using r by (simp add: circleq_rep_def)
  then have "ys \<noteq> [] \<Longrightarrow> hd ys \<noteq> e" "xs \<noteq> [] \<Longrightarrow> last xs \<noteq> e" by (auto dest: last_in_set hd_in_set)
  then show ?thesis using unsplice_rep [OF r] circle_next [OF r] circle_prev [OF r]
    by (cases "xs = []"; cases "ys = []") (simp_all add: CIRCLEQ_REMOVE_def cq_eval right_of_def left_of_def)
qed

lemma circle_ring: "ring f a xs (Hd h) \<Longrightarrow> circle_from (\<lambda>e. f (El e)) h (f a) = Some xs"
proof (induction xs arbitrary: a)
  case Nil
  then show ?case by (subst circle_from.simps) simp
next
  case (Cons x xs)
  then have "circle_from (\<lambda>e. f (El e)) h (f (El x)) = Some xs" by simp
  then show ?case using Cons.prems by (subst circle_from.simps) simp
qed

lemma FOREACH_circle: "circleq_rep s h xs \<Longrightarrow> CIRCLEQ_FOREACH h s = Some xs"
  using circle_ring [of "nxt s" "Hd h" xs h] by (simp add: circleq_rep_def CIRCLEQ_FOREACH_def CIRCLEQ_NEXT_def CIRCLEQ_FIRST_def nxt_simps)

lemma FOREACH_REVERSE_circle: "circleq_rep s h xs \<Longrightarrow> CIRCLEQ_FOREACH_REVERSE h s = Some (rev xs)"
  using circle_ring [of "prv s" "Hd h" "rev xs" h]
  by (simp add: circleq_rep_def CIRCLEQ_FOREACH_REVERSE_def CIRCLEQ_PREV_def CIRCLEQ_LAST_def prv_simps)

text \<open>As for the tail queue, the head is removed by passing \<^verbatim>\<open>CIRCLEQ_FIRST\<close>.\<close>

fun circleq_step :: "'h \<Rightarrow> 'e q_op \<Rightarrow> ('h, 'e) cqheap \<Rightarrow> ('h, 'e) cqheap option" where
  "circleq_step h Q_Init s = Some (CIRCLEQ_INIT h s)"
| "circleq_step h (Q_InsertHead e) s = CIRCLEQ_INSERT_HEAD h e s"
| "circleq_step h (Q_InsertTail e) s = CIRCLEQ_INSERT_TAIL h e s"
| "circleq_step h (Q_InsertAfter a e) s = CIRCLEQ_INSERT_AFTER h a e s"
| "circleq_step h Q_RemoveHead s = (case CIRCLEQ_FIRST h s of Hd _ \<Rightarrow> None | El e \<Rightarrow> CIRCLEQ_REMOVE h e s)"
| "circleq_step h (Q_Remove e) s = CIRCLEQ_REMOVE h e s"

interpretation cq: list_queue "circleq_step h" "\<lambda>s. circleq_rep s h" "CIRCLEQ_FOREACH h" for h :: 'h
proof unfold_locales
  fix s :: "('h, 'e) cqheap" and xs op
  assume r: "circleq_rep s h xs"
  show "CIRCLEQ_FOREACH h s = Some xs" using r by (rule FOREACH_circle)
  show "\<exists>s'. circleq_step h op s = Some s' \<and> circleq_rep s' h (q_list op xs)" if pre: "q_pre op xs"
  proof (cases op)
    case (Q_InsertAfter a e)
    let ?p = "takeWhile (\<lambda>x. x \<noteq> a) xs" and ?q = "tl (dropWhile (\<lambda>x. x \<noteq> a) xs)"
    have x: "xs = ?p @ a # ?q" using pre Q_InsertAfter by (intro split_at) simp
    have "circleq_rep s h (?p @ a # ?q)" "e \<notin> set (?p @ a # ?q)" using r pre Q_InsertAfter unfolding x [symmetric] by simp_all
    then show ?thesis using INSERT_AFTER_rep Q_InsertAfter by simp
  next
    case Q_RemoveHead
    then show ?thesis using pre r circle_first [OF r] REMOVE_rep [of s h "[]"] by (cases xs) (simp_all add: CIRCLEQ_FIRST_def right_of_def)
  next
    case (Q_Remove e)
    moreover have "distinct xs" using r by (simp add: circleq_rep_def)
    ultimately show ?thesis using pre r remove1_cut [of e xs] REMOVE_rep by fastforce
  qed (use pre r in \<open>simp_all add: INIT_rep INSERT_HEAD_rep INSERT_TAIL_rep\<close>)
qed


section \<open>Properties\<close>

text \<open>C20: the circular queue is a list. Over any admissible sequence of operations no pointer to the head
  is followed as if it were an element, the links represent the list the operations describe, the
  two loops over the queue end and visit it in order and in reverse order, and the first, the last
  and the neighbours of an element are the ones of the list, with the head standing for none.\<close>

theorem circleq_refines_list:
  assumes "circleq_rep s h xs" and "q_script ops xs"
  shows "\<exists>s'. q_run (circleq_step h) ops s = Some s' \<and> circleq_rep s' h (fold q_list ops xs) \<and>
    CIRCLEQ_FOREACH h s' = Some (fold q_list ops xs) \<and> CIRCLEQ_FOREACH_REVERSE h s' = Some (rev (fold q_list ops xs)) \<and>
    (CIRCLEQ_EMPTY h s' \<longleftrightarrow> fold q_list ops xs = []) \<and>
    (\<forall>ys x zs. fold q_list ops xs = ys @ x # zs \<longrightarrow>
       CIRCLEQ_NEXT x s' = (if zs = [] then Hd h else El (hd zs)) \<and> CIRCLEQ_PREV x s' = (if ys = [] then Hd h else El (last ys)) \<and>
       CIRCLEQ_FIRST h s' = El (hd (ys @ [x])) \<and> CIRCLEQ_LAST h s' = El (last (x # zs)))"
proof -
  obtain s' where s: "q_run (circleq_step h) ops s = Some s'" "circleq_rep s' h (fold q_list ops xs)" "CIRCLEQ_FOREACH h s' = Some (fold q_list ops xs)"
    using cq.run_rep [OF assms] by blast
  define us where "us = fold q_list ops xs"
  have r: "circleq_rep s' h us" using s(2) by (simp add: us_def)
  have "CIRCLEQ_NEXT x s' = (if zs = [] then Hd h else El (hd zs)) \<and> CIRCLEQ_PREV x s' = (if ys = [] then Hd h else El (last ys)) \<and>
      CIRCLEQ_FIRST h s' = El (hd (ys @ [x])) \<and> CIRCLEQ_LAST h s' = El (last (x # zs))" if "us = ys @ x # zs" for ys x zs
    using circle_next [of s' h ys x zs] circle_prev [of s' h ys x zs] circle_first [OF r] circle_last [OF r] r that
    by (simp add: CIRCLEQ_NEXT_def CIRCLEQ_PREV_def CIRCLEQ_FIRST_def CIRCLEQ_LAST_def right_of_def left_of_def hd_append)
  moreover have "CIRCLEQ_EMPTY h s' \<longleftrightarrow> us = []" using circle_first [OF r] by (simp add: CIRCLEQ_EMPTY_def right_of_def)
  ultimately show ?thesis using s FOREACH_REVERSE_circle [OF r] unfolding us_def by blast
qed

definition cq_blank :: "(nat, nat) cqheap" where
  "cq_blank = \<lparr>cq_first = Hd, cq_last = Hd, cq_next = El, cq_prev = El\<rparr>"

theorem circleq_refines_list_witness:
  "\<exists>s'. q_run (circleq_step 0) [Q_InsertTail 1, Q_InsertHead 2, Q_InsertAfter 2 3, Q_InsertTail 4, Q_Remove 2] cq_blank = Some s' \<and>
     CIRCLEQ_FOREACH 0 s' = Some [3, 1, 4] \<and> CIRCLEQ_FOREACH_REVERSE 0 s' = Some [4, 1, 3] \<and> CIRCLEQ_PREV 1 s' = El 3"
proof -
  let ?ops = "[Q_InsertTail 1, Q_InsertHead 2, Q_InsertAfter 2 3, Q_InsertTail 4, Q_Remove 2] :: nat q_op list"
  have l: "fold q_list ?ops [] = [3] @ 1 # [4]" and p: "q_script ?ops []" by simp_all
  have "circleq_rep cq_blank 0 []" by (simp add: circleq_rep_def cq_blank_def nxt_def prv_def)
  from circleq_refines_list [OF this p, unfolded l] obtain s' where s: "q_run (circleq_step 0) ?ops cq_blank = Some s'"
      "CIRCLEQ_FOREACH 0 s' = Some ([3] @ 1 # [4])" "CIRCLEQ_FOREACH_REVERSE 0 s' = Some (rev ([3] @ 1 # [4]))"
      "\<forall>ys x zs. [3] @ 1 # [4] = ys @ x # zs \<longrightarrow> CIRCLEQ_PREV x s' = (if ys = [] then Hd 0 else El (last ys))"
    by blast
  have "CIRCLEQ_PREV 1 s' = El 3" using s(4) [rule_format, of "[3]" 1 "[4]"] by simp
  then show ?thesis using s(1-3) by simp
qed

end
