(* ===== verification/Cc_Event.thy ===== *)
theory Cc_Event
  imports Cc_Channel Cc_Mm
begin

unbundle bit_operations_syntax

text \<open>
  The event loop of \<^verbatim>\<open>src/event/cc_epoll.c\<close> and \<^verbatim>\<open>src/event/cc_shared.c\<close>. The epoll calls are system
  calls of the kernel parameter; \<^verbatim>\<open>epoll_wait\<close> returns its events as pairs of flags and data in the
  values of the result. The callback is a parameter: it acts on the state of its client and on the
  environment, in which it may register and remove descriptors, and leaves the event base alone.
\<close>

datatype event_metric = M_event_total | M_event_loop | M_event_read | M_event_write

fun event_metric_type :: "event_metric \<Rightarrow> metric_type" where
  "event_metric_type _ = METRIC_COUNTER"

type_synonym event_env = "event_metric io_env"
type_synonym epoll_event = "u32 \<times> nat ptr"
type_synonym 's event_cb_fn = "nat ptr \<Rightarrow> u32 \<Rightarrow> 's \<times> event_env \<Rightarrow> 's \<times> event_env"

record 's event_base =
  eb_ep :: int
  eb_event :: "epoll_event list"
  eb_nevent :: int
  eb_cb :: "'s event_cb_fn ptr"

definition EVENT_READ :: u32 where "EVENT_READ = 0xff"
definition EVENT_WRITE :: u32 where "EVENT_WRITE = 0xff00"
definition EVENT_ERR :: u32 where "EVENT_ERR = 0xff0000"

definition EPOLLIN :: u32 where "EPOLLIN = 0x1"
definition EPOLLOUT :: u32 where "EPOLLOUT = 0x4"
definition EPOLLERR :: u32 where "EPOLLERR = 0x8"
definition EPOLLHUP :: u32 where "EPOLLHUP = 0x10"
definition EPOLLRDHUP :: u32 where "EPOLLRDHUP = 0x2000"
definition EPOLL_CTL_ADD :: int where "EPOLL_CTL_ADD = 1"
definition EPOLL_CTL_DEL :: int where "EPOLL_CTL_DEL = 2"
definition EEXIST :: int where "EEXIST = 17"
definition EPOLL_EVENT_SIZE :: u64 where "EPOLL_EVENT_SIZE = 12"
definition EVENT_BASE_SIZE :: u64 where "EVENT_BASE_SIZE = 32"


section \<open>The module\<close>

definition event_setup :: "event_metric metrics \<Rightarrow> bool \<times> event_env \<Rightarrow> bool \<times> event_env" where
  "event_setup metrics m = (True, (snd m)\<lparr>te_metrics := metrics\<rparr>)"

definition event_teardown :: "bool \<times> event_env \<Rightarrow> bool \<times> event_env" where
  "event_teardown m = (False, (snd m)\<lparr>te_metrics := Null\<rparr>)"

definition event_base_create ::
  "malloc_fn \<Rightarrow> int \<Rightarrow> 's event_cb_fn ptr \<Rightarrow> event_env \<Rightarrow> ('s event_base ptr \<times> event_env) option" where
  "event_base_create malloc nevent cb e = do {
     ASSERT (nevent > 0);
     let (r, e) = te_call (syscall (Sys_epoll_create 0)) e;
     if sr_ret r < 0 then Some (Null, e)
     else do {
       event \<leftarrow> cc_calloc malloc (word_of_int nevent) EPOLL_EVENT_SIZE;
       if event = Null then Some (Null, snd (te_call (syscall (Sys_close (sr_ret r))) e))
       else if cc_alloc malloc EVENT_BASE_SIZE = Null then Some (Null, snd (te_call (syscall (Sys_close (sr_ret r))) e))
       else Some (Ptr \<lparr>eb_ep = sr_ret r, eb_event = replicate (nat nevent) (0, Null), eb_nevent = nevent, eb_cb = cb\<rparr>, e)
     }
   }"

definition event_base_destroy :: "'s event_base ptr \<Rightarrow> event_env \<Rightarrow> ('s event_base ptr \<times> event_env) option" where
  "event_base_destroy evb e =
     (case evb of
        Null \<Rightarrow> Some (Null, e)
      | Ptr b \<Rightarrow> do {
          ASSERT (eb_ep b > 0);
          Some (Null, snd (te_call (syscall (Sys_close (eb_ep b))) e))
        })"

definition event_update :: "'s event_base \<Rightarrow> int \<Rightarrow> int \<Rightarrow> u32 \<Rightarrow> nat ptr \<Rightarrow> event_env \<Rightarrow> int \<times> event_env" where
  "event_update evb fd op events data e =
     (let (r, e) = te_call (syscall (Sys_epoll_ctl (eb_ep evb) op fd events data)) e in (sr_ret r, e))"

definition event_add_read :: "'s event_base \<Rightarrow> int \<Rightarrow> nat ptr \<Rightarrow> event_env \<Rightarrow> (int \<times> event_env) option" where
  "event_add_read evb fd data e = do {
     ASSERT (eb_ep evb > 0);
     ASSERT (fd \<ge> 0);
     let (status, e) = event_update evb fd EPOLL_CTL_ADD EPOLLIN data e;
     Some (status, te_incr M_event_read e)
   }"

definition event_add_write :: "'s event_base \<Rightarrow> int \<Rightarrow> nat ptr \<Rightarrow> event_env \<Rightarrow> (int \<times> event_env) option" where
  "event_add_write evb fd data e = do {
     ASSERT (eb_ep evb > 0);
     ASSERT (fd \<ge> 0);
     let (status, e) = event_update evb fd EPOLL_CTL_ADD EPOLLOUT data e;
     Some (status, te_incr M_event_write e)
   }"

definition event_del :: "'s event_base \<Rightarrow> int \<Rightarrow> event_env \<Rightarrow> (int \<times> event_env) option" where
  "event_del evb fd e = do {
     ASSERT (eb_ep evb > 0);
     ASSERT (fd \<ge> 0);
     Some (event_update evb fd EPOLL_CTL_DEL 0 Null e)
   }"


section \<open>Waiting\<close>

text \<open>The events of a result.\<close>

fun epoll_events :: "int list \<Rightarrow> epoll_event list" where
  "epoll_events (f # d # vs) = (word_of_int f, if d = 0 then Null else Ptr (nat d)) # epoll_events vs"
| "epoll_events _ = []"

definition event_flags :: "u32 \<Rightarrow> u32" where
  "event_flags ev =
     (let events = 0;
          events = (if ev AND (EPOLLERR OR EPOLLHUP) \<noteq> 0 then events OR EVENT_ERR else events);
          events = (if ev AND (EPOLLIN OR EPOLLRDHUP) \<noteq> 0 then events OR EVENT_READ else events)
      in if ev AND EPOLLOUT \<noteq> 0 then events OR EVENT_WRITE else events)"

fun dispatch_loop :: "'s event_base \<Rightarrow> nat \<Rightarrow> nat \<Rightarrow> 's \<times> event_env \<Rightarrow> ('s \<times> event_env) option" where
  "dispatch_loop evb i 0 s = Some s"
| "dispatch_loop evb i (Suc n) s = do {
     ev \<leftarrow> (if i < length (eb_event evb) then Some (eb_event evb ! i) else None);
     let s = (case eb_cb evb of Null \<Rightarrow> s | Ptr cb \<Rightarrow> cb (snd ev) (event_flags (fst ev)) s);
     dispatch_loop evb (Suc i) n s
   }"

text \<open>One round of the loop; \<^term>\<open>Inl\<close> is \<^verbatim>\<open>continue\<close>.\<close>

definition event_wait_body ::
  "int \<Rightarrow> 's event_base \<times> 's \<times> event_env \<Rightarrow> ('s event_base \<times> 's \<times> event_env) + (int \<times> 's event_base \<times> 's \<times> event_env) option" where
  "event_wait_body timeout st = (case st of (evb, s, e) \<Rightarrow>
     let (r, e) = te_call (syscall (Sys_epoll_wait (eb_ep evb) (eb_nevent evb) timeout)) e;
         nreturned = sr_ret r;
         e = te_incr M_event_loop e
     in if nreturned > 0 then Inr (do {
          evs \<leftarrow> mem_write (eb_event evb) 0 (epoll_events (sr_vals r));
          let evb = evb\<lparr>eb_event := evs\<rparr>;
          (s, e) \<leftarrow> dispatch_loop evb 0 (nat nreturned) (s, te_incr_n M_event_total nreturned e);
          Some (nreturned, evb, s, e)
        })
        else if nreturned = 0 then Inr (Some (if timeout = - 1 then - 1 else 0, evb, s, e))
        else if os_errno (te_os e) = EINTR then Inl (evb, s, e)
        else Inr (Some (- 1, evb, s, e)))"

definition event_wait :: "'s event_base ptr \<Rightarrow> int \<Rightarrow> 's \<Rightarrow> event_env \<Rightarrow> (int \<times> 's event_base \<times> 's \<times> event_env) option" where
  "event_wait evb timeout s e =
     (case evb of
        Null \<Rightarrow> None
      | Ptr b \<Rightarrow> do {
          ASSERT (eb_ep b > 0);
          ASSERT (eb_nevent b > 0);
          r \<leftarrow> retry (event_wait_body timeout) (b, s, e);
          r
        })"


section \<open>Facts\<close>

text \<open>The flags a callback is given can be told apart.\<close>

lemma event_flags_cases:
  "event_flags f AND EVENT_READ \<noteq> 0 \<longleftrightarrow> f AND (EPOLLIN OR EPOLLRDHUP) \<noteq> 0"
  "event_flags f AND EVENT_WRITE \<noteq> 0 \<longleftrightarrow> f AND EPOLLOUT \<noteq> 0"
  "event_flags f AND EVENT_ERR \<noteq> 0 \<longleftrightarrow> f AND (EPOLLERR OR EPOLLHUP) \<noteq> 0"
  by (simp_all add: event_flags_def Let_def EVENT_READ_def EVENT_WRITE_def EVENT_ERR_def)

text \<open>The documented result of \<^verbatim>\<open>epoll_wait\<close>: not more events than there is room for.\<close>

definition epoll_ok :: "kernel \<Rightarrow> bool" where
  "epoll_ok k \<longleftrightarrow> (\<forall>t ep n timeout. let r = k t (Sys_epoll_wait ep n timeout) in
     0 < sr_ret r \<longrightarrow> sr_ret r \<le> n \<and> int (length (epoll_events (sr_vals r))) = sr_ret r)"

definition base_ok :: "'s event_base \<Rightarrow> bool" where
  "base_ok b \<longleftrightarrow> 0 < eb_ep b \<and> 0 < eb_nevent b \<and> int (length (eb_event b)) = eb_nevent b"

text \<open>One event as the callback of the base sees it.\<close>

definition dispatch :: "'s event_base \<Rightarrow> epoll_event \<Rightarrow> 's \<times> event_env \<Rightarrow> 's \<times> event_env" where
  "dispatch b ev st = (case eb_cb b of Null \<Rightarrow> st | Ptr cb \<Rightarrow> cb (snd ev) (event_flags (fst ev)) st)"

lemma dispatch_loop_fold:
  "i + n \<le> length (eb_event b) \<Longrightarrow> dispatch_loop b i n st = Some (fold (dispatch b) (take n (drop i (eb_event b))) st)"
proof (induction n arbitrary: i st)
  case (Suc n)
  then have "take (Suc n) (drop i (eb_event b)) = eb_event b ! i # take n (drop (Suc i) (eb_event b))"
    by (simp add: Cons_nth_drop_Suc [symmetric])
  then show ?case using Suc by (simp add: dispatch_def)
qed simp

lemma base_create_ok:
  assumes "event_base_create malloc nevent cb e = Some (Ptr b, e')" "sr_ret (os_kernel (te_os e) (os_trace (te_os e)) (Sys_epoll_create 0)) \<noteq> 0"
  shows "base_ok b \<and> eb_cb b = cb"
  using assms by (auto simp: event_base_create_def base_ok_def te_call_syscall Let_def split: if_splits bind_splits)

text \<open>A descriptor that is registered already: the call reports an error and asks for nothing.\<close>

lemma event_add_exists:
  assumes "0 < eb_ep b" "0 \<le> fd" "os_kernel (te_os e) (os_trace (te_os e)) (Sys_epoll_ctl (eb_ep b) EPOLL_CTL_ADD fd EPOLLOUT d) = \<lparr>sr_ret = - 1, sr_errno = EEXIST, sr_data = [], sr_vals = []\<rparr>"
  shows "\<exists>e' r. event_add_write b fd d e = Some (- 1, e') \<and>
    os_trace (te_os e') = (Sys_epoll_ctl (eb_ep b) EPOLL_CTL_ADD fd EPOLLOUT d, r) # os_trace (te_os e)"
  using assms by (simp add: event_add_write_def event_update_def te_call_syscall Let_def)


text \<open>A round of which the result of the call is known.\<close>

lemma event_wait_body_eval:
  fixes b :: "'s event_base" and e :: event_env
  assumes "os_kernel (te_os e) (os_trace (te_os e)) (Sys_epoll_wait (eb_ep b) (eb_nevent b) timeout) = r"
  shows "\<exists>e2. os_kernel (te_os e2) = os_kernel (te_os e) \<and>
    os_trace (te_os e2) = (Sys_epoll_wait (eb_ep b) (eb_nevent b) timeout, r) # os_trace (te_os e) \<and>
    event_wait_body timeout (b, s, e) =
      (if sr_ret r > 0 then Inr (do {
          evs \<leftarrow> mem_write (eb_event b) 0 (epoll_events (sr_vals r));
          (s, e) \<leftarrow> dispatch_loop (b\<lparr>eb_event := evs\<rparr>) 0 (nat (sr_ret r)) (s, te_incr_n M_event_total (sr_ret r) e2);
          Some (sr_ret r, b\<lparr>eb_event := evs\<rparr>, s, e)
        })
       else if interrupted r then Inl (b, s, e2)
       else Inr (Some (if sr_ret r = 0 \<and> timeout \<noteq> - 1 then 0 else - 1, b, s, e2)))"
proof -
  define e2 where "e2 = te_incr M_event_loop (snd (te_call (syscall (Sys_epoll_wait (eb_ep b) (eb_nevent b) timeout)) e))"
  have call: "te_call (syscall (Sys_epoll_wait (eb_ep b) (eb_nevent b) timeout)) e =
      (r, snd (te_call (syscall (Sys_epoll_wait (eb_ep b) (eb_nevent b) timeout)) e))" using assms by (simp add: te_call_syscall Let_def)
  have t: "os_kernel (te_os e2) = os_kernel (te_os e)" "os_trace (te_os e2) = (Sys_epoll_wait (eb_ep b) (eb_nevent b) timeout, r) # os_trace (te_os e)"
      "sr_ret r < 0 \<Longrightarrow> os_errno (te_os e2) = sr_errno r"
    using assms by (simp_all add: e2_def te_call_syscall Let_def)
  have "event_wait_body timeout (b, s, e) = (if sr_ret r > 0 then Inr (do {
          evs \<leftarrow> mem_write (eb_event b) 0 (epoll_events (sr_vals r));
          (s, e) \<leftarrow> dispatch_loop (b\<lparr>eb_event := evs\<rparr>) 0 (nat (sr_ret r)) (s, te_incr_n M_event_total (sr_ret r) e2);
          Some (sr_ret r, b\<lparr>eb_event := evs\<rparr>, s, e)
        })
       else if interrupted r then Inl (b, s, e2)
       else Inr (Some (if sr_ret r = 0 \<and> timeout \<noteq> - 1 then 0 else - 1, b, s, e2)))"
    unfolding event_wait_body_def prod.case by (subst call) (simp add: e2_def [symmetric] Let_def interrupted_def t(3))
  then show ?thesis using t(1,2) by blast
qed

text \<open>The wait is the round in which the call is not interrupted.\<close>

lemma event_wait_round:
  fixes k :: kernel and timeout :: int and b :: "'s event_base"
  assumes "kernel_ok k" and "base_ok b" and "os_kernel (te_os e) = k"
  defines "c \<equiv> Sys_epoll_wait (eb_ep b) (eb_nevent b) timeout"
  shows "\<exists>m e' a. (\<forall>j < m. interrupted (k (tried k c (os_trace (te_os e)) j) c)) \<and> \<not> interrupted (k (tried k c (os_trace (te_os e)) m) c) \<and>
    os_kernel (te_os e') = k \<and> os_trace (te_os e') = tried k c (os_trace (te_os e)) m \<and>
    event_wait_body timeout (b, s, e') = Inr a \<and> event_wait (Ptr b) timeout s e = a"
proof -
  let ?t0 = "os_trace (te_os e)" and ?os = "\<lambda>(b' :: 's event_base, s' :: 's, e' :: event_env). te_os e'"
  define R :: "'s event_base \<times> 's \<times> event_env \<Rightarrow> bool" where "R st \<longleftrightarrow> (case st of (b', s', e') \<Rightarrow> b' = b \<and> s' = s \<and>
    (\<exists>m. os_trace (te_os e') = tried k c ?t0 m \<and> (\<forall>j < m. interrupted (k (tried k c ?t0 j) c))))" for st
  have start: "R (b, s, e)" "os_kernel (?os (b, s, e)) = k" using assms(3) by (auto simp: R_def intro: exI [of _ 0])
  have step: "\<exists>st'. event_wait_body timeout st = Inl st' \<and> R st' \<and> os_kernel (?os st') = k \<and> os_trace (?os st') = (c, k (os_trace (?os st)) c) # os_trace (?os st)"
    if st: "R st" "os_kernel (?os st) = k" and i: "interrupted (k (os_trace (?os st)) c)" for st
  proof -
    obtain e' m where e': "st = (b, s, e')" "os_trace (te_os e') = tried k c ?t0 m" "\<forall>j < m. interrupted (k (tried k c ?t0 j) c)"
      using st(1) by (auto simp: R_def)
    have "\<forall>j < Suc m. interrupted (k (tried k c ?t0 j) c)" using e' i by (auto simp: less_Suc_eq)
    moreover obtain e2 where "os_kernel (te_os e2) = k" "os_trace (te_os e2) = tried k c ?t0 (Suc m)" "event_wait_body timeout (b, s, e') = Inl (b, s, e2)"
      using event_wait_body_eval [of e' b timeout "k (tried k c ?t0 m) c" s] e' st(2) i by (auto simp: c_def interrupted_def Let_def)
    moreover have "R (b, s, e2)" unfolding R_def prod.case using calculation(1,3) by blast
    ultimately show ?thesis using e' by (simp add: Let_def)
  qed
  have stop: "\<exists>a. event_wait_body timeout st = Inr a"
    if st: "R st" "os_kernel (?os st) = k" and i: "\<not> interrupted (k (os_trace (?os st)) c)" for st
  proof -
    obtain e' where e': "st = (b, s, e')" using st(1) by (auto simp: R_def)
    show ?thesis using event_wait_body_eval [of e' b timeout "k (os_trace (te_os e')) c" s] st(2) i by (auto simp: e' c_def)
  qed
  obtain st a where fin: "R st" "os_kernel (?os st) = k" "\<not> interrupted (k (os_trace (?os st)) c)" "event_wait_body timeout st = Inr a"
      "retry (event_wait_body timeout) (b, s, e) = Some a"
    using retry_ends [where R = R and osof = ?os, OF assms(1) start step stop] by blast
  obtain e' m where e': "st = (b, s, e')" "os_trace (te_os e') = tried k c ?t0 m" "\<forall>j < m. interrupted (k (tried k c ?t0 j) c)"
    using fin(1) by (auto simp: R_def)
  moreover have "event_wait (Ptr b) timeout s e = a" using fin(5) assms(2) by (simp add: event_wait_def base_ok_def)
  ultimately show ?thesis using fin by auto
qed


section \<open>Properties\<close>

text \<open>C14: waiting for events. Over any kernel that keeps to the documentation of \<^verbatim>\<open>epoll_wait\<close>, the wait
  returns with the result of the first call that is not interrupted by a signal. When that call gives
  events, the callback is called for each of them, once and in their order, with its data and its
  flags; when it gives none or fails, nothing is called, and a wait without a time limit that comes
  back empty counts as a failure.\<close>

theorem event_wait_dispatches:
  fixes k :: kernel and timeout :: int and b :: "'s event_base"
  assumes "kernel_ok k" and "epoll_ok k" and "base_ok b" and "os_kernel (te_os e) = k"
  defines "c \<equiv> Sys_epoll_wait (eb_ep b) (eb_nevent b) timeout"
  shows "\<exists>m e1 r. (\<forall>j < m. interrupted (k (tried k c (os_trace (te_os e)) j) c)) \<and> r = k (tried k c (os_trace (te_os e)) m) c \<and> \<not> interrupted r \<and>
    os_trace (te_os e1) = (c, r) # tried k c (os_trace (te_os e)) m \<and>
    (if 0 < sr_ret r
     then \<exists>b'. event_wait (Ptr b) timeout s e = Some (case fold (dispatch b) (epoll_events (sr_vals r)) (s, e1) of (s', e') \<Rightarrow> (sr_ret r, b', s', e')) \<and> base_ok b'
     else event_wait (Ptr b) timeout s e = Some (if sr_ret r = 0 \<and> timeout \<noteq> - 1 then 0 else - 1, b, s, e1))"
proof -
  let ?t0 = "os_trace (te_os e)"
  obtain m e' a where e': "\<forall>j < m. interrupted (k (tried k c ?t0 j) c)" "os_trace (te_os e') = tried k c ?t0 m"
    and fin: "\<not> interrupted (k (tried k c ?t0 m) c)" "os_kernel (te_os e') = k"
    and body: "event_wait_body timeout (b, s, e') = Inr a" and wait: "event_wait (Ptr b) timeout s e = a"
    using event_wait_round [OF assms(1,3,4)] unfolding c_def by blast
  define r where "r = k (tried k c ?t0 m) c"
  have ni: "\<not> interrupted r" "os_kernel (te_os e') = k" using fin(1,2) by (simp_all add: r_def)
  obtain e2 where tr: "os_trace (te_os e2) = (c, r) # tried k c ?t0 m" and ev: "event_wait_body timeout (b, s, e') =
      (if sr_ret r > 0 then Inr (do {
          evs \<leftarrow> mem_write (eb_event b) 0 (epoll_events (sr_vals r));
          (s, e) \<leftarrow> dispatch_loop (b\<lparr>eb_event := evs\<rparr>) 0 (nat (sr_ret r)) (s, te_incr_n M_event_total (sr_ret r) e2);
          Some (sr_ret r, b\<lparr>eb_event := evs\<rparr>, s, e)
        })
       else if interrupted r then Inl (b, s, e2)
       else Inr (Some (if sr_ret r = 0 \<and> timeout \<noteq> - 1 then 0 else - 1, b, s, e2)))"
    using event_wait_body_eval [of e' b timeout r s] ni(2) e'(2) unfolding r_def c_def by auto
  show ?thesis
  proof (cases "0 < sr_ret r")
    case True
    let ?evs = "epoll_events (sr_vals r)"
    have len: "sr_ret r \<le> eb_nevent b" "int (length ?evs) = sr_ret r" using assms(2) True unfolding epoll_ok_def r_def c_def Let_def by blast+
    define b' where "b' = b\<lparr>eb_event := ?evs @ drop (length ?evs) (eb_event b)\<rparr>"
    define e1 where "e1 = te_incr_n M_event_total (sr_ret r) e2"
    have room: "length ?evs \<le> length (eb_event b)" "nat (sr_ret r) = length ?evs" using len assms(3) by (simp_all add: base_ok_def)
    have w: "mem_write (eb_event b) 0 ?evs = Some (?evs @ drop (length ?evs) (eb_event b))" using room(1) by (simp add: mem_write_def)
    have "dispatch b' = dispatch b" by (simp add: b'_def dispatch_def fun_eq_iff)
    then have d: "dispatch_loop b' 0 (nat (sr_ret r)) (s, e1) = Some (fold (dispatch b) ?evs (s, e1))"
      using dispatch_loop_fold [of 0 "nat (sr_ret r)" b' "(s, e1)"] room by (simp add: b'_def)
    have "a = Some (case fold (dispatch b) ?evs (s, e1) of (s', e') \<Rightarrow> (sr_ret r, b', s', e'))"
      using body ev True w d by (simp add: e1_def [symmetric] b'_def [symmetric] split: prod.splits)
    moreover have "base_ok b'" using assms(3) room(1) by (simp add: base_ok_def b'_def)
    moreover have "os_trace (te_os e1) = (c, r) # tried k c ?t0 m" using tr by (simp add: e1_def)
    ultimately show ?thesis using wait e'(1) ni(1) r_def True by (intro exI [of _ m] exI [of _ e1] exI [of _ r]) auto
  next
    case False
    have "a = Some (if sr_ret r = 0 \<and> timeout \<noteq> - 1 then 0 else - 1, b, s, e2)"
      using body ev False ni(1) by simp
    then show ?thesis using wait e'(1) ni(1) r_def False tr by (intro exI [of _ m] exI [of _ e2] exI [of _ r]) auto
  qed
qed

text \<open>A kernel with two events ready, after one interruption; the callback collects what it is given.\<close>

definition event_kernel :: kernel where
  "event_kernel t c = (case c of
     Sys_epoll_wait ep n timeout \<Rightarrow>
       if t = [] then \<lparr>sr_ret = - 1, sr_errno = EINTR, sr_data = [], sr_vals = []\<rparr>
       else if n < 2 then \<lparr>sr_ret = 0, sr_errno = 0, sr_data = [], sr_vals = []\<rparr>
       else \<lparr>sr_ret = 2, sr_errno = 0, sr_data = [], sr_vals = [1, 7, 4, 9]\<rparr>
   | _ \<Rightarrow> \<lparr>sr_ret = 0, sr_errno = 0, sr_data = [], sr_vals = []\<rparr>)"

definition event_sample :: "(nat ptr \<times> u32) list event_base" where
  "event_sample = \<lparr>eb_ep = 3, eb_event = replicate 4 (0, Null), eb_nevent = 4, eb_cb = Ptr (\<lambda>d f (s, e). (s @ [(d, f)], e))\<rparr>"

lemma event_kernel_ok: "kernel_ok event_kernel" "epoll_ok event_kernel"
proof -
  have "result_ok c (event_kernel t c)" for t c by (cases c) (simp_all add: event_kernel_def)
  moreover have "\<not> interrupted (event_kernel (tried event_kernel c t 1) c)" for t c
    by (cases c) (simp_all add: event_kernel_def interrupted_def Let_def)
  ultimately show "kernel_ok event_kernel" unfolding kernel_ok_def by blast
  show "epoll_ok event_kernel" by (simp add: epoll_ok_def event_kernel_def)
qed

theorem event_wait_dispatches_witness:
  "\<exists>b' e'. event_wait (Ptr event_sample) (- 1) [] \<lparr>te_metrics = Null, te_os = \<lparr>os_kernel = event_kernel, os_trace = [], os_errno = 0, os_signals = []\<rparr>\<rparr> =
     Some (2, b', [(Ptr 7, EVENT_READ), (Ptr 9, EVENT_WRITE)], e')"
proof -
  let ?e = "\<lparr>te_metrics = Null, te_os = \<lparr>os_kernel = event_kernel, os_trace = [], os_errno = 0, os_signals = []\<rparr>\<rparr>"
  let ?c = "Sys_epoll_wait (eb_ep event_sample) (eb_nevent event_sample) (- 1)"
  have ok: "base_ok event_sample" by (simp add: base_ok_def event_sample_def)
  obtain m e1 r where w: "\<forall>j < m. interrupted (event_kernel (tried event_kernel ?c [] j) ?c)" "r = event_kernel (tried event_kernel ?c [] m) ?c" "\<not> interrupted r"
      "if 0 < sr_ret r
       then \<exists>b'. event_wait (Ptr event_sample) (- 1) [] ?e = Some (case fold (dispatch event_sample) (epoll_events (sr_vals r)) ([], e1) of (s', e') \<Rightarrow> (sr_ret r, b', s', e')) \<and> base_ok b'
       else event_wait (Ptr event_sample) (- 1) [] ?e = Some (if sr_ret r = 0 \<and> - 1 \<noteq> (- 1 :: int) then 0 else - 1, event_sample, [], e1)"
    using event_wait_dispatches [OF event_kernel_ok ok, of ?e "- 1" "[]"] by auto
  have "tried event_kernel ?c [] m \<noteq> []"
  proof
    assume "tried event_kernel ?c [] m = []"
    then show False using w(2,3) by (simp add: event_kernel_def interrupted_def)
  qed
  then have r: "sr_ret r = 2" "sr_vals r = [1, 7, 4, 9]" using w(2) by (simp_all add: event_kernel_def event_sample_def)
  have f: "event_flags 1 = EVENT_READ" "event_flags 4 = EVENT_WRITE"
    by (simp_all add: event_flags_def EPOLLIN_def EPOLLOUT_def EPOLLERR_def EPOLLHUP_def EPOLLRDHUP_def)
  have "fold (dispatch event_sample) (epoll_events (sr_vals r)) ([], e1) = ([(Ptr 7, EVENT_READ), (Ptr 9, EVENT_WRITE)], e1)"
    by (simp add: r dispatch_def event_sample_def f)
  then show ?thesis using w(4) r(1) by auto
qed

end
