(* ===== verification/Spec2Isabelle.thy ===== *)
theory Spec2Isabelle
  imports Cc_Ring_Threads Cc_Dbuf Cc_Wheel_Facts Cc_Util Cc_Option_Facts Cc_Sockio_Facts Cc_Sockio_Pool Cc_Pipe Cc_Array Cc_Debug Cc_Histogram Cc_Circleq Cc_Event
begin

text \<open>
  A verification development for ccommon.
\<close>

end
